(* ===== verification/Prelude.thy ===== *)
theory Prelude
  imports Main "HOL-Library.Word"
begin

text \<open>
  Shared vocabulary of the development: bytes and byte strings (the contents of
  a \<^verbatim>\<open>Slice\<close> or a \<^verbatim>\<open>std::string\<close>), the widths of the machine integers the
  sources use, the collections of rewrite rules the component theories fill,
  and the facts on lists and words that more than one component needs.
\<close>

unbundle bit_operations_syntax

type_synonym byte = "8 word"
type_synonym bytes = "byte list"
type_synonym uint32 = "32 word"
type_synonym uint64 = "64 word"

named_theorems coding_simps \<open>evaluation and round-trip rules of the byte encodings\<close>
named_theorems cmp_simps \<open>comparison rules of the key orders\<close>
named_theorems step_intros \<open>preservation rules of the invariants\<close>

section \<open>Literals\<close>

text \<open>The bytes of a C string literal.\<close>

definition lit :: "string \<Rightarrow> bytes" where
  "lit s = map (\<lambda>c. word_of_nat (of_char c)) s"

text \<open>The decimal digits of a number, as \<^verbatim>\<open>printf\<close> prints it.\<close>

fun decimal :: "nat \<Rightarrow> bytes" where
  "decimal n = (if n < 10 then [word_of_nat (48 + n)] else decimal (n div 10) @ [word_of_nat (48 + n mod 10)])"

declare decimal.simps [simp del]

definition decimal_int :: "int \<Rightarrow> bytes" where
  "decimal_int i = (if i < 0 then 45 # decimal (nat (- i)) else decimal (nat i))"

section \<open>Lists\<close>

lemma take_append_exact [simp]: "length xs = n \<Longrightarrow> take n (xs @ ys) = xs"
  by simp

lemma drop_append_exact [simp]: "length xs = n \<Longrightarrow> drop n (xs @ ys) = ys"
  by simp

lemma takeWhile_dropWhile_sorted:
  assumes "sorted_wrt R xs" and "\<And>x y. R x y \<Longrightarrow> P y \<Longrightarrow> P x"
  shows "takeWhile P xs = filter P xs"
  using assms(1)
proof (induction xs)
  case (Cons x xs)
  show ?case
  proof (cases "P x")
    case True
    with Cons show ?thesis by simp
  next
    case False
    with Cons.prems assms(2) have "\<forall>y \<in> set xs. \<not> P y" by auto
    with False show ?thesis by simp
  qed
qed simp

lemma nth_append_Cons_length [simp]: "(xs @ y # ys) ! length xs = y"
  by (simp add: nth_append)

section \<open>Words\<close>

lemma unat_byte_less [simp]: "unat (b :: byte) < 256"
  using unsigned_less [of b] by simp

lemma byte_high_bit: "8 \<le> i \<Longrightarrow> bit (b :: byte) i \<longleftrightarrow> False"
  using bit_imp_le_length [of b i] by auto

lemma ucast_byte_less: "unat (ucast (b :: byte) :: 'a :: len word) < 256"
  by (metis unat_byte_less le_less_trans take_bit_nat_less_eq_self unsigned_ucast_eq)

lemma ucast_and_ff [simp]: "(ucast (w AND 0xff :: 'a :: len word) :: byte) = ucast w"
proof (rule bit_word_eqI)
  fix n
  assume n: "n < LENGTH(8)"
  have "(0xff :: 'a word) = mask 8"
    by (simp add: mask_eq_exp_minus_1)
  then have "bit (0xff :: 'a word) n \<longleftrightarrow> n < LENGTH('a)"
    using n by (metis bit_mask_iff len_num0 len_num1 len_bit0 mult_2 numeral_Bit0 one_add_one
      possible_bit_word)
  then show "bit (ucast (w AND 0xff) :: byte) n = bit (ucast w :: byte) n"
    using n by (auto simp: bit_simps dest: bit_imp_le_length)
qed

lemma unat_drop_bit: "unat (drop_bit n (v :: 'a :: len word)) = unat v div 2 ^ n"
  by (metis drop_bit_eq_div unat_drop_bit_eq)

lemma drop_bit_7_less:
  assumes "128 \<le> (v :: uint64)"
  shows "unat (drop_bit 7 v) < unat v"
proof -
  have "128 \<le> unat v"
    using assms by (simp add: word_le_nat_alt)
  then show ?thesis
    by (simp add: unat_drop_bit)
qed

lemma nat_bit_less: "n < 2 ^ k \<Longrightarrow> bit (n :: nat) i \<Longrightarrow> i < k"
  by (metis bit_take_bit_iff take_bit_nat_eq_self)

lemma unat_word_of_nat [simp]:
  "n < 2 ^ LENGTH('a) \<Longrightarrow> unat (word_of_nat n :: 'a :: len word) = n"
  by (simp add: unsigned_of_nat take_bit_nat_eq_self)

lemma unat_ucast_up:
  assumes "LENGTH('a) \<le> LENGTH('b)"
  shows "unat (ucast (w :: 'a :: len word) :: 'b :: len word) = unat w"
proof -
  have "unat w < 2 ^ LENGTH('b)"
    using unsigned_less [where ?'a = nat, of w] assms
    by (meson less_le_trans power_increasing one_le_numeral)
  then show ?thesis
    by (simp add: unsigned_ucast_eq take_bit_nat_eq_self)
qed

lemma word_of_nat_unat_eq:
  "unat (x :: 'a :: len word) = n \<Longrightarrow> word_of_nat n = x"
  by auto

end
