(* ===== verification/RandomGen.thy ===== *)
theory RandomGen
  imports Prelude
begin

text \<open>
  The pseudo-random generator of \<^verbatim>\<open>util/random.h\<close>: the state is the 32-bit word
  \<^verbatim>\<open>seed_\<close>, an operation returns its result and the new seed.
\<close>

unbundle bit_operations_syntax

section \<open>Definitions\<close>

definition new_Random :: "uint32 \<Rightarrow> uint32" where
  "new_Random s =
     (let seed = s AND 0x7fffffff in if seed = 0 \<or> seed = 2147483647 then 1 else seed)"

definition rnd_Next :: "uint32 \<Rightarrow> uint32 \<times> uint32" where
  "rnd_Next seed =
     (let M = 2147483647; A = (16807 :: uint64);
          product = ucast seed * A;
          seed = ucast (drop_bit 31 product + (product AND ucast M)) :: uint32;
          seed = (if seed > M then seed - M else seed)
      in (seed, seed))"

definition Uniform :: "uint32 \<Rightarrow> uint32 \<Rightarrow> uint32 \<times> uint32" where
  "Uniform n seed = (case rnd_Next seed of (r, seed) \<Rightarrow> (r mod n, seed))"

definition OneIn :: "uint32 \<Rightarrow> uint32 \<Rightarrow> bool \<times> uint32" where
  "OneIn n seed = (case rnd_Next seed of (r, seed) \<Rightarrow> (r mod n = 0, seed))"

definition Skewed :: "uint32 \<Rightarrow> uint32 \<Rightarrow> uint32 \<times> uint32" where
  "Skewed max_log seed =
     (case Uniform (max_log + 1) seed of (k, seed) \<Rightarrow> Uniform (push_bit (unat k) 1) seed)"

section \<open>The generator computes in the field of integers modulo 2^31 - 1\<close>

definition good_seed :: "uint32 \<Rightarrow> bool" where
  "good_seed s \<longleftrightarrow> 0 < unat s \<and> unat s < 2147483647"

lemma mersenne_fold:
  fixes p :: nat
  shows "(p div 2 ^ 31 + p mod 2 ^ 31) mod 2147483647 = p mod 2147483647"
proof -
  have "p = p div 2 ^ 31 * 2147483647 + (p div 2 ^ 31 + p mod 2 ^ 31)"
    using div_mult_mod_eq [of p "2 ^ 31"] by simp
  then show ?thesis
    by (metis mod_mult_self3)
qed

lemma mod_by_subtraction:
  "(x :: nat) < 2 * m \<Longrightarrow> x \<noteq> m \<Longrightarrow> (if m < x then x - m else x) = x mod m"
  by (auto simp: mod_if)

lemma and_mask31: "(x :: uint64) AND 2147483647 = take_bit 31 x"
proof -
  have "(2147483647 :: uint64) = mask 31"
    by (simp add: mask_eq_exp_minus_1)
  then show ?thesis
    by (simp only: take_bit_eq_mask)
qed

lemma unat_Next_sum:
  fixes s :: uint32
  assumes "unat s < 2147483647"
  shows "unat (ucast (drop_bit 31 (ucast s * 16807 :: uint64) + (ucast s * 16807 AND 2147483647)) :: uint32) =
    (unat s * 16807) div 2 ^ 31 + (unat s * 16807) mod 2 ^ 31"
proof -
  let ?p = "ucast s * 16807 :: uint64"
  have "unat (ucast s :: uint64) = unat s"
    by (simp add: unat_ucast_up)
  then have p: "unat ?p = unat s * 16807"
    using assms by (simp add: unat_word_ariths)
  have lt: "(unat s * 16807) div 2 ^ 31 < 16807" "(unat s * 16807) mod 2 ^ 31 < 2 ^ 31"
    using assms by (simp_all add: less_mult_imp_div_less)
  have "unat (drop_bit 31 ?p) = (unat s * 16807) div 2 ^ 31"
    by (simp only: unat_drop_bit p)
  moreover have "unat (?p AND 2147483647) = (unat s * 16807) mod 2 ^ 31"
    by (metis and_mask31 p take_bit_eq_mod unsigned_take_bit_eq)
  ultimately have "unat (drop_bit 31 ?p + (?p AND 2147483647)) =
      (unat s * 16807) div 2 ^ 31 + (unat s * 16807) mod 2 ^ 31"
    using lt by (simp add: unat_word_ariths)
  with lt show ?thesis
    by (simp add: unsigned_ucast_eq take_bit_nat_eq_self)
qed

lemma Next_mod:
  assumes "good_seed s"
  shows "unat (fst (rnd_Next s)) = (unat s * 16807) mod 2147483647" "good_seed (fst (rnd_Next s))"
proof -
  let ?p = "unat s * 16807" and ?M = "2147483647 :: nat"
  let ?x = "?p div 2 ^ 31 + ?p mod 2 ^ 31"
  let ?w = "ucast (drop_bit 31 (ucast s * 16807 :: uint64) + (ucast s * 16807 AND 2147483647)) :: uint32"
  have s: "0 < unat s" "unat s < ?M"
    using assms by (simp_all add: good_seed_def)
  have w: "unat ?w = ?x"
    using unat_Next_sum [OF s(2)] .
  have nz: "?p mod ?M \<noteq> 0"
  proof
    assume "?p mod ?M = 0"
    then have "?M dvd unat s * 16807 * 1407677000"
      by (simp only: dvd_eq_mod_eq_0 [symmetric] dvd_mult2)
    also have "unat s * 16807 * 1407677000 = 11017 * unat s * ?M + unat s"
      by simp
    finally have "?M dvd unat s"
      by (simp only: dvd_add_times_triv_left_iff)
    with s show False
      by (auto dest: dvd_imp_le)
  qed
  have "?p div 2 ^ 31 < 16807" "?p mod 2 ^ 31 < 2 ^ 31"
    using s(2) by (simp_all add: less_mult_imp_div_less)
  then have small: "?x < 2 * ?M"
    by simp
  have fold: "?x mod ?M = ?p mod ?M"
    by (rule mersenne_fold)
  then have "?x \<noteq> ?M"
    using nz by (metis mod_self)
  then have res: "(if ?M < ?x then ?x - ?M else ?x) = ?x mod ?M"
    using small mod_by_subtraction by blast
  have "unat (fst (rnd_Next s)) = (if ?M < ?x then ?x - ?M else ?x)"
    using w by (simp add: rnd_Next_def Let_def word_less_nat_alt unat_sub_if' word_le_nat_alt)
  then show *: "unat (fst (rnd_Next s)) = ?p mod ?M"
    using res fold by simp
  show "good_seed (fst (rnd_Next s))"
    using * nz by (simp add: good_seed_def)
qed

lemma new_Random_good: "good_seed (new_Random s)"
proof -
  have "(0x7fffffff :: uint32) = mask 31"
    by (simp add: mask_eq_exp_minus_1)
  then have "unat (s AND 0x7fffffff) = unat s mod 2 ^ 31"
    by (metis take_bit_eq_mask take_bit_eq_mod unsigned_take_bit_eq)
  then have "unat (s AND 0x7fffffff) < 2147483648"
    by simp
  then show ?thesis
    by (auto simp: new_Random_def good_seed_def Let_def word_unat_eq_iff word_gt_0 simp del: unat_eq_0)
qed

section \<open>Properties\<close>

text \<open>The generator is the multiplicative generator modulo 2^31 - 1: from a seed
  in \<open>[1, 2^31 - 2]\<close>, the only seeds a constructor leaves, \<^verbatim>\<open>Next\<close> returns
  \<open>seed * 16807 mod (2^31 - 1)\<close>, computed by folding instead of dividing, and
  stores a seed of the same range, so it never sticks at 0 or at the modulus.\<close>

lemma random_next_is_lehmer:
  assumes "good_seed s"
  shows "unat (fst (rnd_Next s)) = (unat s * 16807) mod (2 ^ 31 - 1) \<and>
    snd (rnd_Next s) = fst (rnd_Next s) \<and> good_seed (snd (rnd_Next s)) \<and> good_seed (new_Random t)"
  using Next_mod [OF assms] new_Random_good by (simp add: rnd_Next_def Let_def)

end
