(* ===== verification/SkipList.thy ===== *)
theory SkipList
  imports RandomGen "HOL-Library.Monad_Syntax"
begin

text \<open>
  The skip list of \<^verbatim>\<open>db/skiplist.h\<close> in the build configuration of the repository
  (\<^verbatim>\<open>USE_OFFSETS\<close>, \<^verbatim>\<open>ENABLE_RECOVERY\<close>, assertions off).  Nodes live in a store that
  maps addresses to node contents; a key is a pointer, compared through the
  comparison function \<open>cmp\<close> of the list.  An access outside the store or outside
  the link array of a node is \<open>None\<close>, and so is a search that never returns.
\<close>

section \<open>Definitions\<close>

type_synonym ptr = int

definition kMaxHeight :: nat where "kMaxHeight = 12"

record Node =
  key_offset :: ptr
  height :: nat
  links :: "ptr list"

type_synonym store = "ptr \<Rightarrow> Node option"

record SkipList =
  head :: ptr
  max_height :: nat
  rnd :: uint32
  nodes :: store

definition node_Next :: "store \<Rightarrow> ptr \<Rightarrow> nat \<Rightarrow> ptr option" where
  "node_Next ns x n =
     (case ns x of None \<Rightarrow> None
      | Some nd \<Rightarrow> if n < length (links nd) then Some (links nd ! n) else None)"

definition node_SetNext :: "store \<Rightarrow> ptr \<Rightarrow> nat \<Rightarrow> ptr \<Rightarrow> store option" where
  "node_SetNext ns x n y =
     (case ns x of None \<Rightarrow> None
      | Some nd \<Rightarrow>
          if n < length (links nd) then Some (ns(x \<mapsto> nd\<lparr>links := (links nd)[n := y]\<rparr>)) else None)"

text \<open>\<^verbatim>\<open>NewNode\<close> places a node of the given height at the address the arena returns.\<close>

definition NewNode :: "store \<Rightarrow> ptr \<Rightarrow> ptr \<Rightarrow> nat \<Rightarrow> store" where
  "NewNode ns mem key h = ns(mem \<mapsto> \<lparr> key_offset = key, height = h, links = replicate h 0 \<rparr>)"

definition new_SkipList :: "ptr \<Rightarrow> SkipList" where
  "new_SkipList mem =
     \<lparr> head = mem, max_height = 1, rnd = new_Random 0xdeadbeef,
       nodes = NewNode Map.empty mem 0 kMaxHeight \<rparr>"

function RandomHeight_loop :: "nat \<Rightarrow> uint32 \<Rightarrow> nat \<times> uint32" where
  "RandomHeight_loop h seed =
     (if h < kMaxHeight then
        case rnd_Next seed of (r, seed) \<Rightarrow>
          if r mod 4 = 0 then RandomHeight_loop (h + 1) seed else (h, seed)
      else (h, seed))"
  by auto
termination
  by (relation "measure (\<lambda>(h, _). kMaxHeight - h)") auto

definition RandomHeight :: "uint32 \<Rightarrow> nat \<times> uint32" where
  "RandomHeight seed = RandomHeight_loop 1 seed"

definition KeyIsAfterNode :: "(ptr \<Rightarrow> ptr \<Rightarrow> int) \<Rightarrow> store \<Rightarrow> ptr \<Rightarrow> ptr \<Rightarrow> bool option" where
  "KeyIsAfterNode cmp ns key n =
     (if n = 0 then Some False
      else case ns n of None \<Rightarrow> None | Some nd \<Rightarrow> Some (cmp (key_offset nd) key < 0))"

text \<open>The search loop; \<open>prev\<close> is the caller's array, whose entries are \<open>None\<close> until
  they are written.\<close>

partial_function (option) FindGreaterOrEqual_loop ::
    "(ptr \<Rightarrow> ptr \<Rightarrow> int) \<Rightarrow> store \<Rightarrow> ptr \<Rightarrow> ptr \<Rightarrow> nat \<Rightarrow> ptr option list \<Rightarrow> (ptr \<times> ptr option list) option" where
  "FindGreaterOrEqual_loop cmp ns key x level prev =
     do {
       next \<leftarrow> node_Next ns x level;
       after \<leftarrow> KeyIsAfterNode cmp ns key next;
       if after then FindGreaterOrEqual_loop cmp ns key next level prev
       else if level = 0 then Some (next, prev[level := Some x])
       else FindGreaterOrEqual_loop cmp ns key x (level - 1) (prev[level := Some x])
     }"

definition FindGreaterOrEqual ::
    "(ptr \<Rightarrow> ptr \<Rightarrow> int) \<Rightarrow> SkipList \<Rightarrow> ptr \<Rightarrow> (ptr \<times> ptr option list) option" where
  "FindGreaterOrEqual cmp l key =
     FindGreaterOrEqual_loop cmp (nodes l) key (head l) (max_height l - 1) (replicate kMaxHeight None)"

text \<open>\<^verbatim>\<open>FindLessThan\<close> as compiled: it compares the pointer difference of a node and its
  key, not the key.\<close>

partial_function (option) FindLessThan_loop ::
    "(ptr \<Rightarrow> ptr \<Rightarrow> int) \<Rightarrow> store \<Rightarrow> ptr \<Rightarrow> ptr \<Rightarrow> nat \<Rightarrow> ptr option" where
  "FindLessThan_loop cmp ns key x level =
     do {
       next \<leftarrow> node_Next ns x level;
       stop \<leftarrow> (if next = 0 then Some True
               else case ns next of None \<Rightarrow> None
                 | Some nd \<Rightarrow> Some (cmp (next - key_offset nd) key \<ge> 0));
       if stop then if level = 0 then Some x else FindLessThan_loop cmp ns key x (level - 1)
       else FindLessThan_loop cmp ns key next level
     }"

definition FindLessThan :: "(ptr \<Rightarrow> ptr \<Rightarrow> int) \<Rightarrow> SkipList \<Rightarrow> ptr \<Rightarrow> ptr option" where
  "FindLessThan cmp l key = FindLessThan_loop cmp (nodes l) key (head l) (max_height l - 1)"

partial_function (option) FindLast_loop :: "store \<Rightarrow> ptr \<Rightarrow> nat \<Rightarrow> ptr option" where
  "FindLast_loop ns x level =
     do {
       next \<leftarrow> node_Next ns x level;
       if next = 0 then if level = 0 then Some x else FindLast_loop ns x (level - 1)
       else FindLast_loop ns next level
     }"

definition FindLast :: "SkipList \<Rightarrow> ptr option" where
  "FindLast l = FindLast_loop (nodes l) (head l) (max_height l - 1)"

text \<open>The linking loop of \<^verbatim>\<open>Insert\<close> and \<^verbatim>\<open>InsertNode\<close>, over the levels of the node.\<close>

primrec link_levels :: "store \<Rightarrow> ptr option list \<Rightarrow> ptr \<Rightarrow> nat list \<Rightarrow> store option" where
  "link_levels ns prev x [] = Some ns"
| "link_levels ns prev x (i # lv) =
     do {
       p \<leftarrow> prev ! i;
       nxt \<leftarrow> node_Next ns p i;
       ns \<leftarrow> node_SetNext ns x i nxt;
       ns \<leftarrow> node_SetNext ns p i x;
       link_levels ns prev x lv
     }"

text \<open>\<^verbatim>\<open>for (int i = GetMaxHeight(); i < height; i++) prev[i] = head_;\<close>\<close>

definition fill_prev :: "ptr option list \<Rightarrow> ptr \<Rightarrow> nat \<Rightarrow> nat \<Rightarrow> ptr option list" where
  "fill_prev prev hp mh h = fold (\<lambda>i prev. prev[i := Some hp]) [mh..<h] prev"

definition Insert :: "(ptr \<Rightarrow> ptr \<Rightarrow> int) \<Rightarrow> ptr \<Rightarrow> ptr \<Rightarrow> SkipList \<Rightarrow> SkipList option" where
  "Insert cmp mem key l =
     do {
       (x, prev) \<leftarrow> FindGreaterOrEqual cmp l key;
       let (h, seed) = RandomHeight (rnd l);
       let prev = (if h > max_height l then fill_prev prev (head l) (max_height l) h else prev);
       let mh = (if h > max_height l then h else max_height l);
       let ns = NewNode (nodes l) mem key h;
       ns \<leftarrow> link_levels ns prev mem [0..<h];
       Some (l\<lparr> max_height := mh, rnd := seed, nodes := ns \<rparr>)
     }"

definition InsertNode :: "(ptr \<Rightarrow> ptr \<Rightarrow> int) \<Rightarrow> ptr \<Rightarrow> SkipList \<Rightarrow> SkipList option" where
  "InsertNode cmp n l =
     do {
       nd \<leftarrow> nodes l n;
       (x, prev) \<leftarrow> FindGreaterOrEqual cmp l (key_offset nd);
       let h = height nd;
       let prev = (if h > max_height l then fill_prev prev (head l) (max_height l) h else prev);
       let mh = (if h > max_height l then h else max_height l);
       ns \<leftarrow> link_levels (nodes l) prev n [0..<h];
       Some (l\<lparr> max_height := mh, nodes := ns \<rparr>)
     }"

text \<open>\<^verbatim>\<open>Contains\<close> as compiled compares with the same pointer difference.\<close>

definition Contains :: "(ptr \<Rightarrow> ptr \<Rightarrow> int) \<Rightarrow> SkipList \<Rightarrow> ptr \<Rightarrow> bool option" where
  "Contains cmp l key =
     do {
       (x, _) \<leftarrow> FindGreaterOrEqual cmp l key;
       if x = 0 then Some False
       else do { nd \<leftarrow> nodes l x; Some (cmp key (x - key_offset nd) = 0) }
     }"

definition SetHead :: "ptr \<Rightarrow> SkipList \<Rightarrow> SkipList" where
  "SetHead p l = l\<lparr> head := p \<rparr>"

text \<open>Iterators: the current node, 0 when not valid.\<close>

definition iter_Valid :: "ptr \<Rightarrow> bool" where
  "iter_Valid node \<longleftrightarrow> node \<noteq> 0"

definition iter_key_offset :: "SkipList \<Rightarrow> ptr \<Rightarrow> ptr option" where
  "iter_key_offset l node = map_option key_offset (nodes l node)"

definition iter_Next :: "SkipList \<Rightarrow> ptr \<Rightarrow> ptr option" where
  "iter_Next l node = node_Next (nodes l) node 0"

definition iter_Prev :: "(ptr \<Rightarrow> ptr \<Rightarrow> int) \<Rightarrow> SkipList \<Rightarrow> ptr \<Rightarrow> ptr option" where
  "iter_Prev cmp l node =
     do {
       nd \<leftarrow> nodes l node;
       node \<leftarrow> FindLessThan cmp l (node - key_offset nd);
       Some (if node = head l then 0 else node)
     }"

definition iter_Seek :: "(ptr \<Rightarrow> ptr \<Rightarrow> int) \<Rightarrow> SkipList \<Rightarrow> ptr \<Rightarrow> ptr option" where
  "iter_Seek cmp l target = map_option fst (FindGreaterOrEqual cmp l target)"

definition iter_SeekToFirst :: "SkipList \<Rightarrow> ptr option" where
  "iter_SeekToFirst l = node_Next (nodes l) (head l) 0"

definition iter_SeekToLast :: "SkipList \<Rightarrow> ptr option" where
  "iter_SeekToLast l =
     do { node \<leftarrow> FindLast l; Some (if node = head l then 0 else node) }"

declare RandomHeight_loop.simps [simp del]
declare FindGreaterOrEqual_loop.simps [code] FindLessThan_loop.simps [code] FindLast_loop.simps [code]

section \<open>Chains\<close>

text \<open>The nodes of a level, linked in order and ended by the null pointer.\<close>

fun chain :: "store \<Rightarrow> nat \<Rightarrow> ptr list \<Rightarrow> bool" where
  "chain ns i [] \<longleftrightarrow> True"
| "chain ns i [a] \<longleftrightarrow> node_Next ns a i = Some 0"
| "chain ns i (a # b # bs) \<longleftrightarrow> node_Next ns a i = Some b \<and> chain ns i (b # bs)"

text \<open>The first node of a list, 0 for none.\<close>

abbreviation hd0 :: "ptr list \<Rightarrow> ptr" where
  "hd0 zs \<equiv> hd (zs @ [0])"

lemma chain_Cons: "chain ns i (a # bs) \<longleftrightarrow> node_Next ns a i = Some (hd0 bs) \<and> chain ns i bs"
  by (cases bs) auto

lemma chain_suffix: "chain ns i (xs @ ys) \<Longrightarrow> chain ns i ys"
  by (induction xs) (auto simp: chain_Cons)

lemma chain_cong:
  "(\<And>c. c \<in> set xs \<Longrightarrow> node_Next ns' c i = node_Next ns c i) \<Longrightarrow> chain ns' i xs = chain ns i xs"
  by (induction xs) (auto simp: chain_Cons)

lemma chain_insert:
  assumes "chain ns i (ps @ p # rs)" "distinct (ps @ p # rs)" "a \<notin> set (ps @ p # rs)"
    and "node_Next ns' a i = node_Next ns p i" "node_Next ns' p i = Some a"
    and "\<And>c. c \<noteq> a \<Longrightarrow> c \<noteq> p \<Longrightarrow> node_Next ns' c i = node_Next ns c i"
  shows "chain ns' i (ps @ p # a # rs)"
  using assms(1-3)
proof (induction ps)
  case Nil
  have "node_Next ns' c i = node_Next ns c i" if "c \<in> set rs" for c
    using that Nil.prems by (intro assms(6)) auto
  with Nil have "chain ns' i rs"
    using chain_cong [of rs ns' i ns] by (simp add: chain_Cons)
  with Nil assms(4,5) show ?case
    by (simp add: chain_Cons)
next
  case (Cons q ps)
  moreover have "node_Next ns' q i = node_Next ns q i"
    using Cons.prems assms(6) by auto
  ultimately show ?case
    by (cases ps) (auto simp: chain_Cons)
qed

section \<open>Searching\<close>

definition before :: "(ptr \<Rightarrow> ptr \<Rightarrow> int) \<Rightarrow> store \<Rightarrow> ptr \<Rightarrow> ptr \<Rightarrow> bool" where
  "before cmp ns key a \<longleftrightarrow> cmp (key_offset (the (ns a))) key < 0"

lemma KeyIsAfterNode_before:
  "a \<noteq> 0 \<Longrightarrow> ns a \<noteq> None \<Longrightarrow> KeyIsAfterNode cmp ns key a = Some (before cmp ns key a)"
  by (auto simp: KeyIsAfterNode_def before_def)

text \<open>One level of the search: it runs over the nodes before the key.\<close>

lemma FindGreaterOrEqual_walk:
  assumes "chain ns j (x # ys @ zs)" "\<forall>y \<in> set (ys @ zs). y \<noteq> 0 \<and> ns y \<noteq> None"
    and "\<forall>y \<in> set ys. before cmp ns key y" "\<forall>z \<in> set zs. \<not> before cmp ns key z"
  shows "FindGreaterOrEqual_loop cmp ns key x j prev =
    (if j = 0 then Some (hd0 zs, prev[j := Some (last (x # ys))])
     else FindGreaterOrEqual_loop cmp ns key (last (x # ys)) (j - 1) (prev[j := Some (last (x # ys))]))"
  using assms
proof (induction ys arbitrary: x)
  case Nil
  then have "node_Next ns x j = Some (hd0 zs)"
    by (simp add: chain_Cons)
  moreover have "KeyIsAfterNode cmp ns key (hd0 zs) = Some False"
    using Nil by (cases zs) (auto simp: KeyIsAfterNode_before, simp add: KeyIsAfterNode_def)
  ultimately show ?case
    by (subst FindGreaterOrEqual_loop.simps) simp
next
  case (Cons y ys)
  then have nx: "node_Next ns x j = Some y" and "chain ns j (y # ys @ zs)"
    by (simp_all add: chain_Cons)
  with Cons have IH: "FindGreaterOrEqual_loop cmp ns key y j prev =
    (if j = 0 then Some (hd0 zs, prev[j := Some (last (y # ys))])
     else FindGreaterOrEqual_loop cmp ns key (last (y # ys)) (j - 1) (prev[j := Some (last (y # ys))]))"
    by (intro Cons.IH) simp_all
  have after: "KeyIsAfterNode cmp ns key y = Some True"
    using Cons.prems by (simp add: KeyIsAfterNode_before)
  have "FindGreaterOrEqual_loop cmp ns key x j prev = FindGreaterOrEqual_loop cmp ns key y j prev"
    by (subst FindGreaterOrEqual_loop.simps) (simp add: nx after)
  then show ?case
    by (simp add: IH)
qed

lemma FindLast_walk:
  assumes "chain ns j (x # ys)" "0 \<notin> set ys"
  shows "FindLast_loop ns x j =
    (if j = 0 then Some (last (x # ys)) else FindLast_loop ns (last (x # ys)) (j - 1))"
  using assms
proof (induction ys arbitrary: x)
  case Nil
  then show ?case
    by (subst FindLast_loop.simps) simp
next
  case (Cons y ys)
  then have nx: "node_Next ns x j = Some y" and "chain ns j (y # ys)"
    by (simp_all add: chain_Cons)
  with Cons have IH: "FindLast_loop ns y j =
    (if j = 0 then Some (last (y # ys)) else FindLast_loop ns (last (y # ys)) (j - 1))"
    by (intro Cons.IH) simp_all
  have "FindLast_loop ns x j = FindLast_loop ns y j"
    using Cons.prems by (subst FindLast_loop.simps) (simp add: nx)
  then show ?case
    by (simp add: IH)
qed

section \<open>Representation\<close>

abbreviation ht :: "store \<Rightarrow> ptr \<Rightarrow> nat" where
  "ht ns a \<equiv> height (the (ns a))"

definition level_list :: "store \<Rightarrow> nat \<Rightarrow> ptr list \<Rightarrow> ptr list" where
  "level_list ns i xs = filter (\<lambda>a. i < ht ns a) xs"

definition node_ok :: "store \<Rightarrow> ptr \<Rightarrow> bool" where
  "node_ok ns a \<longleftrightarrow> a \<noteq> 0 \<and> (\<exists>nd. ns a = Some nd \<and> length (links nd) = height nd)"

text \<open>The list holds exactly the nodes \<open>xs\<close>: every level links the head with the
  nodes that are high enough, in order.\<close>

definition skip_repr :: "SkipList \<Rightarrow> ptr list \<Rightarrow> bool" where
  "skip_repr l xs \<longleftrightarrow>
     distinct (head l # xs) \<and> (\<forall>a \<in> set (head l # xs). node_ok (nodes l) a) \<and>
     ht (nodes l) (head l) = kMaxHeight \<and> 1 \<le> max_height l \<and> max_height l \<le> kMaxHeight \<and>
     (\<forall>a \<in> set xs. 1 \<le> ht (nodes l) a \<and> ht (nodes l) a \<le> max_height l) \<and>
     (\<forall>i < kMaxHeight. chain (nodes l) i (head l # level_list (nodes l) i xs))"

lemma level_list_append [simp]: "level_list ns i (xs @ ys) = level_list ns i xs @ level_list ns i ys"
  by (simp add: level_list_def)

lemma level_list_Cons [simp]:
  "level_list ns i (x # xs) = (if i < ht ns x then x # level_list ns i xs else level_list ns i xs)"
  by (simp add: level_list_def)

lemma level_list_0: "\<forall>a \<in> set xs. 1 \<le> ht ns a \<Longrightarrow> level_list ns 0 xs = xs"
  by (auto simp: level_list_def intro!: filter_True)

lemma set_level_list: "set (level_list ns i xs) = {a \<in> set xs. i < ht ns a}"
  by (auto simp: level_list_def)

lemma level_list_above: "\<forall>a \<in> set xs. ht ns a \<le> i \<Longrightarrow> level_list ns i xs = []"
  by (auto simp: level_list_def filter_empty_conv not_less)

text \<open>The last node of level \<open>i\<close> before the key, in a list split at the key.\<close>

definition pred_at :: "SkipList \<Rightarrow> ptr list \<Rightarrow> nat \<Rightarrow> ptr" where
  "pred_at l as i = last (head l # level_list (nodes l) i as)"

primrec set_prevs :: "(nat \<Rightarrow> ptr) \<Rightarrow> ptr option list \<Rightarrow> nat \<Rightarrow> ptr option list" where
  "set_prevs p prev 0 = prev[0 := Some (p 0)]"
| "set_prevs p prev (Suc j) = set_prevs p (prev[Suc j := Some (p (Suc j))]) j"

lemma length_set_prevs [simp]: "length (set_prevs p prev j) = length prev"
  by (induction j arbitrary: prev) simp_all

lemma nth_set_prevs:
  "i < length prev \<Longrightarrow> set_prevs p prev j ! i = (if i \<le> j then Some (p i) else prev ! i)"
  by (induction j arbitrary: prev) (auto simp: nth_list_update le_Suc_eq)

lemma head_or_level:
  assumes "x \<in> set (head l # level_list ns j as)"
  obtains ps ys where "head l # level_list ns j as = ps @ x # ys" "set ys \<subseteq> set as"
proof -
  obtain ps ys where split: "head l # level_list ns j as = ps @ x # ys"
    using split_list [OF assms] by blast
  have "set ys \<subseteq> set (tl (ps @ x # ys))"
    by (cases ps) auto
  also have "\<dots> \<subseteq> set as"
    by (simp add: level_list_def flip: split)
  finally show thesis
    using that split by blast
qed

lemma FindGreaterOrEqual_loop_correct:
  assumes repr: "skip_repr l (as @ bs)"
    and lt: "\<forall>a \<in> set as. before cmp (nodes l) key a" and ge: "\<forall>b \<in> set bs. \<not> before cmp (nodes l) key b"
    and x: "x \<in> set (head l # level_list (nodes l) j as)" and j: "j < kMaxHeight"
  shows "FindGreaterOrEqual_loop cmp (nodes l) key x j prev =
    Some (hd0 bs, set_prevs (pred_at l as) prev j)"
proof -
  have stored: "\<forall>y \<in> set ys \<union> set bs. y \<noteq> 0 \<and> nodes l y \<noteq> None" if "set ys \<subseteq> set as" for ys
    using repr that by (auto simp: skip_repr_def node_ok_def)
  show ?thesis
    using x j
  proof (induction j arbitrary: x prev)
    case 0
    obtain ps ys where split: "head l # level_list (nodes l) 0 as = ps @ x # ys" and sub: "set ys \<subseteq> set as"
      using "0.prems"(1) head_or_level by blast
    have "chain (nodes l) 0 ((ps @ x # ys) @ level_list (nodes l) 0 bs)"
      using repr split [symmetric] "0.prems"(2) by (simp add: skip_repr_def)
    then have ch: "chain (nodes l) 0 (x # ys @ level_list (nodes l) 0 bs)"
      using chain_suffix [of "nodes l" 0 ps] by simp
    have lb: "level_list (nodes l) 0 bs = bs"
      using repr by (intro level_list_0) (auto simp: skip_repr_def)
    have last: "last (x # ys) = pred_at l as 0"
      using split by (metis pred_at_def last_appendR list.discI)
    show ?case
      by (subst FindGreaterOrEqual_walk [OF ch], use stored [OF sub] lt ge sub in \<open>(auto simp: set_level_list)[3]\<close>)
         (simp only: lb last set_prevs.simps simp_thms if_True)
  next
    case (Suc j)
    obtain ps ys where split: "head l # level_list (nodes l) (Suc j) as = ps @ x # ys" and sub: "set ys \<subseteq> set as"
      using Suc.prems(1) head_or_level by blast
    have "chain (nodes l) (Suc j) ((ps @ x # ys) @ level_list (nodes l) (Suc j) bs)"
      using repr split [symmetric] Suc.prems(2) by (simp add: skip_repr_def)
    then have ch: "chain (nodes l) (Suc j) (x # ys @ level_list (nodes l) (Suc j) bs)"
      using chain_suffix [of "nodes l" "Suc j" ps] by simp
    have last: "last (x # ys) = pred_at l as (Suc j)"
      using split by (metis pred_at_def last_appendR list.discI)
    have "pred_at l as (Suc j) \<in> set (head l # level_list (nodes l) (Suc j) as)"
      unfolding pred_at_def by (rule last_in_set) simp
    then have "pred_at l as (Suc j) \<in> set (head l # level_list (nodes l) j as)"
      by (auto simp: set_level_list)
    with Suc.IH [of "pred_at l as (Suc j)"] Suc.prems(2)
    have IH: "FindGreaterOrEqual_loop cmp (nodes l) key (pred_at l as (Suc j)) j prev' =
        Some (hd0 bs, set_prevs (pred_at l as) prev' j)" for prev'
      by simp
    show ?case
      by (subst FindGreaterOrEqual_walk [OF ch], use stored [OF sub] lt ge sub in \<open>(auto simp: set_level_list)[3]\<close>)
         (simp only: last IH set_prevs.simps nat.distinct if_False diff_Suc_1)
  qed
qed

section \<open>Linking\<close>

definition shape :: "store \<Rightarrow> ptr \<Rightarrow> (ptr \<times> nat \<times> nat) option" where
  "shape ns c = map_option (\<lambda>nd. (key_offset nd, height nd, length (links nd))) (ns c)"

lemma node_SetNext_correct:
  assumes "node_Next ns x i \<noteq> None"
  obtains ns' where "node_SetNext ns x i y = Some ns'" "shape ns' = shape ns"
    "\<And>c j. node_Next ns' c j = (if c = x \<and> j = i then Some y else node_Next ns c j)"
proof -
  obtain nd where nd: "ns x = Some nd" "i < length (links nd)"
    using assms by (auto simp: node_Next_def split: option.splits if_splits)
  let ?ns' = "ns(x \<mapsto> nd\<lparr>links := (links nd)[i := y]\<rparr>)"
  have "node_SetNext ns x i y = Some ?ns'" "shape ?ns' = shape ns"
    using nd by (auto simp: node_SetNext_def shape_def)
  moreover have "node_Next ?ns' c j = (if c = x \<and> j = i then Some y else node_Next ns c j)" for c j
    using nd by (auto simp: node_Next_def nth_list_update)
  ultimately show thesis
    using that by blast
qed

lemma link_levels_correct:
  assumes "distinct lv"
    and "\<And>i. i \<in> set lv \<Longrightarrow> prev ! i = Some (p i) \<and> p i \<noteq> x \<and> node_Next ns (p i) i \<noteq> None \<and> node_Next ns x i \<noteq> None"
  shows "\<exists>ns'. link_levels ns prev x lv = Some ns' \<and> shape ns' = shape ns \<and>
    (\<forall>c i. node_Next ns' c i =
       (if i \<in> set lv \<and> c = x then node_Next ns (p i) i
        else if i \<in> set lv \<and> c = p i then Some x else node_Next ns c i))"
  using assms
proof (induction lv arbitrary: ns)
  case (Cons i lv)
  then obtain nxt where p: "prev ! i = Some (p i)" "p i \<noteq> x" "node_Next ns (p i) i = Some nxt"
    by fastforce
  obtain ns1 where 1: "node_SetNext ns x i nxt = Some ns1" "shape ns1 = shape ns"
    "\<And>c j. node_Next ns1 c j = (if c = x \<and> j = i then Some nxt else node_Next ns c j)"
    using Cons.prems(2) [of i] node_SetNext_correct [of ns x i] by (metis list.set_intros(1))
  obtain ns2 where 2: "node_SetNext ns1 (p i) i x = Some ns2" "shape ns2 = shape ns1"
    "\<And>c j. node_Next ns2 c j = (if c = p i \<and> j = i then Some x else node_Next ns1 c j)"
    using p 1(3) node_SetNext_correct [of ns1 "p i" i] by (metis option.distinct(1))
  have other: "node_Next ns2 c j = node_Next ns c j" if "j \<in> set lv" for c j
    using that Cons.prems(1) by (auto simp: 1(3) 2(3))
  have "\<exists>ns'. link_levels ns2 prev x lv = Some ns' \<and> shape ns' = shape ns2 \<and>
    (\<forall>c i. node_Next ns' c i =
       (if i \<in> set lv \<and> c = x then node_Next ns2 (p i) i
        else if i \<in> set lv \<and> c = p i then Some x else node_Next ns2 c i))"
    using Cons.prems by (intro Cons.IH) (auto simp: other)
  then obtain ns' where ns': "link_levels ns2 prev x lv = Some ns'" "shape ns' = shape ns2"
    "\<And>c i. node_Next ns' c i =
       (if i \<in> set lv \<and> c = x then node_Next ns2 (p i) i
        else if i \<in> set lv \<and> c = p i then Some x else node_Next ns2 c i)"
    by blast
  have "link_levels ns prev x (i # lv) = Some ns'"
    using p 1(1) 2(1) ns'(1) by simp
  moreover have "node_Next ns' c k =
      (if k \<in> set (i # lv) \<and> c = x then node_Next ns (p k) k
       else if k \<in> set (i # lv) \<and> c = p k then Some x else node_Next ns c k)" for c k
    using Cons.prems(1) p by (auto simp: ns'(3) 2(3) 1(3))
  ultimately show ?case
    using 1(2) 2(2) ns'(2) by auto
qed simp

lemma shape_eqD:
  assumes "shape ns' = shape ns"
  shows "height (the (ns' c)) = height (the (ns c))" "key_offset (the (ns' c)) = key_offset (the (ns c))"
    "node_ok ns' c = node_ok ns c" "ns' c = None \<longleftrightarrow> ns c = None"
proof -
  have "shape ns' c = shape ns c"
    using assms by simp
  then show "height (the (ns' c)) = height (the (ns c))" "key_offset (the (ns' c)) = key_offset (the (ns c))"
    "node_ok ns' c = node_ok ns c" "ns' c = None \<longleftrightarrow> ns c = None"
    by (cases "ns c"; cases "ns' c"; auto simp: shape_def node_ok_def)+
qed

lemma shape_key: "shape ns' c = shape ns c \<Longrightarrow> key_offset (the (ns' c)) = key_offset (the (ns c))"
  by (cases "ns c"; cases "ns' c") (auto simp: shape_def)

lemma node_Next_defined: "node_ok ns a \<Longrightarrow> node_Next ns a i \<noteq> None \<longleftrightarrow> i < ht ns a"
  by (auto simp: node_ok_def node_Next_def split: if_splits)

lemma node_Next_cong: "ns' c = ns c \<Longrightarrow> node_Next ns' c i = node_Next ns c i"
  by (simp add: node_Next_def)

lemma level_list_cong:
  "(\<And>c. c \<in> set xs \<Longrightarrow> ht ns' c = ht ns c) \<Longrightarrow> level_list ns' i xs = level_list ns i xs"
  unfolding level_list_def by (rule filter_cong) simp_all

lemma pred_at_in:
  assumes "skip_repr l (as @ bs)" "i < kMaxHeight"
  shows "pred_at l as i \<in> set (head l # as)" "i < ht (nodes l) (pred_at l as i)"
proof -
  have "pred_at l as i \<in> set (head l # level_list (nodes l) i as)"
    unfolding pred_at_def by (rule last_in_set) simp
  with assms show "pred_at l as i \<in> set (head l # as)" "i < ht (nodes l) (pred_at l as i)"
    unfolding skip_repr_def by (auto simp: set_level_list)
qed

text \<open>Linking a fresh node behind the predecessors of every level inserts it there.\<close>

lemma link_repr:
  assumes repr: "skip_repr l (as @ bs)"
    and x: "x \<notin> set (head l # as @ bs)" "node_ok ns x" "1 \<le> ht ns x" "ht ns x \<le> kMaxHeight"
    and agree: "\<And>c. c \<in> set (head l # as @ bs) \<Longrightarrow> ns c = nodes l c"
    and prev: "\<And>i. i < ht ns x \<Longrightarrow> prev ! i = Some (pred_at l as i)"
  shows "\<exists>ns'. link_levels ns prev x [0..<ht ns x] = Some ns' \<and> shape ns' = shape ns \<and>
    skip_repr (l\<lparr>max_height := max (max_height l) (ht ns x), rnd := r, nodes := ns'\<rparr>) (as @ x # bs)"
proof -
  let ?p = "pred_at l as" and ?h = "ht ns x"
  have p_in: "?p i \<in> set (head l # as @ bs)" "?p i \<noteq> x" "i < ht (nodes l) (?p i)" if "i < ?h" for i
    using pred_at_in [OF repr, of i] that x by auto
  have ok: "node_ok (nodes l) c" "node_ok ns c" if "c \<in> set (head l # as @ bs)" for c
    using repr that agree [OF that] by (auto simp: skip_repr_def node_ok_def)
  have step: "prev ! i = Some (?p i) \<and> ?p i \<noteq> x \<and> node_Next ns (?p i) i \<noteq> None \<and> node_Next ns x i \<noteq> None"
    if "i \<in> set [0..<?h]" for i
    using that prev p_in [of i] ok [of "?p i"] x(2) agree [of "?p i"] by (simp add: node_Next_defined del: not_None_eq)
  obtain ns' where ns': "link_levels ns prev x [0..<?h] = Some ns'" "shape ns' = shape ns"
    "\<And>c i. node_Next ns' c i =
       (if i < ?h \<and> c = x then node_Next ns (?p i) i
        else if i < ?h \<and> c = ?p i then Some x else node_Next ns c i)"
    using link_levels_correct [of "[0..<?h]" prev ?p x ns, OF _ step] by auto
  note sh = shape_eqD [OF ns'(2)]
  have ht': "ht ns' c = ht (nodes l) c" if "c \<in> set (head l # as @ bs)" for c
    using that sh(1) agree by simp
  have ll: "level_list ns' i as = level_list (nodes l) i as" "level_list ns' i bs = level_list (nodes l) i bs" for i
    using ht' by (auto intro!: level_list_cong)
  have ch: "chain ns' i (head l # level_list ns' i (as @ x # bs))" if i: "i < kMaxHeight" for i
  proof -
    have old: "chain (nodes l) i (head l # level_list (nodes l) i as @ level_list (nodes l) i bs)"
      using repr i by (simp add: skip_repr_def)
    have sub: "set (head l # level_list (nodes l) i as @ level_list (nodes l) i bs) \<subseteq> set (head l # as @ bs)"
      by (auto simp: set_level_list)
    then have old': "chain ns i (head l # level_list (nodes l) i as @ level_list (nodes l) i bs)"
      using chain_cong [of _ ns i "nodes l"] old agree node_Next_cong by (metis subsetD)
    show ?thesis
    proof (cases "i < ?h")
      case True
      define ps where "ps = butlast (head l # level_list (nodes l) i as)"
      have ps: "head l # level_list (nodes l) i as = ps @ [?p i]"
        by (simp only: ps_def pred_at_def append_butlast_last_id list.distinct not_False_eq_True)
      have whole: "head l # level_list (nodes l) i as @ bs' = ps @ ?p i # bs'" for bs'
        using ps by (metis append_Cons append_Nil append_assoc)
      have dist: "distinct (head l # level_list (nodes l) i as @ level_list (nodes l) i bs)"
        using repr by (auto simp: skip_repr_def level_list_def)
      have "chain ns' i (ps @ ?p i # x # level_list (nodes l) i bs)"
        using old' dist sub x(1) True p_in(2) [OF True] unfolding whole
        by (intro chain_insert [where ns = ns]) (auto simp: ns'(3))
      then show ?thesis
        using True by (simp add: ll sh(1) whole)
    next
      case False
      then have "chain ns' i (head l # level_list (nodes l) i as @ level_list (nodes l) i bs)"
        using old' chain_cong [of _ ns' i ns] by (simp add: ns'(3))
      then show ?thesis
        using False by (simp add: ll sh(1))
    qed
  qed
  have "skip_repr (l\<lparr>max_height := max (max_height l) ?h, rnd := r, nodes := ns'\<rparr>) (as @ x # bs)"
    using repr x ch ht' sh ok unfolding skip_repr_def by (auto simp: le_max_iff_disj)
  with ns' show ?thesis
    by blast
qed

lemma nth_fill_prev:
  "i < length prev \<Longrightarrow> fill_prev prev hp m h ! i = (if m \<le> i \<and> i < h then Some hp else prev ! i)"
proof -
  have "i < length prev \<Longrightarrow>
      fold (\<lambda>i prev. prev[i := Some hp]) lv prev ! i = (if i \<in> set lv then Some hp else prev ! i)" for lv
    by (induction lv arbitrary: prev) (auto simp: nth_list_update)
  then show "i < length prev \<Longrightarrow> fill_prev prev hp m h ! i = (if m \<le> i \<and> i < h then Some hp else prev ! i)"
    by (auto simp: fill_prev_def)
qed

lemma RandomHeight_bounds:
  "RandomHeight seed = (h, seed') \<Longrightarrow> 1 \<le> h \<and> h \<le> kMaxHeight"
proof -
  have "k \<le> kMaxHeight \<Longrightarrow> k \<le> fst (RandomHeight_loop k s) \<and> fst (RandomHeight_loop k s) \<le> kMaxHeight" for k s
  proof (induction k s rule: RandomHeight_loop.induct)
    case (1 k s)
    obtain r t where "rnd_Next s = (r, t)"
      by fastforce
    with 1 show ?case
      by (subst (1 2) RandomHeight_loop.simps) (cases "r mod 4 = 0"; fastforce)
  qed
  from this [of 1 seed] show "RandomHeight seed = (h, seed') \<Longrightarrow> 1 \<le> h \<and> h \<le> kMaxHeight"
    by (simp add: RandomHeight_def kMaxHeight_def)
qed

section \<open>Operations on a represented list\<close>

lemma FindGreaterOrEqual_correct:
  assumes "skip_repr l (as @ bs)"
    and "\<forall>a \<in> set as. before cmp (nodes l) key a" "\<forall>b \<in> set bs. \<not> before cmp (nodes l) key b"
  shows "FindGreaterOrEqual cmp l key =
    Some (hd0 bs, set_prevs (pred_at l as) (replicate kMaxHeight None) (max_height l - 1))"
  unfolding FindGreaterOrEqual_def using assms
  by (intro FindGreaterOrEqual_loop_correct) (auto simp: skip_repr_def)

lemma prev_correct:
  assumes "skip_repr l (as @ bs)" "h \<le> kMaxHeight" "i < h"
  defines "prev \<equiv> set_prevs (pred_at l as) (replicate kMaxHeight None) (max_height l - 1)"
  shows "(if h > max_height l then fill_prev prev (head l) (max_height l) h else prev) ! i =
    Some (pred_at l as i)"
proof -
  have mh: "1 \<le> max_height l" "max_height l \<le> kMaxHeight"
    and hs: "\<forall>a \<in> set as. ht (nodes l) a \<le> max_height l"
    using assms(1) by (auto simp: skip_repr_def)
  have "pred_at l as i = head l" if "max_height l \<le> i"
  proof -
    have "level_list (nodes l) i as = []"
      using that hs by (intro level_list_above) auto
    then show ?thesis
      by (simp add: pred_at_def)
  qed
  with mh assms(2,3) show ?thesis
    by (auto simp: prev_def nth_fill_prev nth_set_prevs)
qed

lemma Insert_correct:
  assumes repr: "skip_repr l (as @ bs)"
    and "\<forall>a \<in> set as. before cmp (nodes l) key a" "\<forall>b \<in> set bs. \<not> before cmp (nodes l) key b"
    and mem: "mem \<noteq> 0" "nodes l mem = None"
  shows "\<exists>l'. Insert cmp mem key l = Some l' \<and> skip_repr l' (as @ mem # bs) \<and> head l' = head l \<and>
    key_offset (the (nodes l' mem)) = key \<and>
    (\<forall>c. c \<noteq> mem \<longrightarrow> shape (nodes l') c = shape (nodes l) c)"
proof -
  obtain h seed where h: "RandomHeight (rnd l) = (h, seed)"
    by fastforce
  let ?ns = "NewNode (nodes l) mem key h"
  have bounds: "1 \<le> h" "h \<le> kMaxHeight"
    using RandomHeight_bounds [OF h] by simp_all
  have fresh: "mem \<notin> set (head l # as @ bs)"
    using repr mem(2) unfolding skip_repr_def node_ok_def by (metis option.distinct(1))
  let ?prev = "set_prevs (pred_at l as) (replicate kMaxHeight None) (max_height l - 1)"
  have ht: "ht ?ns mem = h"
    by (simp add: NewNode_def)
  have "\<exists>ns'. link_levels ?ns (if h > max_height l then fill_prev ?prev (head l) (max_height l) h else ?prev)
      mem [0..<ht ?ns mem] = Some ns' \<and> shape ns' = shape ?ns \<and>
    skip_repr (l\<lparr>max_height := max (max_height l) (ht ?ns mem), rnd := seed, nodes := ns'\<rparr>) (as @ mem # bs)"
  proof (rule link_repr [OF repr fresh])
    show "node_ok ?ns mem"
      using mem by (simp add: NewNode_def node_ok_def)
    show "?ns c = nodes l c" if "c \<in> set (head l # as @ bs)" for c
      using that fresh by (auto simp: NewNode_def)
  qed (use bounds prev_correct [OF repr bounds(2)] in \<open>simp_all only: ht\<close>)
  then obtain ns' where ns': "link_levels ?ns (if h > max_height l then fill_prev ?prev (head l) (max_height l) h else ?prev)
      mem [0..<h] = Some ns'" "shape ns' = shape ?ns"
    "skip_repr (l\<lparr>max_height := max (max_height l) h, rnd := seed, nodes := ns'\<rparr>) (as @ mem # bs)"
    unfolding ht by blast
  have "Insert cmp mem key l = Some (l\<lparr>max_height := max (max_height l) h, rnd := seed, nodes := ns'\<rparr>)"
    using ns'(1) h
    by (cases "max_height l < h")
       (auto simp: Insert_def FindGreaterOrEqual_correct [OF assms(1-3)] max_def Let_def)
  moreover have "key_offset (the (ns' mem)) = key"
    using shape_eqD(2) [OF ns'(2), of mem] by (simp add: NewNode_def)
  moreover have "c \<noteq> mem \<longrightarrow> shape ns' c = shape (nodes l) c" for c
    using ns'(2) by (simp add: shape_def fun_eq_iff NewNode_def)
  ultimately show ?thesis
    using ns'(3) by simp
qed

text \<open>Moving a node into the list relinks it there.\<close>

lemma InsertNode_correct:
  assumes repr: "skip_repr l (as @ bs)" and n: "node_ok (nodes l) n" "n \<notin> set (head l # as @ bs)"
    and ht: "1 \<le> ht (nodes l) n" "ht (nodes l) n \<le> kMaxHeight"
    and lt: "\<forall>a \<in> set as. before cmp (nodes l) (key_offset (the (nodes l n))) a"
    and ge: "\<forall>b \<in> set bs. \<not> before cmp (nodes l) (key_offset (the (nodes l n))) b"
  shows "\<exists>l'. InsertNode cmp n l = Some l' \<and> skip_repr l' (as @ n # bs) \<and> head l' = head l \<and>
    shape (nodes l') = shape (nodes l)"
proof -
  let ?h = "ht (nodes l) n"
  let ?prev = "set_prevs (pred_at l as) (replicate kMaxHeight None) (max_height l - 1)"
  have "\<exists>ns'. link_levels (nodes l)
      (if ?h > max_height l then fill_prev ?prev (head l) (max_height l) ?h else ?prev) n [0..<?h] = Some ns' \<and>
    shape ns' = shape (nodes l) \<and>
    skip_repr (l\<lparr>max_height := max (max_height l) ?h, rnd := rnd l, nodes := ns'\<rparr>) (as @ n # bs)"
    by (rule link_repr [OF repr n(2,1) ht]) (use prev_correct [OF repr ht(2)] in simp_all)
  then obtain ns' where ns': "link_levels (nodes l)
      (if ?h > max_height l then fill_prev ?prev (head l) (max_height l) ?h else ?prev) n [0..<?h] = Some ns'"
    "shape ns' = shape (nodes l)"
    "skip_repr (l\<lparr>max_height := max (max_height l) ?h, rnd := rnd l, nodes := ns'\<rparr>) (as @ n # bs)"
    by blast
  obtain nd where nd: "nodes l n = Some nd"
    using n(1) by (auto simp: node_ok_def)
  have "InsertNode cmp n l = Some (l\<lparr>max_height := max (max_height l) ?h, nodes := ns'\<rparr>)"
    using ns'(1) nd FindGreaterOrEqual_correct [OF repr lt ge]
    by (cases "max_height l < ?h") (auto simp: InsertNode_def max_def Let_def)
  with ns' show ?thesis
    by simp
qed

lemma iter_Seek_correct:
  assumes "skip_repr l (as @ bs)"
    and "\<forall>a \<in> set as. before cmp (nodes l) key a" "\<forall>b \<in> set bs. \<not> before cmp (nodes l) key b"
  shows "iter_Seek cmp l key = Some (hd0 bs)"
  by (simp add: iter_Seek_def FindGreaterOrEqual_correct [OF assms])

lemma skip_repr_chain:
  "skip_repr l xs \<Longrightarrow> i < kMaxHeight \<Longrightarrow> chain (nodes l) i (head l # level_list (nodes l) i xs)"
  by (simp add: skip_repr_def)

lemma skip_repr_chain0: "skip_repr l xs \<Longrightarrow> chain (nodes l) 0 (head l # xs)"
  using level_list_0 [of xs "nodes l"] unfolding skip_repr_def
  by (metis kMaxHeight_def zero_less_numeral)

lemma iter_SeekToFirst_correct: "skip_repr l xs \<Longrightarrow> iter_SeekToFirst l = Some (hd0 xs)"
  using skip_repr_chain0 [of l xs] by (simp add: iter_SeekToFirst_def chain_Cons)

lemma iter_Next_correct: "skip_repr l (as @ a # bs) \<Longrightarrow> iter_Next l a = Some (hd0 bs)"
  using chain_suffix [of "nodes l" 0 "head l # as" "a # bs"] skip_repr_chain0 [of l "as @ a # bs"]
  by (simp add: iter_Next_def chain_Cons)

lemma FindLast_loop_correct:
  assumes repr: "skip_repr l xs" and x: "x \<in> set (head l # level_list (nodes l) j xs)" and j: "j < kMaxHeight"
  shows "FindLast_loop (nodes l) x j = Some (last (head l # xs))"
  using x j
proof (induction j arbitrary: x)
  case 0
  obtain ps ys where split: "head l # level_list (nodes l) 0 xs = ps @ x # ys" "set ys \<subseteq> set xs"
    using "0.prems"(1) head_or_level by blast
  then have "chain (nodes l) 0 (x # ys)"
    using skip_repr_chain [OF repr "0.prems"(2)] chain_suffix [of "nodes l" 0 ps] by simp
  moreover have "last (x # ys) = last (head l # xs)"
    using split(1) level_list_0 [of xs "nodes l"] repr unfolding skip_repr_def
    by (metis last_appendR list.discI)
  moreover have "0 \<notin> set ys"
    using split(2) repr by (auto simp: skip_repr_def node_ok_def)
  ultimately show ?case
    by (simp only: FindLast_walk simp_thms if_True)
next
  case (Suc j)
  obtain ps ys where split: "head l # level_list (nodes l) (Suc j) xs = ps @ x # ys" "set ys \<subseteq> set xs"
    using Suc.prems(1) head_or_level by blast
  then have "chain (nodes l) (Suc j) (x # ys)"
    using skip_repr_chain [OF repr Suc.prems(2)] chain_suffix [of "nodes l" "Suc j" ps] by simp
  moreover have "last (x # ys) \<in> set (head l # level_list (nodes l) (Suc j) xs)"
    unfolding split(1) by (metis Un_iff last_in_set list.discI set_append)
  then have "last (x # ys) \<in> set (head l # level_list (nodes l) j xs)"
    by (auto simp: set_level_list)
  moreover have "0 \<notin> set ys"
    using split(2) repr by (auto simp: skip_repr_def node_ok_def)
  ultimately show ?case
    using Suc.IH [of "last (x # ys)"] Suc.prems(2) FindLast_walk [of "nodes l" "Suc j" x ys] by simp
qed

lemma iter_SeekToLast_correct:
  assumes "skip_repr l xs"
  shows "iter_SeekToLast l = Some (if xs = [] then 0 else last xs)"
proof -
  have "FindLast l = Some (last (head l # xs))"
    unfolding FindLast_def using assms by (intro FindLast_loop_correct) (auto simp: skip_repr_def)
  moreover have "xs \<noteq> [] \<Longrightarrow> last xs \<noteq> head l"
    using assms last_in_set [of xs] unfolding skip_repr_def by (metis distinct.simps(2))
  ultimately show ?thesis
    by (simp add: iter_SeekToLast_def)
qed

lemma new_SkipList_repr:
  assumes "mem \<noteq> 0"
  shows "skip_repr (new_SkipList mem) []"
  using assms by (auto simp: skip_repr_def new_SkipList_def NewNode_def node_ok_def level_list_def
      node_Next_def kMaxHeight_def)

section \<open>The ordered list of keys\<close>

text \<open>What the list needs of its comparison: on the pointers it is given, a linear
  preorder (two pointers may hold equal keys).\<close>

locale key_ptrs =
  fixes good :: "ptr \<Rightarrow> bool" and cmp :: "ptr \<Rightarrow> ptr \<Rightarrow> int"
  assumes ptr_sign: "good a \<Longrightarrow> good b \<Longrightarrow> cmp a b < 0 \<longleftrightarrow> 0 < cmp b a"
    and ptr_trans: "good a \<Longrightarrow> good b \<Longrightarrow> good c \<Longrightarrow> cmp a b \<le> 0 \<Longrightarrow> cmp b c \<le> 0 \<Longrightarrow> cmp a c \<le> 0"

definition key_at :: "SkipList \<Rightarrow> ptr \<Rightarrow> ptr" where
  "key_at l a = key_offset (the (nodes l a))"

definition skip_inv :: "(ptr \<Rightarrow> bool) \<Rightarrow> (ptr \<Rightarrow> ptr \<Rightarrow> int) \<Rightarrow> SkipList \<Rightarrow> ptr list \<Rightarrow> bool" where
  "skip_inv good cmp l xs \<longleftrightarrow> skip_repr l xs \<and> (\<forall>a \<in> set xs. good (key_at l a)) \<and>
     sorted_wrt (\<lambda>a b. cmp a b \<le> 0) (map (key_at l) xs)"

text \<open>The abstract value of a list is the sequence of its keys.\<close>

definition skip_holds :: "(ptr \<Rightarrow> bool) \<Rightarrow> (ptr \<Rightarrow> ptr \<Rightarrow> int) \<Rightarrow> SkipList \<Rightarrow> ptr list \<Rightarrow> bool" where
  "skip_holds good cmp l ks \<longleftrightarrow> (\<exists>xs. skip_inv good cmp l xs \<and> ks = map (key_at l) xs)"

definition kinsert :: "(ptr \<Rightarrow> ptr \<Rightarrow> int) \<Rightarrow> ptr \<Rightarrow> ptr list \<Rightarrow> ptr list" where
  "kinsert cmp k ks = takeWhile (\<lambda>k'. cmp k' k < 0) ks @ k # dropWhile (\<lambda>k'. cmp k' k < 0) ks"

lemma skip_holds_sorted: "skip_holds good cmp l ks \<Longrightarrow> sorted_wrt (\<lambda>a b. cmp a b \<le> 0) ks"
  by (auto simp: skip_holds_def skip_inv_def)

lemma before_key_at: "before cmp (nodes l) k = (\<lambda>k'. cmp k' k < 0) \<circ> key_at l"
  by (auto simp: before_def key_at_def)

lemma shape_dom:
  assumes "\<And>c. c \<noteq> n \<Longrightarrow> shape (nodes l') c = shape (nodes l) c" "nodes l' n \<noteq> None"
  shows "dom (nodes l') = insert n (dom (nodes l))"
proof (rule set_eqI)
  fix c
  show "c \<in> dom (nodes l') \<longleftrightarrow> c \<in> insert n (dom (nodes l))"
    using assms(1) [of c] assms(2) by (cases "c = n"; cases "nodes l c") (auto simp: shape_def dom_def)
qed

lemma skip_repr_node: "skip_repr l xs \<Longrightarrow> a \<in> set xs \<Longrightarrow> nodes l a \<noteq> None"
  by (auto simp: skip_repr_def node_ok_def)

lemma skip_repr_cong:
  assumes "skip_repr l xs" "head l' = head l" "max_height l' = max_height l"
    and same: "\<forall>a \<in> set (head l # xs). nodes l' a = nodes l a"
  shows "skip_repr l' xs"
proof -
  have lv: "level_list (nodes l') i xs = level_list (nodes l) i xs" for i
    using same by (auto simp: level_list_def intro!: filter_cong)
  have "chain (nodes l') i (head l # level_list (nodes l) i xs)" if "i < kMaxHeight" for i
  proof (rule chain_cong [THEN iffD1])
    show "chain (nodes l) i (head l # level_list (nodes l) i xs)"
      using assms(1) that by (simp add: skip_repr_def)
    show "node_Next (nodes l) a i = node_Next (nodes l') a i" if "a \<in> set (head l # level_list (nodes l) i xs)" for a
      using that same by (intro node_Next_cong) (auto simp: set_level_list)
  qed
  with assms lv show ?thesis
    by (simp add: skip_repr_def node_ok_def)
qed

context key_ptrs
begin

lemma split_at_key:
  assumes "skip_inv good cmp l xs" "good k"
  shows "\<forall>a \<in> set (takeWhile (before cmp (nodes l) k) xs). before cmp (nodes l) k a"
    and "\<forall>b \<in> set (dropWhile (before cmp (nodes l) k) xs). \<not> before cmp (nodes l) k b"
proof -
  show "\<forall>a \<in> set (takeWhile (before cmp (nodes l) k) xs). before cmp (nodes l) k a"
    by (auto dest: set_takeWhileD)
  have "sorted_wrt (\<lambda>a b. cmp (key_at l a) (key_at l b) \<le> 0) xs" "\<forall>a \<in> set xs. good (key_at l a)"
    using assms(1) by (simp_all add: skip_inv_def sorted_wrt_map)
  then show "\<forall>b \<in> set (dropWhile (before cmp (nodes l) k) xs). \<not> before cmp (nodes l) k b"
  proof (induction xs)
    case (Cons a xs)
    show ?case
    proof (cases "before cmp (nodes l) k a")
      case False
      then have "cmp k (key_at l a) \<le> 0"
        using Cons.prems(2) assms(2) ptr_sign [of "key_at l a" k] by (simp add: before_def key_at_def)
      then have "\<not> before cmp (nodes l) k b" if "b \<in> set xs" for b
        using that Cons.prems assms(2) ptr_trans [of k "key_at l a" "key_at l b"] ptr_sign [of "key_at l b" k]
        by (auto simp: before_def key_at_def)
      with False show ?thesis
        by simp
    qed (use Cons in simp)
  qed simp
qed

lemma sorted_kinsert:
  assumes "sorted_wrt (\<lambda>a b. cmp a b \<le> 0) ks" "\<forall>x \<in> set ks. good x" "good k"
  shows "sorted_wrt (\<lambda>a b. cmp a b \<le> 0) (kinsert cmp k ks)"
  using assms(1,2)
proof (induction ks)
  case (Cons a ks)
  then have a: "good a" "\<forall>x \<in> set ks. good x \<and> cmp a x \<le> 0"
    by auto
  show ?case
  proof (cases "cmp a k < 0")
    case True
    with Cons a show ?thesis
      by (auto simp: kinsert_def dest: set_takeWhileD set_dropWhileD)
  next
    case False
    then have "cmp k a \<le> 0"
      using ptr_sign [of a k] a assms(3) by auto
    with False Cons.prems a assms(3) show ?thesis
      by (auto simp: kinsert_def intro: ptr_trans [of k a])
  qed
qed (simp add: kinsert_def)

text \<open>A node linked in at the place of its key.\<close>

lemma splice_holds:
  assumes xs: "skip_inv good cmp l xs" "ks = map (key_at l) xs" and k: "good k" and n: "n \<notin> set xs"
    and l': "skip_repr l' (takeWhile (before cmp (nodes l) k) xs @ n # dropWhile (before cmp (nodes l) k) xs)"
      "key_at l' n = k" "\<And>c. c \<noteq> n \<Longrightarrow> shape (nodes l') c = shape (nodes l) c"
  shows "skip_holds good cmp l' (kinsert cmp k ks)"
proof -
  let ?as = "takeWhile (before cmp (nodes l) k) xs" and ?bs = "dropWhile (before cmp (nodes l) k) xs"
  have key: "key_at l' c = key_at l c" if "c \<in> set xs" for c
    using shape_key [OF l'(3), of c] that n by (auto simp: key_at_def)
  have ks: "map (key_at l') (?as @ n # ?bs) = kinsert cmp k ks"
    using key by (auto simp: xs(2) kinsert_def l'(2) before_key_at takeWhile_map dropWhile_map
        dest: set_takeWhileD set_dropWhileD)
  have "skip_inv good cmp l' (?as @ n # ?bs)"
    using l'(1) sorted_kinsert [of ks k] xs k key l'(2) unfolding skip_inv_def ks
    by (auto dest: set_takeWhileD set_dropWhileD)
  with ks show ?thesis
    unfolding skip_holds_def by metis
qed

lemma insert_holds:
  assumes "skip_holds good cmp l ks" "good k" "mem \<noteq> 0" "nodes l mem = None"
  shows "\<exists>l'. Insert cmp mem k l = Some l' \<and> skip_holds good cmp l' (kinsert cmp k ks) \<and>
    head l' = head l \<and> dom (nodes l') = insert mem (dom (nodes l))"
proof -
  obtain xs where xs: "skip_inv good cmp l xs" "ks = map (key_at l) xs"
    using assms(1) by (auto simp: skip_holds_def)
  let ?as = "takeWhile (before cmp (nodes l) k) xs" and ?bs = "dropWhile (before cmp (nodes l) k) xs"
  have repr: "skip_repr l (?as @ ?bs)"
    using xs(1) by (simp add: skip_inv_def)
  obtain l' where l': "Insert cmp mem k l = Some l'" "skip_repr l' (?as @ mem # ?bs)" "key_at l' mem = k"
    "head l' = head l" "\<And>c. c \<noteq> mem \<Longrightarrow> shape (nodes l') c = shape (nodes l) c"
    using Insert_correct [OF repr split_at_key [OF xs(1) assms(2)] assms(3,4)] unfolding key_at_def by blast
  have "mem \<notin> set xs"
    using xs(1) assms(4) unfolding skip_inv_def skip_repr_def node_ok_def
    by (metis list.set_intros(2) option.distinct(1))
  with l' show ?thesis
    using splice_holds [OF xs assms(2) _ l'(2,3,5)] shape_dom [of mem l' l] skip_repr_node [OF l'(2), of mem] by auto
qed

text \<open>The new node is the first whose key is not smaller, and the answer of \<^verbatim>\<open>Contains\<close>
  rests on the pointer difference alone.\<close>

lemma contains_inserted:
  assumes "skip_holds good cmp l ks" "good k" "mem \<noteq> 0" "nodes l mem = None"
  shows "\<exists>l'. Insert cmp mem k l = Some l' \<and> skip_holds good cmp l' (kinsert cmp k ks) \<and>
    Contains cmp l' k = Some (cmp k (mem - k) = 0)"
proof -
  obtain xs where xs: "skip_inv good cmp l xs" "ks = map (key_at l) xs"
    using assms(1) by (auto simp: skip_holds_def)
  let ?as = "takeWhile (before cmp (nodes l) k) xs" and ?bs = "dropWhile (before cmp (nodes l) k) xs"
  have repr: "skip_repr l (?as @ ?bs)"
    using xs(1) by (simp add: skip_inv_def)
  note split = split_at_key [OF xs(1) assms(2)]
  obtain l' where l': "Insert cmp mem k l = Some l'" "skip_repr l' (?as @ mem # ?bs)" "key_at l' mem = k"
    "\<And>c. c \<noteq> mem \<Longrightarrow> shape (nodes l') c = shape (nodes l) c"
    using Insert_correct [OF repr split assms(3,4)] unfolding key_at_def by blast
  have fresh: "mem \<notin> set xs"
    using xs(1) assms(4) unfolding skip_inv_def skip_repr_def node_ok_def
    by (metis list.set_intros(2) option.distinct(1))
  then have same: "before cmp (nodes l') k c = before cmp (nodes l) k c" if "c \<in> set xs" for c
    using shape_key [OF l'(4), of c] that by (cases "c = mem") (auto simp: before_def)
  have self: "\<not> before cmp (nodes l') k mem"
    using l'(3) ptr_sign [OF assms(2) assms(2)] by (auto simp: before_def key_at_def)
  have "\<forall>a \<in> set ?as. before cmp (nodes l') k a" "\<forall>b \<in> set (mem # ?bs). \<not> before cmp (nodes l') k b"
    using split self same by (auto dest: set_takeWhileD set_dropWhileD)
  from FindGreaterOrEqual_correct [OF l'(2) this] have "Contains cmp l' k = Some (cmp k (mem - k) = 0)"
    using assms(3) skip_repr_node [OF l'(2), of mem] l'(3) by (auto simp: Contains_def key_at_def)
  with l'(1) insert_holds [OF assms] show ?thesis
    by auto
qed

lemma insert_node_holds:
  assumes "skip_holds good cmp l ks" "good (key_offset nd)" "n \<noteq> 0" "nodes l n = None"
    and nd: "length (links nd) = height nd" "1 \<le> height nd" "height nd \<le> kMaxHeight"
  shows "\<exists>l'. InsertNode cmp n (l\<lparr>nodes := (nodes l)(n \<mapsto> nd)\<rparr>) = Some l' \<and>
    skip_holds good cmp l' (kinsert cmp (key_offset nd) ks) \<and>
    head l' = head l \<and> dom (nodes l') = insert n (dom (nodes l))"
proof -
  obtain xs where xs: "skip_inv good cmp l xs" "ks = map (key_at l) xs"
    using assms(1) by (auto simp: skip_holds_def)
  let ?l = "l\<lparr>nodes := (nodes l)(n \<mapsto> nd)\<rparr>" and ?k = "key_offset nd"
  let ?as = "takeWhile (before cmp (nodes l) ?k) xs" and ?bs = "dropWhile (before cmp (nodes l) ?k) xs"
  have fresh: "n \<notin> set (head l # xs)"
    using xs(1) assms(4) unfolding skip_inv_def skip_repr_def node_ok_def by (metis option.distinct(1))
  then have same: "before cmp (nodes ?l) ?k c = before cmp (nodes l) ?k c" if "c \<in> set xs" for c
    using that by (auto simp: before_def)
  have repr: "skip_repr ?l (?as @ ?bs)"
    using skip_repr_cong [of l xs ?l] xs(1) fresh by (auto simp: skip_inv_def)
  have "node_ok (nodes ?l) n" "n \<notin> set (head ?l # ?as @ ?bs)"
    using assms(3) nd(1) fresh by (simp_all add: node_ok_def)
  moreover have "\<forall>a \<in> set ?as. before cmp (nodes ?l) ?k a" "\<forall>b \<in> set ?bs. \<not> before cmp (nodes ?l) ?k b"
    using split_at_key [OF xs(1) assms(2)] same by (auto dest: set_takeWhileD set_dropWhileD)
  ultimately obtain l' where l': "InsertNode cmp n ?l = Some l'" "skip_repr l' (?as @ n # ?bs)" "head l' = head l"
    "shape (nodes l') = shape (nodes ?l)"
    using InsertNode_correct [OF repr, of n cmp] nd by auto
  have key: "key_at l' n = ?k"
    using shape_key [of "nodes l'" n "nodes ?l"] l'(4) by (simp add: key_at_def)
  have shape: "shape (nodes l') c = shape (nodes l) c" if "c \<noteq> n" for c
    using l'(4) that by (simp add: shape_def fun_eq_iff)
  with l' key fresh show ?thesis
    using splice_holds [OF xs assms(2) _ l'(2) key shape] shape_dom [of n l' l] skip_repr_node [OF l'(2), of n] by auto
qed

lemma seek_holds:
  assumes "skip_holds good cmp l ks" "good k"
  shows "\<exists>n. iter_Seek cmp l k = Some n \<and>
    (case dropWhile (\<lambda>k'. cmp k' k < 0) ks of
       [] \<Rightarrow> \<not> iter_Valid n | k' # _ \<Rightarrow> iter_Valid n \<and> iter_key_offset l n = Some k')"
proof -
  obtain xs where xs: "skip_inv good cmp l xs" "ks = map (key_at l) xs"
    using assms(1) by (auto simp: skip_holds_def)
  let ?as = "takeWhile (before cmp (nodes l) k) xs" and ?bs = "dropWhile (before cmp (nodes l) k) xs"
  have repr: "skip_repr l (?as @ ?bs)"
    using xs(1) by (simp add: skip_inv_def)
  have ks: "dropWhile (\<lambda>k'. cmp k' k < 0) ks = map (key_at l) ?bs"
    by (simp add: xs(2) dropWhile_map before_key_at)
  have ok: "\<forall>b \<in> set ?bs. node_ok (nodes l) b"
    using xs(1) by (auto simp: skip_inv_def skip_repr_def dest: set_dropWhileD)
  have seek: "iter_Seek cmp l k = Some (hd0 ?bs)"
    by (rule iter_Seek_correct [OF repr split_at_key [OF xs(1) assms(2)]])
  define bs where "bs = ?bs"
  show ?thesis
    using ok unfolding ks seek bs_def [symmetric]
    by (cases bs) (auto simp: iter_Valid_def iter_key_offset_def node_ok_def key_at_def)
qed

end

section \<open>Properties\<close>

text \<open>(C11) Insertion keeps the list sorted and complete: on a list that represents a
  sorted sequence of keys, \<^verbatim>\<open>Insert\<close> of a key at a fresh address returns, and the
  list then represents the old keys with the new one after all smaller keys and
  before all others, through every level of links; a search from the head finds
  the first key that is not smaller than its target.\<close>

theorem skiplist_insert_seek:
  assumes "key_ptrs good cmp" "skip_holds good cmp l ks" "good k" "mem \<noteq> 0" "nodes l mem = None"
  shows "(\<exists>l'. Insert cmp mem k l = Some l' \<and> skip_holds good cmp l' (kinsert cmp k ks) \<and>
        sorted_wrt (\<lambda>a b. cmp a b \<le> 0) (kinsert cmp k ks)) \<and>
    (\<exists>n. iter_Seek cmp l k = Some n \<and>
       (case dropWhile (\<lambda>k'. cmp k' k < 0) ks of
          [] \<Rightarrow> \<not> iter_Valid n | k' # _ \<Rightarrow> iter_Valid n \<and> iter_key_offset l n = Some k'))"
proof (intro conjI)
  show "\<exists>l'. Insert cmp mem k l = Some l' \<and> skip_holds good cmp l' (kinsert cmp k ks) \<and>
      sorted_wrt (\<lambda>a b. cmp a b \<le> 0) (kinsert cmp k ks)"
    using key_ptrs.insert_holds [OF assms] skip_holds_sorted by blast
  show "\<exists>n. iter_Seek cmp l k = Some n \<and>
       (case dropWhile (\<lambda>k'. cmp k' k < 0) ks of
          [] \<Rightarrow> \<not> iter_Valid n | k' # _ \<Rightarrow> iter_Valid n \<and> iter_key_offset l n = Some k')"
    by (rule key_ptrs.seek_holds [OF assms(1-3)])
qed

theorem skiplist_insert_seek_witness:
  "\<exists>l'. Insert (\<lambda>a b. a - b) 1000 7 (new_SkipList 500) = Some l' \<and>
     skip_holds (\<lambda>_. True) (\<lambda>a b. a - b) l' [7]"
proof -
  have "skip_holds (\<lambda>_. True) (\<lambda>a b. a - b) (new_SkipList 500) []"
    by (auto simp: skip_holds_def skip_inv_def intro!: new_SkipList_repr)
  moreover have "key_ptrs (\<lambda>_. True) (\<lambda>a b. a - b)"
    by unfold_locales auto
  moreover have "nodes (new_SkipList 500) 1000 = None"
    by (simp add: new_SkipList_def NewNode_def)
  ultimately show ?thesis
    using skiplist_insert_seek [of "\<lambda>_. True" "\<lambda>a b. a - b" "new_SkipList 500" "[]" 7 1000]
    by (auto simp: kinsert_def)
qed

text \<open>(C20) Moving a node: \<^verbatim>\<open>InsertNode\<close> of a stored node that is not in the list
  relinks it, with its key and height unchanged, after all keys smaller than its
  own and before all others, equal ones included.\<close>

theorem skiplist_insert_node:
  assumes "skip_repr l (as @ bs)" "node_ok (nodes l) n" "n \<notin> set (head l # as @ bs)"
    and "1 \<le> height (the (nodes l n))" "height (the (nodes l n)) \<le> kMaxHeight"
    and "\<forall>a \<in> set as. cmp (key_at l a) (key_at l n) < 0" "\<forall>b \<in> set bs. \<not> cmp (key_at l b) (key_at l n) < 0"
  shows "\<exists>l'. InsertNode cmp n l = Some l' \<and> skip_repr l' (as @ n # bs) \<and> head l' = head l \<and>
    shape (nodes l') = shape (nodes l)"
  using InsertNode_correct [OF assms(1-5), of cmp] assms(6,7) by (simp add: before_def key_at_def)

theorem skiplist_insert_node_witness:
  "\<exists>l'. InsertNode (\<lambda>a b. a - b) 900
      ((new_SkipList 500)\<lparr>nodes := NewNode (nodes (new_SkipList 500)) 900 7 3\<rparr>) = Some l' \<and>
    skip_repr l' [900]"
proof -
  let ?l = "(new_SkipList 500)\<lparr>nodes := NewNode (nodes (new_SkipList 500)) 900 7 3\<rparr>"
  have "skip_repr ?l []"
    by (auto simp: skip_repr_def new_SkipList_def NewNode_def node_ok_def level_list_def
      node_Next_def kMaxHeight_def)
  then show ?thesis
    using skiplist_insert_node [of ?l "[]" "[]" 900 "\<lambda>a b. a - b"]
    by (auto simp: new_SkipList_def NewNode_def node_ok_def kMaxHeight_def)
qed

text \<open>(C22) The compiled \<^verbatim>\<open>Contains\<close> does not implement membership: after any key has been
  inserted into any well-formed list, \<^verbatim>\<open>Contains\<close> of that key always returns, but what
  it compares the key with is the difference between the address of the new node
  and the key pointer.  When that address does not compare equal to the key, it
  answers false for a key the list holds.\<close>

theorem contains_misses_inserted_key:
  assumes "key_ptrs good cmp" "skip_holds good cmp l ks" "good k" "mem \<noteq> 0" "nodes l mem = None"
  shows "\<exists>l'. Insert cmp mem k l = Some l' \<and> skip_holds good cmp l' (kinsert cmp k ks) \<and>
    Contains cmp l' k = Some (cmp k (mem - k) = 0)"
  using key_ptrs.contains_inserted [OF assms] by blast

theorem contains_misses_inserted_key_witness:
  "\<exists>l'. Insert (\<lambda>a b. a - b) 1000 7 (new_SkipList 500) = Some l' \<and>
    skip_holds (\<lambda>_. True) (\<lambda>a b. a - b) l' [7] \<and> Contains (\<lambda>a b. a - b) l' 7 = Some False"
proof -
  have "key_ptrs (\<lambda>_. True) (\<lambda>a b :: ptr. a - b)"
    by unfold_locales auto
  moreover have "skip_holds (\<lambda>_. True) (\<lambda>a b. a - b) (new_SkipList 500) []"
    by (auto simp: skip_holds_def skip_inv_def intro!: new_SkipList_repr)
  ultimately show ?thesis
    using contains_misses_inserted_key [of "\<lambda>_. True" "\<lambda>a b. a - b" "new_SkipList 500" "[]" 7 1000]
    by (auto simp: new_SkipList_def NewNode_def kinsert_def)
qed

end
