(* ===== verification/Arena.thy ===== *)
theory Arena
  imports SkipList
begin

text \<open>
  The arenas of \<^verbatim>\<open>util/arena.h\<close> and \<^verbatim>\<open>util/arena.cc\<close>: the heap arena that hands out
  4096-byte blocks, and the arena that divides one memory map into
  sub-memtables of \<^verbatim>\<open>SUB_MEM_SIZE\<close> bytes, each filled by the core that claimed it.
  Addresses are integers with 0 as the null pointer, byte counts are 64-bit words
  and wrap around.  The address of a fresh heap block, the core a thread runs on
  and the outcome of mapping a file are arguments: they come from the allocator
  and the operating system.  A store outside one of the arrays is \<open>None\<close>.
\<close>

unbundle bit_operations_syntax

section \<open>Definitions\<close>

definition SUB_MEM_SIZE :: nat where "SUB_MEM_SIZE = 2097152"
definition SKIPLIST_ALLOC_SIZE :: uint64 where "SKIPLIST_ALLOC_SIZE = 2097152"
definition kBlockSize :: uint64 where "kBlockSize = 4096"

record Arena =
  map_start :: ptr
  nvmarena :: bool
  kSize :: uint64
  allocation :: bool
  alloc_ptr :: ptr
  alloc_bytes_remaining :: uint64
  isDataLock :: bool
  percore_alloc_ptr :: "ptr list"
  percore_alloc_bytes_remaining :: "uint64 list"
  sub_mem_bset :: "bool list"
  sub_mem_count :: nat
  sub_immem_bset :: "bool list"
  sub_immem_count :: uint64
  in_trans_bset :: "bool list"
  skiplist_blocks :: "ptr list list"
  skiplist_alloc_ptr :: "ptr list"
  skiplist_alloc_bytes_remaining :: "uint64 list"
  blocks :: "ptr list"
  memory_usage :: uint64

text \<open>The constructor of the heap arena leaves the sub-memtable fields unset; here
  they are empty.\<close>

definition new_Arena :: Arena where
  "new_Arena =
     \<lparr> map_start = 0, nvmarena = False, kSize = kBlockSize, allocation = False,
       alloc_ptr = 0, alloc_bytes_remaining = 0, isDataLock = False,
       percore_alloc_ptr = [], percore_alloc_bytes_remaining = [],
       sub_mem_bset = [], sub_mem_count = 0, sub_immem_bset = [], sub_immem_count = 0,
       in_trans_bset = [], skiplist_blocks = [], skiplist_alloc_ptr = [],
       skiplist_alloc_bytes_remaining = [], blocks = [], memory_usage = 0 \<rparr>"

definition CalculateOffset :: "Arena \<Rightarrow> ptr \<Rightarrow> ptr" where
  "CalculateOffset a p = p - map_start a"

text \<open>\<open>new\<close> is the address that \<^verbatim>\<open>new char[block_bytes]\<close> returns.\<close>

definition AllocateNewBlock :: "ptr \<Rightarrow> uint64 \<Rightarrow> Arena \<Rightarrow> ptr \<times> Arena" where
  "AllocateNewBlock new block_bytes a =
     (new, a\<lparr>memory_usage := memory_usage a + block_bytes + 8\<rparr>)"

definition AllocateFallback :: "ptr \<Rightarrow> uint64 \<Rightarrow> Arena \<Rightarrow> ptr \<times> Arena" where
  "AllocateFallback new bytes a =
     (let (result, a) = AllocateNewBlock new kBlockSize a in
      (result, a\<lparr>alloc_ptr := result + uint bytes, alloc_bytes_remaining := kBlockSize - bytes\<rparr>))"

definition Allocate :: "ptr \<Rightarrow> uint64 \<Rightarrow> Arena \<Rightarrow> ptr \<times> Arena" where
  "Allocate new bytes a =
     (if bytes \<le> alloc_bytes_remaining a
      then (alloc_ptr a,
            a\<lparr>alloc_ptr := alloc_ptr a + uint bytes,
              alloc_bytes_remaining := alloc_bytes_remaining a - bytes\<rparr>)
      else AllocateFallback new bytes a)"

text \<open>The padding that aligns a pointer to 8 bytes.\<close>

definition slop_of :: "ptr \<Rightarrow> uint64" where
  "slop_of p = (let current_mod = p mod 8 in if current_mod = 0 then 0 else word_of_int (8 - current_mod))"

definition AllocateAligned :: "ptr \<Rightarrow> uint64 \<Rightarrow> Arena \<Rightarrow> ptr \<times> Arena" where
  "AllocateAligned new bytes a =
     (let slop = slop_of (alloc_ptr a); needed = bytes + slop in
      if needed \<le> alloc_bytes_remaining a
      then (alloc_ptr a + uint slop,
            a\<lparr>alloc_ptr := alloc_ptr a + uint needed,
              alloc_bytes_remaining := alloc_bytes_remaining a - needed\<rparr>)
      else AllocateFallback new bytes a)"

definition AllocateFallback_submemIndex :: "ptr \<Rightarrow> uint64 \<Rightarrow> nat \<Rightarrow> Arena \<Rightarrow> ptr \<times> Arena" where
  "AllocateFallback_submemIndex new bytes i a =
     (let (result, a) = AllocateNewBlock new SKIPLIST_ALLOC_SIZE a in
      (result,
       a\<lparr>skiplist_alloc_ptr := (skiplist_alloc_ptr a)[i := result + uint bytes],
         skiplist_alloc_bytes_remaining :=
           (skiplist_alloc_bytes_remaining a)[i := SKIPLIST_ALLOC_SIZE - bytes]\<rparr>))"

text \<open>The padding is computed from \<^verbatim>\<open>alloc_ptr_\<close>, as the code has it.\<close>

definition AllocateAligned_submemIndex :: "ptr \<Rightarrow> uint64 \<Rightarrow> nat \<Rightarrow> Arena \<Rightarrow> (ptr \<times> Arena) option" where
  "AllocateAligned_submemIndex new bytes i a =
     (if i < sub_mem_count a then
        let slop = slop_of (alloc_ptr a); needed = bytes + slop in
        if needed \<le> skiplist_alloc_bytes_remaining a ! i
        then Some (skiplist_alloc_ptr a ! i + uint slop,
              a\<lparr>skiplist_alloc_ptr := (skiplist_alloc_ptr a)[i := skiplist_alloc_ptr a ! i + uint needed],
                skiplist_alloc_bytes_remaining :=
                  (skiplist_alloc_bytes_remaining a)[i := skiplist_alloc_bytes_remaining a ! i - needed]\<rparr>)
        else
          let (result, a) = AllocateFallback_submemIndex new bytes i a in
          Some (result, a\<lparr>skiplist_blocks := (skiplist_blocks a)[i := skiplist_blocks a ! i @ [result]]\<rparr>)
      else None)"

text \<open>\<^verbatim>\<open>AllocateNVMBlock\<close>: \<open>os\<close> opens, truncates and maps the file; 0 is the null
  pointer it returns when one of the first two steps fails.  The code does not
  test the result of \<^verbatim>\<open>mmap\<close>: \<^verbatim>\<open>MAP_FAILED\<close>, the address -1, is one of the values of \<open>os\<close>
  and is used as the start of the map like any other address but 0.\<close>

definition AllocateNVMBlock :: "(uint64 \<Rightarrow> ptr) \<Rightarrow> uint64 \<Rightarrow> Arena \<Rightarrow> ptr \<times> Arena" where
  "AllocateNVMBlock os block_bytes a =
     (let result = os block_bytes in
      if result = 0 then (0, a)
      else (result, a\<lparr>allocation := True, blocks := blocks a @ [result]\<rparr>))"

definition AllocateFallbackNVM :: "(uint64 \<Rightarrow> ptr) \<Rightarrow> uint64 \<Rightarrow> Arena \<Rightarrow> ptr \<times> Arena" where
  "AllocateFallbackNVM os bytes a =
     (let (tmp_ptr, a) =
        (if isDataLock a then AllocateNVMBlock os (kSize a) a
         else AllocateNVMBlock os (word_of_nat SUB_MEM_SIZE) a)
      in (tmp_ptr, a\<lparr>map_start := tmp_ptr, memory_usage := memory_usage a + bytes + 8\<rparr>))"

text \<open>The constructor: \<open>sz\<close> is the size of the pool, \<open>cores\<close> the number of cores
  online; in recovery the map exists and its first word is the room left.
  \<^verbatim>\<open>kSize\<close> is one and a half times the size.\<close>

definition new_ArenaNVM :: "nat \<Rightarrow> nat \<Rightarrow> Arena" where
  "new_ArenaNVM sz cores =
     \<lparr> map_start = 0, nvmarena = True, kSize = word_of_nat (sz * 3 div 2), allocation = False,
       alloc_ptr = 0, alloc_bytes_remaining = 0, isDataLock = False,
       percore_alloc_ptr = replicate cores 0, percore_alloc_bytes_remaining = replicate cores 0,
       sub_mem_bset = replicate (sz div SUB_MEM_SIZE) False, sub_mem_count = sz div SUB_MEM_SIZE,
       sub_immem_bset = replicate (sz div SUB_MEM_SIZE) False, sub_immem_count = 0,
       in_trans_bset = replicate (sz div SUB_MEM_SIZE) False,
       skiplist_blocks = replicate (sz div SUB_MEM_SIZE) [],
       skiplist_alloc_ptr = replicate (sz div SUB_MEM_SIZE) 0,
       skiplist_alloc_bytes_remaining = replicate (sz div SUB_MEM_SIZE) 0,
       blocks = [], memory_usage = 0 \<rparr>"

definition recover_ArenaNVM :: "(uint64 \<Rightarrow> ptr) \<Rightarrow> uint64 \<Rightarrow> nat \<Rightarrow> nat \<Rightarrow> Arena" where
  "recover_ArenaNVM os remaining sz cores =
     (let a = new_ArenaNVM sz cores; (start, a) = AllocateNVMBlock os (word_of_nat sz) a in
      a\<lparr>map_start := start, alloc_bytes_remaining := remaining,
        alloc_ptr := start + uint (kSize a - remaining),
        memory_usage := kSize a - remaining, allocation := True\<rparr>)"

text \<open>The scan for the first free sub-memtable, which claims it.\<close>

fun first_free :: "nat \<Rightarrow> bool list \<Rightarrow> nat" where
  "first_free i [] = i"
| "first_free i (b # bs) = (if \<not> b then i else first_free (Suc i) bs)"

definition alloc_sub_mem :: "nat \<Rightarrow> Arena \<Rightarrow> int \<times> Arena" where
  "alloc_sub_mem cpu a =
     (let i = first_free 0 (sub_mem_bset a) in
      if i = sub_mem_count a then (- 1, a)
      else (int i,
            a\<lparr>sub_mem_bset := (sub_mem_bset a)[i := True],
              percore_alloc_ptr := (percore_alloc_ptr a)[cpu := map_start a + int (i * SUB_MEM_SIZE)],
              percore_alloc_bytes_remaining :=
                (percore_alloc_bytes_remaining a)[cpu := word_of_nat SUB_MEM_SIZE]\<rparr>))"

text \<open>The index of the sub-memtable an address lies in; C division truncates, and
  addresses are not below the start of the map.\<close>

definition sub_mem_index :: "Arena \<Rightarrow> ptr \<Rightarrow> nat" where
  "sub_mem_index a p = nat ((p - map_start a) div int SUB_MEM_SIZE)"

definition swap_sub_mem :: "nat \<Rightarrow> Arena \<Rightarrow> (int \<times> Arena) option" where
  "swap_sub_mem cpu a =
     (let sub_mem = sub_mem_index a (percore_alloc_ptr a ! cpu) in
      if sub_mem < length (sub_immem_bset a) then
        Some (alloc_sub_mem cpu
          (a\<lparr>sub_immem_bset := (sub_immem_bset a)[sub_mem := True],
             sub_immem_count := sub_immem_count a + 1,
             percore_alloc_ptr := (percore_alloc_ptr a)[cpu := 0],
             percore_alloc_bytes_remaining := (percore_alloc_bytes_remaining a)[cpu := 0]\<rparr>))
      else None)"

text \<open>\<open>cpu\<close> is \<open>None\<close> for the argument -1, which releases everything.\<close>

definition reclaim_sub_mem :: "nat option \<Rightarrow> Arena \<Rightarrow> Arena option" where
  "reclaim_sub_mem cpu a =
     (case cpu of
        None \<Rightarrow>
          Some (a\<lparr>percore_alloc_ptr := map (\<lambda>_. 0) (percore_alloc_ptr a),
                  percore_alloc_bytes_remaining := map (\<lambda>_. 0) (percore_alloc_bytes_remaining a),
                  sub_mem_bset := map (\<lambda>_. False) (sub_mem_bset a)\<rparr>)
      | Some cpu \<Rightarrow>
          if percore_alloc_ptr a ! cpu = 0 then Some a
          else
            let sub_mem = sub_mem_index a (percore_alloc_ptr a ! cpu) in
            if sub_mem < length (sub_mem_bset a) then
              Some (a\<lparr>percore_alloc_ptr := (percore_alloc_ptr a)[cpu := 0],
                      percore_alloc_bytes_remaining := (percore_alloc_bytes_remaining a)[cpu := 0],
                      sub_mem_bset := (sub_mem_bset a)[sub_mem := False]\<rparr>)
            else None)"

definition setSubMemToImm :: "Arena \<Rightarrow> Arena" where
  "setSubMemToImm a =
     a\<lparr>percore_alloc_ptr := map (\<lambda>_. 0) (percore_alloc_ptr a),
       percore_alloc_bytes_remaining := map (\<lambda>_. 0) (percore_alloc_bytes_remaining a),
       sub_immem_bset := map (\<lambda>_. True) (sub_immem_bset a),
       sub_immem_count := sub_immem_count a + word_of_nat (sub_mem_count a)\<rparr>"

text \<open>\<^verbatim>\<open>ArenaNVM::Allocate\<close>; \<open>getcpu\<close> is \<open>None\<close> when the system call fails, and the
  result 0 is the null pointer.\<close>

definition ArenaNVM_Allocate ::
    "(uint64 \<Rightarrow> ptr) \<Rightarrow> nat option \<Rightarrow> uint64 \<Rightarrow> Arena \<Rightarrow> (ptr \<times> Arena) option" where
  "ArenaNVM_Allocate os getcpu bytes a =
     (let (p, a) = (if allocation a then (1, a) else AllocateFallbackNVM os bytes a) in
      if p = 0 then Some (0, a)
      else case getcpu of
        None \<Rightarrow> Some (0, a)
      | Some cpu \<Rightarrow>
          do {
            (r, a) \<leftarrow>
              (if bytes > percore_alloc_bytes_remaining a ! cpu then
                 if percore_alloc_ptr a ! cpu \<noteq> 0 then swap_sub_mem cpu a
                 else Some (alloc_sub_mem cpu a)
               else Some (0, a));
            if r = - 1 then Some (0, a)
            else
              Some (percore_alloc_ptr a ! cpu,
                    a\<lparr>percore_alloc_ptr :=
                        (percore_alloc_ptr a)[cpu := percore_alloc_ptr a ! cpu + uint bytes],
                      percore_alloc_bytes_remaining :=
                        (percore_alloc_bytes_remaining a)[cpu := percore_alloc_bytes_remaining a ! cpu - bytes],
                      memory_usage := memory_usage a + bytes + 8\<rparr>)
          })"

section \<open>Claiming sub-memtables\<close>

lemma first_free_bounds: "i \<le> first_free i bs \<and> first_free i bs \<le> i + length bs"
  by (induction i bs rule: first_free.induct) auto

lemma first_free_spec:
  "first_free i bs < i + length bs \<Longrightarrow> \<not> bs ! (first_free i bs - i)"
  "i \<le> j \<Longrightarrow> j < first_free i bs \<Longrightarrow> bs ! (j - i)"
proof -
  show "first_free i bs < i + length bs \<Longrightarrow> \<not> bs ! (first_free i bs - i)"
  proof (induction i bs rule: first_free.induct)
    case (2 i b bs)
    then show ?case
      using first_free_bounds [of "Suc i" bs] by (auto simp: nth_Cons' Suc_diff_Suc)
  qed simp
  show "i \<le> j \<Longrightarrow> j < first_free i bs \<Longrightarrow> bs ! (j - i)"
  proof (induction i bs rule: first_free.induct)
    case (2 i b bs)
    then show ?case
      by (auto simp: nth_Cons' split: if_splits)
  qed simp
qed

text \<open>\<open>own c\<close> is the sub-memtable core \<open>c\<close> fills.  A core that fills one has a pointer
  to the end of what it has used of it; no two cores share one.\<close>

definition core_ok :: "Arena \<Rightarrow> (nat \<Rightarrow> nat) \<Rightarrow> nat \<Rightarrow> bool" where
  "core_ok a own c \<longleftrightarrow>
     (if percore_alloc_ptr a ! c = 0 then percore_alloc_bytes_remaining a ! c = 0
      else own c < sub_mem_count a \<and> sub_mem_bset a ! own c \<and>
        unat (percore_alloc_bytes_remaining a ! c) \<le> SUB_MEM_SIZE \<and>
        percore_alloc_ptr a ! c =
          map_start a + int (own c * SUB_MEM_SIZE + (SUB_MEM_SIZE - unat (percore_alloc_bytes_remaining a ! c))))"

definition arena_ok :: "Arena \<Rightarrow> (nat \<Rightarrow> nat) \<Rightarrow> bool" where
  "arena_ok a own \<longleftrightarrow>
     0 < map_start a \<and> length (percore_alloc_bytes_remaining a) = length (percore_alloc_ptr a) \<and>
     length (sub_mem_bset a) = sub_mem_count a \<and> length (sub_immem_bset a) = sub_mem_count a \<and>
     (\<forall>c < length (percore_alloc_ptr a). core_ok a own c) \<and>
     (\<forall>c < length (percore_alloc_ptr a). \<forall>d < length (percore_alloc_ptr a).
        c \<noteq> d \<longrightarrow> percore_alloc_ptr a ! c \<noteq> 0 \<longrightarrow> percore_alloc_ptr a ! d \<noteq> 0 \<longrightarrow> own c \<noteq> own d)"

lemma unat_SUB_MEM_SIZE [simp]: "unat (word_of_nat SUB_MEM_SIZE :: uint64) = SUB_MEM_SIZE"
  by (simp add: SUB_MEM_SIZE_def)

lemma alloc_sub_mem_ok:
  assumes ok: "arena_ok a own" and cpu: "cpu < length (percore_alloc_ptr a)"
    and free: "percore_alloc_ptr a ! cpu = 0" and r: "alloc_sub_mem cpu a = (r, a')" "r \<noteq> - 1"
  shows "arena_ok a' (own(cpu := nat r))" "0 \<le> r" "nat r < sub_mem_count a" "\<not> sub_mem_bset a ! nat r"
    "\<forall>j < nat r. sub_mem_bset a ! j"
    "percore_alloc_ptr a' ! cpu = map_start a + int (nat r * SUB_MEM_SIZE)"
    "percore_alloc_bytes_remaining a' ! cpu = word_of_nat SUB_MEM_SIZE"
proof -
  let ?i = "first_free 0 (sub_mem_bset a)"
  have i: "?i \<noteq> sub_mem_count a" "r = int ?i"
    and a': "a' = a\<lparr>sub_mem_bset := (sub_mem_bset a)[?i := True],
        percore_alloc_ptr := (percore_alloc_ptr a)[cpu := map_start a + int (?i * SUB_MEM_SIZE)],
        percore_alloc_bytes_remaining :=
          (percore_alloc_bytes_remaining a)[cpu := word_of_nat SUB_MEM_SIZE]\<rparr>"
    using r by (auto simp: alloc_sub_mem_def Let_def split: if_splits)
  have len: "length (sub_mem_bset a) = sub_mem_count a"
    using ok by (simp add: arena_ok_def)
  then have lt: "?i < sub_mem_count a"
    using first_free_bounds [of 0 "sub_mem_bset a"] i(1) by simp
  then have unset: "\<not> sub_mem_bset a ! ?i"
    using first_free_spec(1) [of 0 "sub_mem_bset a"] len by simp
  show "0 \<le> r" "nat r < sub_mem_count a" "\<not> sub_mem_bset a ! nat r"
    using lt unset by (simp_all add: i(2))
  show "\<forall>j < nat r. sub_mem_bset a ! j"
    using first_free_spec(2) [of 0 _ "sub_mem_bset a"] by (simp add: i(2))
  show "percore_alloc_ptr a' ! cpu = map_start a + int (nat r * SUB_MEM_SIZE)"
    "percore_alloc_bytes_remaining a' ! cpu = word_of_nat SUB_MEM_SIZE"
    using cpu ok by (simp_all add: a' i(2) arena_ok_def)
  have other: "\<forall>c < length (percore_alloc_ptr a). percore_alloc_ptr a ! c \<noteq> 0 \<longrightarrow> own c \<noteq> ?i \<and> ?i \<noteq> own c"
    using ok unset unfolding arena_ok_def core_ok_def by metis
  have "0 < map_start a"
    using ok by (simp add: arena_ok_def)
  then have pos: "map_start a + int (?i * SUB_MEM_SIZE) \<noteq> 0"
    by linarith
  show "arena_ok a' (own(cpu := nat r))"
    using ok other lt pos cpu len unfolding arena_ok_def a' i(2)
    by (auto simp: core_ok_def nth_list_update)
qed

lemma core_index:
  assumes "arena_ok a own" "cpu < length (percore_alloc_ptr a)" "percore_alloc_ptr a ! cpu \<noteq> 0"
  shows "sub_mem_index a (percore_alloc_ptr a ! cpu) =
    (if percore_alloc_bytes_remaining a ! cpu = 0 then own cpu + 1 else own cpu)"
proof -
  let ?r = "unat (percore_alloc_bytes_remaining a ! cpu)"
  have p: "percore_alloc_ptr a ! cpu - map_start a = int (own cpu * SUB_MEM_SIZE + (SUB_MEM_SIZE - ?r))"
    and r: "?r \<le> SUB_MEM_SIZE"
    using assms by (auto simp: arena_ok_def core_ok_def)
  have "sub_mem_index a (percore_alloc_ptr a ! cpu) =
      (own cpu * SUB_MEM_SIZE + (SUB_MEM_SIZE - ?r)) div SUB_MEM_SIZE"
    by (simp only: sub_mem_index_def p zdiv_int [symmetric] nat_int)
  also have "\<dots> = own cpu + (SUB_MEM_SIZE - ?r) div SUB_MEM_SIZE"
    by (simp add: SUB_MEM_SIZE_def)
  also have "(SUB_MEM_SIZE - ?r) div SUB_MEM_SIZE = (if ?r = 0 then 1 else 0)"
    using r by (simp add: SUB_MEM_SIZE_def)
  finally show ?thesis
    by (simp add: unat_eq_0)
qed

text \<open>Releasing the pointer of a core keeps the arena well formed.\<close>

lemma release_core_ok:
  assumes "arena_ok a own" "cpu < length (percore_alloc_ptr a)"
  shows "arena_ok (a\<lparr>sub_immem_bset := (sub_immem_bset a)[i := True], sub_immem_count := n,
      percore_alloc_ptr := (percore_alloc_ptr a)[cpu := 0],
      percore_alloc_bytes_remaining := (percore_alloc_bytes_remaining a)[cpu := 0]\<rparr>) own"
  using assms unfolding arena_ok_def by (auto simp: core_ok_def nth_list_update)

text \<open>Bumping the pointer of a core that has room keeps the arena well formed and
  yields a block inside its sub-memtable.\<close>

lemma bump_core_ok:
  assumes ok: "arena_ok a own" and cpu: "cpu < length (percore_alloc_ptr a)"
    and p: "percore_alloc_ptr a ! cpu \<noteq> 0" and room: "bytes \<le> percore_alloc_bytes_remaining a ! cpu"
  shows "arena_ok (a\<lparr>percore_alloc_ptr := (percore_alloc_ptr a)[cpu := percore_alloc_ptr a ! cpu + uint bytes],
        percore_alloc_bytes_remaining :=
          (percore_alloc_bytes_remaining a)[cpu := percore_alloc_bytes_remaining a ! cpu - bytes],
        memory_usage := m\<rparr>) own"
    and "map_start a + int (own cpu * SUB_MEM_SIZE) \<le> percore_alloc_ptr a ! cpu"
    and "percore_alloc_ptr a ! cpu + uint bytes \<le> map_start a + int ((own cpu + 1) * SUB_MEM_SIZE)"
proof -
  let ?r = "percore_alloc_bytes_remaining a ! cpu"
  have r: "unat ?r \<le> SUB_MEM_SIZE" and ptr: "percore_alloc_ptr a ! cpu =
      map_start a + int (own cpu * SUB_MEM_SIZE + (SUB_MEM_SIZE - unat ?r))"
    and slot: "own cpu < sub_mem_count a" "sub_mem_bset a ! own cpu" and pos: "0 < map_start a"
    using ok cpu p by (auto simp: arena_ok_def core_ok_def)
  have b: "unat bytes \<le> unat ?r" "uint bytes = int (unat bytes)"
    using room by (simp_all add: word_le_nat_alt)
  have sub: "unat (?r - bytes) = unat ?r - unat bytes"
    using room by (rule unat_sub)
  have new: "percore_alloc_ptr a ! cpu + uint bytes =
      map_start a + int (own cpu * SUB_MEM_SIZE + (SUB_MEM_SIZE - unat (?r - bytes)))"
    using r b unfolding sub ptr b(2) by simp
  show "map_start a + int (own cpu * SUB_MEM_SIZE) \<le> percore_alloc_ptr a ! cpu"
    by (simp add: ptr)
  show "percore_alloc_ptr a ! cpu + uint bytes \<le> map_start a + int ((own cpu + 1) * SUB_MEM_SIZE)"
    unfolding new by simp
  have "percore_alloc_ptr a ! cpu + uint bytes \<noteq> 0"
    unfolding new using pos by linarith
  moreover have "unat (?r - bytes) \<le> SUB_MEM_SIZE"
    using r sub by simp
  ultimately show "arena_ok (a\<lparr>percore_alloc_ptr := (percore_alloc_ptr a)[cpu := percore_alloc_ptr a ! cpu + uint bytes],
        percore_alloc_bytes_remaining :=
          (percore_alloc_bytes_remaining a)[cpu := percore_alloc_bytes_remaining a ! cpu - bytes],
        memory_usage := m\<rparr>) own"
    using ok new slot cpu p unfolding arena_ok_def by (auto simp: core_ok_def nth_list_update)
qed

text \<open>A block handed out to a core lies inside one sub-memtable, which is either the
  one the core was filling, right behind what it had used, or one nobody had
  claimed; no other core fills it.\<close>

definition block_ok :: "Arena \<Rightarrow> (nat \<Rightarrow> nat) \<Rightarrow> nat \<Rightarrow> uint64 \<Rightarrow> ptr \<Rightarrow> nat \<Rightarrow> bool" where
  "block_ok a own cpu bytes p i \<longleftrightarrow>
     i < sub_mem_count a \<and>
     map_start a + int (i * SUB_MEM_SIZE) \<le> p \<and> p + uint bytes \<le> map_start a + int ((i + 1) * SUB_MEM_SIZE) \<and>
     (percore_alloc_ptr a ! cpu \<noteq> 0 \<and> i = own cpu \<and> p = percore_alloc_ptr a ! cpu \<or> \<not> sub_mem_bset a ! i) \<and>
     (\<forall>d < length (percore_alloc_ptr a). d \<noteq> cpu \<longrightarrow> percore_alloc_ptr a ! d \<noteq> 0 \<longrightarrow> own d \<noteq> i)"

lemma others_not_free:
  assumes "arena_ok a own" "\<not> sub_mem_bset a ! i"
  shows "\<forall>d < length (percore_alloc_ptr a). percore_alloc_ptr a ! d \<noteq> 0 \<longrightarrow> own d \<noteq> i"
  using assms unfolding arena_ok_def core_ok_def by metis

definition finish_alloc :: "nat \<Rightarrow> uint64 \<Rightarrow> int \<times> Arena \<Rightarrow> ptr \<times> Arena" where
  "finish_alloc cpu bytes = (\<lambda>(r, a).
     if r = - 1 then (0, a)
     else (percore_alloc_ptr a ! cpu,
           a\<lparr>percore_alloc_ptr := (percore_alloc_ptr a)[cpu := percore_alloc_ptr a ! cpu + uint bytes],
             percore_alloc_bytes_remaining :=
               (percore_alloc_bytes_remaining a)[cpu := percore_alloc_bytes_remaining a ! cpu - bytes],
             memory_usage := memory_usage a + bytes + 8\<rparr>))"

text \<open>Sealing the sub-memtable of a core that has one: what a request leaves behind
  that finds every sub-memtable taken.\<close>

definition seal_core :: "(nat \<Rightarrow> nat) \<Rightarrow> nat \<Rightarrow> Arena \<Rightarrow> Arena" where
  "seal_core own cpu a =
     (if percore_alloc_ptr a ! cpu = 0 then a
      else a\<lparr>sub_immem_bset := (sub_immem_bset a)[own cpu := True], sub_immem_count := sub_immem_count a + 1,
             percore_alloc_ptr := (percore_alloc_ptr a)[cpu := 0],
             percore_alloc_bytes_remaining := (percore_alloc_bytes_remaining a)[cpu := 0]\<rparr>)"

lemma seal_core_ok:
  "arena_ok a own \<Longrightarrow> cpu < length (percore_alloc_ptr a) \<Longrightarrow> arena_ok (seal_core own cpu a) own"
  by (simp add: seal_core_def release_core_ok)

lemma seal_core_free: "cpu < length (percore_alloc_ptr a) \<Longrightarrow> percore_alloc_ptr (seal_core own cpu a) ! cpu = 0"
  by (simp add: seal_core_def)

lemma seal_core_keeps [simp]:
  "sub_mem_bset (seal_core own cpu a) = sub_mem_bset a" "sub_mem_count (seal_core own cpu a) = sub_mem_count a"
  "map_start (seal_core own cpu a) = map_start a" "length (percore_alloc_ptr (seal_core own cpu a)) = length (percore_alloc_ptr a)"
  by (simp_all add: seal_core_def)

text \<open>A claim fails only when every sub-memtable is taken, and then changes nothing.\<close>

lemma alloc_sub_mem_fails:
  assumes "alloc_sub_mem cpu a = (- 1, a')" "length (sub_mem_bset a) = sub_mem_count a"
  shows "a' = a" "\<forall>j < sub_mem_count a. sub_mem_bset a ! j"
proof -
  have i: "first_free 0 (sub_mem_bset a) = sub_mem_count a" "a' = a"
    using assms(1) by (auto simp: alloc_sub_mem_def Let_def split: if_splits)
  then show "a' = a" "\<forall>j < sub_mem_count a. sub_mem_bset a ! j"
    using first_free_spec(2) [of 0 _ "sub_mem_bset a"] by simp_all
qed

text \<open>What a request for a block of a core comes to.\<close>

definition alloc_result :: "Arena \<Rightarrow> (nat \<Rightarrow> nat) \<Rightarrow> nat \<Rightarrow> uint64 \<Rightarrow> ptr \<Rightarrow> Arena \<Rightarrow> bool" where
  "alloc_result a own cpu bytes p a' \<longleftrightarrow>
     (if p = 0 then
        percore_alloc_bytes_remaining a ! cpu < bytes \<and> (\<forall>j < sub_mem_count a. sub_mem_bset a ! j) \<and>
        a' = seal_core own cpu a \<and> arena_ok a' own
      else \<exists>i. arena_ok a' (own(cpu := i)) \<and> block_ok a own cpu bytes p i)"

text \<open>Claiming a sub-memtable for a core without one, and taking a block from it.\<close>

lemma claim_block:
  assumes ok: "arena_ok a own" and cpu: "cpu < length (percore_alloc_ptr a)"
    and free: "percore_alloc_ptr a ! cpu = 0" and bytes: "unat bytes \<le> SUB_MEM_SIZE"
    and r: "finish_alloc cpu bytes (alloc_sub_mem cpu a) = (p, a')"
  shows "if p = 0 then a' = a \<and> (\<forall>j < sub_mem_count a. sub_mem_bset a ! j)
    else \<exists>i. arena_ok a' (own(cpu := i)) \<and> block_ok a own cpu bytes p i"
proof -
  obtain r1 a1 where 1: "alloc_sub_mem cpu a = (r1, a1)"
    by fastforce
  show ?thesis
  proof (cases "r1 = - 1")
    case True
    with r 1 alloc_sub_mem_fails [of cpu a a1] ok show ?thesis
      by (simp add: finish_alloc_def arena_ok_def)
  next
    case ne: False
    note a1 = alloc_sub_mem_ok [OF ok cpu free 1 ne]
    have len: "cpu < length (percore_alloc_ptr a1)" and ms: "map_start a1 = map_start a"
      using 1 cpu by (auto simp: alloc_sub_mem_def Let_def split: if_splits)
    have "0 < map_start a"
      using ok by (simp add: arena_ok_def)
    then have p1: "percore_alloc_ptr a1 ! cpu \<noteq> 0"
      unfolding a1(6) by linarith
    have room: "bytes \<le> percore_alloc_bytes_remaining a1 ! cpu"
      using bytes by (simp add: a1(7) word_le_nat_alt)
    note bump = bump_core_ok [OF a1(1) len p1 room]
    have p: "p = percore_alloc_ptr a1 ! cpu"
      using r 1 ne by (simp add: finish_alloc_def)
    have "arena_ok a' (own(cpu := nat r1))"
      using r 1 ne bump(1) by (auto simp: finish_alloc_def)
    moreover have "block_ok a own cpu bytes p (nat r1)"
      using bump(2,3) a1(3,4) others_not_free [OF ok a1(4)] unfolding block_ok_def p ms by simp
    ultimately show ?thesis
      using p p1 by auto
  qed
qed

text \<open>A request that does not fit starts with a sealed sub-memtable, if the core has
  one that is not exactly full.\<close>

lemma Allocate_claims:
  assumes ok: "arena_ok a own" and al: "allocation a" and cpu: "cpu < length (percore_alloc_ptr a)"
    and notfull: "percore_alloc_ptr a ! cpu \<noteq> 0 \<longrightarrow> percore_alloc_bytes_remaining a ! cpu \<noteq> 0"
    and more: "bytes > percore_alloc_bytes_remaining a ! cpu"
  shows "ArenaNVM_Allocate os (Some cpu) bytes a =
    Some (finish_alloc cpu bytes (alloc_sub_mem cpu (seal_core own cpu a)))"
proof (cases "percore_alloc_ptr a ! cpu = 0")
  case True
  then show ?thesis
    using more al by (auto simp: ArenaNVM_Allocate_def finish_alloc_def seal_core_def split: prod.split)
next
  case False
  have i: "sub_mem_index a (percore_alloc_ptr a ! cpu) = own cpu"
    using core_index [OF ok cpu False] notfull False by simp
  have "own cpu < length (sub_immem_bset a)"
    using False ok cpu by (simp add: arena_ok_def core_ok_def)
  then show ?thesis
    using more False al i
    by (auto simp: ArenaNVM_Allocate_def swap_sub_mem_def finish_alloc_def seal_core_def Let_def split: prod.split)
qed

lemma ArenaNVM_Allocate_ok:
  assumes ok: "arena_ok a own" and al: "allocation a" and cpu: "cpu < length (percore_alloc_ptr a)"
    and bytes: "0 < unat bytes" "unat bytes \<le> SUB_MEM_SIZE"
    and notfull: "percore_alloc_ptr a ! cpu \<noteq> 0 \<longrightarrow> percore_alloc_bytes_remaining a ! cpu \<noteq> 0"
  shows "\<exists>p a'. ArenaNVM_Allocate os (Some cpu) bytes a = Some (p, a') \<and> alloc_result a own cpu bytes p a'"
proof (cases "bytes > percore_alloc_bytes_remaining a ! cpu")
  case False
  then have room: "bytes \<le> percore_alloc_bytes_remaining a ! cpu"
    by simp
  have p: "percore_alloc_ptr a ! cpu \<noteq> 0"
    using ok cpu room bytes(1) unfolding arena_ok_def core_ok_def
    by (metis le_0_eq unat_0 word_le_nat_alt less_irrefl)
  have "block_ok a own cpu bytes (percore_alloc_ptr a ! cpu) (own cpu)"
    using bump_core_ok(2,3) [OF ok cpu p room] ok cpu p unfolding block_ok_def arena_ok_def core_ok_def by metis
  moreover obtain a' where "finish_alloc cpu bytes (0, a) = (percore_alloc_ptr a ! cpu, a')"
      "arena_ok a' (own(cpu := own cpu))"
    using bump_core_ok(1) [OF ok cpu p room] by (simp add: finish_alloc_def)
  moreover have "ArenaNVM_Allocate os (Some cpu) bytes a = Some (finish_alloc cpu bytes (0, a))"
    using False al by (simp add: ArenaNVM_Allocate_def finish_alloc_def)
  ultimately show ?thesis
    using p by (auto simp: alloc_result_def intro!: exI [of _ "own cpu"])
next
  case True
  let ?a = "seal_core own cpu a"
  obtain p a' where p: "finish_alloc cpu bytes (alloc_sub_mem cpu ?a) = (p, a')"
    by fastforce
  have "\<not> sub_mem_bset a ! j \<and> block_ok a own cpu bytes p j" if "block_ok ?a own cpu bytes p j" for j
    using that cpu by (auto simp: block_ok_def seal_core_def nth_list_update split: if_splits)
  then show ?thesis
    using claim_block [OF seal_core_ok [OF ok cpu] _ seal_core_free [OF cpu] bytes(2) p] cpu True
      Allocate_claims [OF ok al cpu notfull True] p seal_core_ok [OF ok cpu]
    by (auto simp: alloc_result_def split: if_splits)
qed

section \<open>Properties\<close>


definition example_arena :: Arena where
  "example_arena = (new_ArenaNVM (2 * SUB_MEM_SIZE) 2)\<lparr>map_start := 4096, allocation := True\<rparr>"

lemma example_arena_simps [simp]:
  "map_start example_arena = 4096" "allocation example_arena" "nvmarena example_arena"
  "percore_alloc_ptr example_arena = [0, 0]" "percore_alloc_bytes_remaining example_arena = [0, 0]"
  "sub_mem_bset example_arena = [False, False]" "sub_mem_count example_arena = 2"
  "sub_immem_bset example_arena = [False, False]"
  by (simp_all add: example_arena_def new_ArenaNVM_def SUB_MEM_SIZE_def numeral_2_eq_2)

lemma example_arena_ok: "arena_ok example_arena own"
  by (simp add: arena_ok_def core_ok_def less_Suc_eq numeral_2_eq_2)

text \<open>The same arena with both sub-memtables in use, the second by core 1, which has
  used 2097100 of its 2097152 bytes.\<close>

definition full_arena :: Arena where
  "full_arena = example_arena\<lparr>sub_mem_bset := [True, True], percore_alloc_ptr := [0, 4096 + 2097152 + 2097100],
     percore_alloc_bytes_remaining := [0, 52]\<rparr>"

lemma full_arena_simps [simp]:
  "map_start full_arena = 4096" "allocation full_arena"
  "percore_alloc_ptr full_arena = [0, 4096 + 2097152 + 2097100]"
  "percore_alloc_bytes_remaining full_arena = [0, 52]"
  "sub_mem_bset full_arena = [True, True]" "sub_mem_count full_arena = 2"
  "sub_immem_bset full_arena = [False, False]"
  by (simp_all add: full_arena_def)

lemma full_arena_ok: "arena_ok full_arena id"
proof -
  have "unat (52 :: uint64) = 52"
    by simp
  then show ?thesis
    unfolding arena_ok_def core_ok_def by (auto simp: less_Suc_eq numeral_2_eq_2 SUB_MEM_SIZE_def simp del: unat_numeral)
qed


text \<open>(C21) An exactly full sub-memtable is not sealed: when a core has used every byte
  of its sub-memtable and asks for more, the switch marks the next sub-memtable
  as immutable (or stores past the end of the array, when it is the last one)
  and leaves the full one unmarked.\<close>

theorem exactly_full_seals_neighbour:
  assumes "arena_ok a own" "cpu < length (percore_alloc_ptr a)" "percore_alloc_ptr a ! cpu \<noteq> 0"
    and "percore_alloc_bytes_remaining a ! cpu = 0"
  shows "(own cpu + 1 = sub_mem_count a \<longrightarrow> swap_sub_mem cpu a = None) \<and>
    (own cpu + 1 < sub_mem_count a \<longrightarrow>
       (\<exists>r a'. swap_sub_mem cpu a = Some (r, a') \<and> sub_immem_bset a' ! (own cpu + 1) \<and>
          sub_immem_bset a' ! own cpu = sub_immem_bset a ! own cpu))"
proof -
  have idx: "sub_mem_index a (percore_alloc_ptr a ! cpu) = own cpu + 1"
    using core_index [OF assms(1-3)] assms(4) by simp
  have len: "length (sub_immem_bset a) = sub_mem_count a" "own cpu < sub_mem_count a"
    using assms by (auto simp: arena_ok_def core_ok_def)
  have keep: "sub_immem_bset (snd (alloc_sub_mem c b)) = sub_immem_bset b" for c b
    by (simp add: alloc_sub_mem_def Let_def)
  let ?b = "a\<lparr>sub_immem_bset := (sub_immem_bset a)[own cpu + 1 := True], sub_immem_count := sub_immem_count a + 1,
      percore_alloc_ptr := (percore_alloc_ptr a)[cpu := 0],
      percore_alloc_bytes_remaining := (percore_alloc_bytes_remaining a)[cpu := 0]\<rparr>"
  have "swap_sub_mem cpu a = (if own cpu + 1 < sub_mem_count a then Some (alloc_sub_mem cpu ?b) else None)"
    by (simp add: swap_sub_mem_def idx len(1))
  moreover have "sub_immem_bset (snd (alloc_sub_mem cpu ?b)) = (sub_immem_bset a)[own cpu + 1 := True]"
    by (simp add: keep)
  ultimately show ?thesis
    using len by (cases "alloc_sub_mem cpu ?b") simp
qed

theorem exactly_full_seals_neighbour_witness:
  "\<exists>r a'. swap_sub_mem 0 (example_arena\<lparr>percore_alloc_ptr := [4096 + 2097152, 0],
        sub_mem_bset := [True, False]\<rparr>) = Some (r, a') \<and>
      sub_immem_bset a' ! 1 \<and> \<not> sub_immem_bset a' ! 0"
proof -
  let ?a = "example_arena\<lparr>percore_alloc_ptr := [4096 + 2097152, 0], sub_mem_bset := [True, False]\<rparr>"
  have "arena_ok ?a (\<lambda>_. 0)"
    by (auto simp: example_arena_def new_ArenaNVM_def arena_ok_def core_ok_def SUB_MEM_SIZE_def nth_Cons'
        less_Suc_eq numeral_2_eq_2)
  from exactly_full_seals_neighbour [OF this, of 0] show ?thesis
    by (auto simp: example_arena_def new_ArenaNVM_def SUB_MEM_SIZE_def)
qed

end
