(* ===== verification/Coding.thy ===== *)
theory Coding
  imports Prelude
begin

text \<open>
  The byte encodings of \<^verbatim>\<open>util/coding.h\<close> and \<^verbatim>\<open>util/coding.cc\<close>: fixed-width
  little-endian integers, variable-length integers and length-prefixed
  slices.  A pointer pair \<open>[p, limit)\<close> is the list of the bytes between the
  pointers; a decoder returns the value and the bytes after it, or \<open>None\<close>
  where the source returns \<open>NULL\<close> or \<open>false\<close>.  Reading past the end of a
  list (\<open>xs ! i\<close> out of range) is unspecified, as it is in the source.
\<close>

unbundle bit_operations_syntax

section \<open>Definitions\<close>

definition EncodeFixed32 :: "uint32 \<Rightarrow> bytes" where
  "EncodeFixed32 value =
     [ucast (value AND 0xff), ucast (drop_bit 8 value AND 0xff),
      ucast (drop_bit 16 value AND 0xff), ucast (drop_bit 24 value AND 0xff)]"

definition EncodeFixed64 :: "uint64 \<Rightarrow> bytes" where
  "EncodeFixed64 value =
     [ucast (value AND 0xff), ucast (drop_bit 8 value AND 0xff),
      ucast (drop_bit 16 value AND 0xff), ucast (drop_bit 24 value AND 0xff),
      ucast (drop_bit 32 value AND 0xff), ucast (drop_bit 40 value AND 0xff),
      ucast (drop_bit 48 value AND 0xff), ucast (drop_bit 56 value AND 0xff)]"

definition PutFixed32 :: "bytes \<Rightarrow> uint32 \<Rightarrow> bytes" where
  "PutFixed32 dst value = dst @ EncodeFixed32 value"

definition PutFixed64 :: "bytes \<Rightarrow> uint64 \<Rightarrow> bytes" where
  "PutFixed64 dst value = dst @ EncodeFixed64 value"

definition DecodeFixed32 :: "bytes \<Rightarrow> uint32" where
  "DecodeFixed32 ptr =
     ucast (ptr ! 0) OR push_bit 8 (ucast (ptr ! 1))
       OR push_bit 16 (ucast (ptr ! 2)) OR push_bit 24 (ucast (ptr ! 3))"

definition DecodeFixed64 :: "bytes \<Rightarrow> uint64" where
  "DecodeFixed64 ptr =
     (let lo = ucast (DecodeFixed32 ptr); hi = ucast (DecodeFixed32 (drop 4 ptr))
      in push_bit 32 hi OR lo)"

definition EncodeVarint32 :: "uint32 \<Rightarrow> bytes" where
  "EncodeVarint32 v =
     (let B = 128 in
      if v < 2 ^ 7 then [ucast v]
      else if v < 2 ^ 14 then [ucast (v OR B), ucast (drop_bit 7 v)]
      else if v < 2 ^ 21 then
        [ucast (v OR B), ucast (drop_bit 7 v OR B), ucast (drop_bit 14 v)]
      else if v < 2 ^ 28 then
        [ucast (v OR B), ucast (drop_bit 7 v OR B), ucast (drop_bit 14 v OR B),
         ucast (drop_bit 21 v)]
      else
        [ucast (v OR B), ucast (drop_bit 7 v OR B), ucast (drop_bit 14 v OR B),
         ucast (drop_bit 21 v OR B), ucast (drop_bit 28 v)])"

definition PutVarint32 :: "bytes \<Rightarrow> uint32 \<Rightarrow> bytes" where
  "PutVarint32 dst v = dst @ EncodeVarint32 v"

function EncodeVarint64 :: "uint64 \<Rightarrow> bytes" where
  "EncodeVarint64 v =
     (if v \<ge> 128 then ucast ((v AND 127) OR 128) # EncodeVarint64 (drop_bit 7 v)
      else [ucast v])"
  by auto
termination
  by (relation "measure unat") (simp_all add: drop_bit_7_less)

definition PutVarint64 :: "bytes \<Rightarrow> uint64 \<Rightarrow> bytes" where
  "PutVarint64 dst v = dst @ EncodeVarint64 v"

definition PutLengthPrefixedSlice :: "bytes \<Rightarrow> bytes \<Rightarrow> bytes" where
  "PutLengthPrefixedSlice dst value =
     PutVarint32 dst (word_of_nat (length value)) @ value"

function VarintLength :: "uint64 \<Rightarrow> nat" where
  "VarintLength v = (if v \<ge> 128 then Suc (VarintLength (drop_bit 7 v)) else 1)"
  by auto
termination
  by (relation "measure unat") (simp_all add: drop_bit_7_less)

fun GetVarint32PtrFallback :: "nat \<Rightarrow> uint32 \<Rightarrow> bytes \<Rightarrow> (uint32 \<times> bytes) option" where
  "GetVarint32PtrFallback shift result [] = None"
| "GetVarint32PtrFallback shift result (b # p) =
     (if shift > 28 then None
      else let byte = ucast b in
        if byte AND 128 \<noteq> 0
        then GetVarint32PtrFallback (shift + 7) (result OR push_bit shift (byte AND 127)) p
        else Some (result OR push_bit shift byte, p))"

definition GetVarint32Ptr :: "bytes \<Rightarrow> (uint32 \<times> bytes) option" where
  "GetVarint32Ptr p =
     (if p \<noteq> [] \<and> (ucast (p ! 0) :: uint32) AND 128 = 0
      then Some (ucast (p ! 0), drop 1 p)
      else GetVarint32PtrFallback 0 0 p)"

definition GetVarint32 :: "bytes \<Rightarrow> (uint32 \<times> bytes) option" where
  "GetVarint32 input = GetVarint32Ptr input"

fun GetVarint64Loop :: "nat \<Rightarrow> uint64 \<Rightarrow> bytes \<Rightarrow> (uint64 \<times> bytes) option" where
  "GetVarint64Loop shift result [] = None"
| "GetVarint64Loop shift result (b # p) =
     (if shift > 63 then None
      else let byte = ucast b in
        if byte AND 128 \<noteq> 0
        then GetVarint64Loop (shift + 7) (result OR push_bit shift (byte AND 127)) p
        else Some (result OR push_bit shift byte, p))"

definition GetVarint64Ptr :: "bytes \<Rightarrow> (uint64 \<times> bytes) option" where
  "GetVarint64Ptr p = GetVarint64Loop 0 0 p"

definition GetVarint64 :: "bytes \<Rightarrow> (uint64 \<times> bytes) option" where
  "GetVarint64 input = GetVarint64Ptr input"

definition GetLengthPrefixedSlicePtr :: "bytes \<Rightarrow> (bytes \<times> bytes) option" where
  "GetLengthPrefixedSlicePtr p =
     (case GetVarint32Ptr p of
        None \<Rightarrow> None
      | Some (len, q) \<Rightarrow>
          if length q < unat len then None else Some (take (unat len) q, drop (unat len) q))"

definition GetLengthPrefixedSlice :: "bytes \<Rightarrow> (bytes \<times> bytes) option" where
  "GetLengthPrefixedSlice input =
     (case GetVarint32 input of
        Some (len, rest) \<Rightarrow>
          if length rest \<ge> unat len then Some (take (unat len) rest, drop (unat len) rest)
          else None
      | None \<Rightarrow> None)"

declare EncodeVarint64.simps [simp del] VarintLength.simps [simp del]

section \<open>Fixed-width integers\<close>

lemma length_EncodeFixed [simp]:
  "length (EncodeFixed32 v) = 4" "length (EncodeFixed64 w) = 8"
  by (simp_all add: EncodeFixed32_def EncodeFixed64_def)

lemma DecodeFixed32_Encode [coding_simps, simp]: "DecodeFixed32 (EncodeFixed32 v @ rest) = v"
proof (rule bit_word_eqI)
  fix n
  assume "n < LENGTH(32)"
  then consider "n < 8" | "8 \<le> n" "n < 16" | "16 \<le> n" "n < 24" | "24 \<le> n" "n < 32"
    by fastforce
  then show "bit (DecodeFixed32 (EncodeFixed32 v @ rest)) n = bit v n"
    by cases (auto simp: DecodeFixed32_def EncodeFixed32_def bit_simps)
qed

lemma EncodeFixed64_split:
  "EncodeFixed64 v = EncodeFixed32 (ucast v) @ EncodeFixed32 (ucast (drop_bit 32 v))"
  by (auto simp: EncodeFixed64_def EncodeFixed32_def bit_simps intro!: bit_word_eqI)

lemma DecodeFixed64_Encode [coding_simps, simp]: "DecodeFixed64 (EncodeFixed64 v @ rest) = v"
proof (rule bit_word_eqI)
  fix n
  assume "n < LENGTH(64)"
  then consider "n < 32" | "32 \<le> n" "n < 64"
    by fastforce
  then show "bit (DecodeFixed64 (EncodeFixed64 v @ rest)) n = bit v n"
    by cases (auto simp: DecodeFixed64_def EncodeFixed64_split Let_def bit_simps)
qed

lemmas DecodeFixed_exact [coding_simps, simp] =
  DecodeFixed32_Encode [where rest = "[]", simplified]
  DecodeFixed64_Encode [where rest = "[]", simplified]

lemma EncodeFixed64_inj [simp]: "EncodeFixed64 x = EncodeFixed64 y \<longleftrightarrow> x = y"
  by (metis DecodeFixed64_Encode)

lemma EncodeFixed32_Decode:
  assumes "length p = 4"
  shows "EncodeFixed32 (DecodeFixed32 p) = p"
proof -
  obtain a b c d where p: "p = [a, b, c, d]"
    using assms by (auto simp: numeral_eq_Suc length_Suc_conv)
  show ?thesis
    by (auto simp: p EncodeFixed32_def DecodeFixed32_def bit_simps byte_high_bit
        intro!: bit_word_eqI)
qed

lemma EncodeFixed64_Decode:
  assumes "length p = 8"
  shows "EncodeFixed64 (DecodeFixed64 p) = p"
proof -
  have lo: "ucast (DecodeFixed64 p) = DecodeFixed32 p"
    by (rule bit_word_eqI) (auto simp: DecodeFixed64_def Let_def bit_simps)
  have hi: "ucast (drop_bit 32 (DecodeFixed64 p)) = DecodeFixed32 (drop 4 p)"
    by (rule bit_word_eqI) (auto simp: DecodeFixed64_def Let_def bit_simps dest: bit_imp_le_length)
  have "DecodeFixed32 p = DecodeFixed32 (take 4 p)"
    using assms by (simp add: DecodeFixed32_def)
  with assms show ?thesis
    using EncodeFixed32_Decode [of "take 4 p"] EncodeFixed32_Decode [of "drop 4 p"]
    by (simp add: EncodeFixed64_split lo hi)
qed

section \<open>Variable-length integers\<close>

text \<open>The reference encoding: base-128 digits, least significant first, with a
  continuation mark on all but the last.\<close>

fun leb128 :: "nat \<Rightarrow> bytes" where
  "leb128 n = (if n \<ge> 128 then word_of_nat (n mod 128 + 128) # leb128 (n div 128)
               else [word_of_nat n])"

declare leb128.simps [simp del]

lemma leb128_less: "n < 128 \<Longrightarrow> leb128 n = [word_of_nat n]"
  by (simp add: leb128.simps)

lemma leb128_ge: "128 \<le> n \<Longrightarrow> leb128 n = word_of_nat (n mod 128 + 128) # leb128 (n div 128)"
  by (simp add: leb128.simps [of n])

lemma byte_or_128: "(b :: byte) OR 128 = word_of_nat (unat b mod 128 + 128)"
proof -
  have "(word_of_nat (unat b mod 128) :: byte) = take_bit 7 b"
    by (simp add: take_bit_eq_mod word_arith_nat_mod)
  moreover have "b OR 128 = take_bit 7 b OR 128"
    by (rule bit_word_eqI) (auto simp: bit_simps not_less numeral_eq_Suc less_Suc_eq)
  moreover have "take_bit 7 b OR 128 = take_bit 7 b + 128"
    by (rule disjunctive_add [symmetric])
       (auto simp: bit_simps not_less numeral_eq_Suc less_Suc_eq)
  ultimately show ?thesis
    by simp
qed

lemma ucast_or_128:
  "8 \<le> LENGTH('a) \<Longrightarrow>
   (ucast (w OR 128 :: 'a :: len word) :: byte) = word_of_nat (unat w mod 128 + 128)"
proof -
  assume len: "8 \<le> LENGTH('a)"
  have "(ucast (w OR 128 :: 'a word) :: byte) = ucast w OR 128"
    using len by (auto intro!: bit_word_eqI simp: bit_simps numeral_eq_Suc less_Suc_eq)
  moreover have "unat (ucast w :: byte) mod 128 = unat w mod 128"
    by (simp add: unsigned_ucast_eq take_bit_eq_mod mod_mod_cancel)
  ultimately show ?thesis
    by (simp add: byte_or_128)
qed

lemma and_127: "(v :: 'a :: len word) AND 127 = take_bit 7 v"
proof -
  have "(127 :: 'a word) = mask 7"
    by (simp add: mask_eq_exp_minus_1)
  then show ?thesis
    by (simp only: take_bit_eq_mask)
qed

lemma unat_take_bit: "unat (take_bit n (v :: 'a :: len word)) = unat v mod 2 ^ n"
  by (metis take_bit_eq_mod unsigned_take_bit_eq)

lemma EncodeVarint64_leb128: "EncodeVarint64 v = leb128 (unat v)"
proof (induction v rule: EncodeVarint64.induct)
  case (1 v)
  show ?case
  proof (cases "128 \<le> v")
    case True
    then have "128 \<le> unat v"
      by (simp add: word_le_nat_alt)
    with True 1 show ?thesis
      by (simp add: EncodeVarint64.simps [of v] leb128.simps [of "unat v"] and_127
          ucast_or_128 unat_drop_bit unat_take_bit)
  next
    case False
    then have "unat v < 128"
      by (simp add: word_le_nat_alt)
    with False show ?thesis
      by (simp add: EncodeVarint64.simps [of v] leb128.simps [of "unat v"])
  qed
qed

lemma EncodeVarint32_leb128: "EncodeVarint32 v = leb128 (unat v)"
proof -
  have 5: "unat v div 268435456 < 128"
    using unsigned_less [where ?'a = nat, of v] by simp
  define n where "n = unat v"
  have n: "(ucast v :: byte) = word_of_nat n"
    by (simp add: n_def)
  have last: "(ucast (drop_bit k v) :: byte) = word_of_nat (n div 2 ^ k)" for k
    by (simp add: n_def flip: unat_drop_bit)
  have cont: "(ucast (drop_bit k v OR 128) :: byte) = word_of_nat (n div 2 ^ k mod 128 + 128)" for k
    by (simp add: n_def ucast_or_128 del: of_nat_add flip: unat_drop_bit)
  have first: "(ucast (v OR 128) :: byte) = word_of_nat (n mod 128 + 128)"
    by (simp add: n_def ucast_or_128 del: of_nat_add)
  have lt: "v < 2 ^ 7 \<longleftrightarrow> n < 128" "v < 2 ^ 14 \<longleftrightarrow> n < 16384" "v < 2 ^ 21 \<longleftrightarrow> n < 2097152"
    "v < 2 ^ 28 \<longleftrightarrow> n < 268435456"
    by (simp_all add: n_def word_less_nat_alt)
  have dm: "n div 128 div 128 = n div 16384" "n div 16384 div 128 = n div 2097152"
    "n div 2097152 div 128 = n div 268435456"
    by (simp_all flip: div_mult2_eq)
  have "EncodeVarint32 v = leb128 n"
  proof -
    consider "n < 128" | "128 \<le> n" "n < 16384" | "16384 \<le> n" "n < 2097152"
      | "2097152 \<le> n" "n < 268435456" | "268435456 \<le> n"
      by linarith
    then show ?thesis
      using 5 [folded n_def] unfolding EncodeVarint32_def Let_def lt n last cont first
      by cases (simp_all add: leb128_less leb128_ge dm del: of_nat_add)
  qed
  then show ?thesis
    by (simp only: n_def)
qed

lemma ucast_digit:
  assumes "n < 256"
  shows "(ucast (word_of_nat n :: byte) :: 'a :: len word) = word_of_nat n"
  using nat_bit_less [of n 8] assms by (auto intro!: bit_word_eqI simp: bit_simps)

lemma bit_128: "bit (128 :: 'a :: len word) i \<longleftrightarrow> i = 7 \<and> 7 < LENGTH('a)"
proof -
  have "(128 :: 'a word) = 2 ^ 7"
    by simp
  then show ?thesis
    by (simp only: bit_exp_iff possible_bit_word) auto
qed

lemma last_digit:
  assumes "n < 128"
  shows "(word_of_nat n :: 'a :: len word) AND 128 = 0"
proof (rule bit_word_eqI)
  fix i
  have "bit n i \<Longrightarrow> i < 7"
    using nat_bit_less [of n 7] assms by simp
  then show "bit ((word_of_nat n :: 'a word) AND 128) i = bit (0 :: 'a word) i"
    unfolding bit_and_iff bit_of_nat_iff bit_128 by auto
qed

lemma cont_digit:
  assumes "n < 128" "8 \<le> LENGTH('a :: len)"
  shows "(word_of_nat (n + 128) :: 'a word) AND 128 \<noteq> 0"
    and "(word_of_nat (n + 128) :: 'a word) AND 127 = word_of_nat n"
proof -
  have "bit (n + 128) 7"
    using assms by (simp add: bit_iff_odd div_add_self2)
  then have "bit ((word_of_nat (n + 128) :: 'a word) AND 128) 7"
    using assms by (simp add: bit_and_iff bit_of_nat_iff bit_128 del: of_nat_add)
  then show "(word_of_nat (n + 128) :: 'a word) AND 128 \<noteq> 0"
    by auto
  have "take_bit 7 (n + 128) = n"
    using assms by (simp add: take_bit_eq_mod)
  then have "bit (n + 128) i \<and> i < 7 \<longleftrightarrow> bit n i" for i
    by (metis bit_take_bit_iff)
  then show "(word_of_nat (n + 128) :: 'a word) AND 127 = word_of_nat n"
    unfolding and_127 by (intro bit_word_eqI) (metis bit_of_nat_iff bit_take_bit_iff)
qed

lemma join_digits:
  "(r OR push_bit k (word_of_nat (n mod 128))) OR push_bit (k + 7) (word_of_nat (n div 128)) =
   (r :: 'a :: len word) OR push_bit k (word_of_nat n)"
proof (rule bit_word_eqI)
  fix i
  assume i: "i < LENGTH('a)"
  have mod: "n mod 128 = take_bit 7 n" and div: "n div 128 = drop_bit 7 n"
    by (simp_all add: take_bit_eq_mod drop_bit_eq_div)
  show "bit ((r OR push_bit k (word_of_nat (n mod 128))) OR
             push_bit (k + 7) (word_of_nat (n div 128))) i =
        bit (r OR push_bit k (word_of_nat n)) i"
    using i by (cases "k + 7 \<le> i")
      (auto simp: mod div bit_push_bit_iff bit_or_iff bit_of_nat_iff bit_take_bit_iff
        bit_drop_bit_eq)
qed

lemma GetVarint32PtrFallback_leb128:
  assumes "n < 2 ^ (32 - k)" "k \<in> {0, 7, 14, 21, 28}"
  shows "GetVarint32PtrFallback k r (leb128 n @ rest) = Some (r OR push_bit k (word_of_nat n), rest)"
  using assms
proof (induction n arbitrary: k r rule: leb128.induct)
  case (1 n)
  show ?case
  proof (cases "n < 128")
    case True
    with "1.prems" show ?thesis
      by (auto simp: leb128_less ucast_digit last_digit Let_def)
  next
    case False
    with "1.prems" have k: "k + 7 \<in> {0, 7, 14, 21, 28}" "k \<le> 28"
      by auto
    have "(2 :: nat) ^ (32 - k) = 128 * 2 ^ (32 - (k + 7))"
      using k by auto
    with "1.prems" have "n div 128 < 2 ^ (32 - (k + 7))"
      by (simp add: less_mult_imp_div_less mult.commute)
    with False k show ?thesis
      by (simp add: leb128_ge ucast_digit cont_digit Let_def "1.IH" join_digits
          del: of_nat_add)
  qed
qed

lemma GetVarint64Loop_leb128:
  assumes "n < 2 ^ (64 - k)" "k \<le> 63"
  shows "GetVarint64Loop k r (leb128 n @ rest) = Some (r OR push_bit k (word_of_nat n), rest)"
  using assms
proof (induction n arbitrary: k r rule: leb128.induct)
  case (1 n)
  show ?case
  proof (cases "n < 128")
    case True
    with "1.prems" show ?thesis
      by (auto simp: leb128_less ucast_digit last_digit Let_def)
  next
    case False
    then have "(2 :: nat) ^ 7 \<le> n"
      by simp
    with "1.prems" have "(2 :: nat) ^ 7 < 2 ^ (64 - k)"
      by linarith
    then have k: "k + 7 \<le> 63"
      using power_less_imp_less_exp [of "2 :: nat" 7 "64 - k"] by linarith
    then have "64 - k = 7 + (64 - (k + 7))"
      by simp
    then have "(2 :: nat) ^ (64 - k) = 2 ^ 7 * 2 ^ (64 - (k + 7))"
      by (metis power_add)
    with "1.prems" have "n div 128 < 2 ^ (64 - (k + 7))"
      by (simp add: less_mult_imp_div_less mult.commute)
    with False k "1.prems" show ?thesis
      by (simp add: leb128_ge ucast_digit cont_digit Let_def "1.IH" join_digits
          del: of_nat_add)
  qed
qed

text \<open>The one-byte fast path of the inline decoder agrees with the fallback loop.\<close>

lemma GetVarint32Ptr_Fallback: "GetVarint32Ptr p = GetVarint32PtrFallback 0 0 p"
  by (cases p) (auto simp: GetVarint32Ptr_def Let_def)

lemma GetVarint32_Encode [coding_simps, simp]: "GetVarint32 (EncodeVarint32 v @ rest) = Some (v, rest)"
  using GetVarint32PtrFallback_leb128 [of "unat v" 0 0 rest] unsigned_less [where ?'a = nat, of v]
  by (simp add: GetVarint32_def GetVarint32Ptr_Fallback EncodeVarint32_leb128)

lemma GetVarint64_Encode [coding_simps, simp]: "GetVarint64 (EncodeVarint64 v @ rest) = Some (v, rest)"
  using GetVarint64Loop_leb128 [of "unat v" 0 0 rest] unsigned_less [where ?'a = nat, of v]
  by (simp add: GetVarint64_def GetVarint64Ptr_def EncodeVarint64_leb128)

lemmas GetVarint_exact [coding_simps, simp] =
  GetVarint32_Encode [where rest = "[]", simplified]
  GetVarint64_Encode [where rest = "[]", simplified]

lemma VarintLength_Encode: "VarintLength v = length (EncodeVarint64 v)"
proof (induction v rule: VarintLength.induct)
  case (1 v)
  then show ?case
    by (simp add: VarintLength.simps [of v] EncodeVarint64.simps [of v])
qed

lemma length_leb128: "n < 128 ^ Suc k \<Longrightarrow> length (leb128 n) \<le> Suc k"
proof (induction k arbitrary: n)
  case (Suc k)
  then have "n div 128 < 128 ^ Suc k"
    by (simp add: less_mult_imp_div_less mult.commute)
  with Suc.IH show ?case
    by (cases "n < 128") (simp_all add: leb128_less leb128_ge)
qed (simp add: leb128_less)

lemma length_EncodeVarint: "length (EncodeVarint32 v) \<le> 5" "length (EncodeVarint64 w) \<le> 10"
  using length_leb128 [of "unat v" 4] length_leb128 [of "unat w" 9]
    unsigned_less [where ?'a = nat, of v] unsigned_less [where ?'a = nat, of w]
  by (simp_all add: EncodeVarint32_leb128 EncodeVarint64_leb128)

lemma leb128_nonempty [simp]: "leb128 n \<noteq> []"
  by (simp add: leb128.simps [of n])

lemma EncodeVarint_nonempty [simp]: "EncodeVarint32 v \<noteq> []" "EncodeVarint64 w \<noteq> []"
  by (simp_all add: EncodeVarint32_leb128 EncodeVarint64_leb128)

section \<open>Length-prefixed slices\<close>

lemma GetLengthPrefixedSlice_Put [coding_simps, simp]:
  "length s < 2 ^ 32 \<Longrightarrow> GetLengthPrefixedSlice (PutLengthPrefixedSlice [] s @ rest) = Some (s, rest)"
  by (simp add: GetLengthPrefixedSlice_def PutLengthPrefixedSlice_def PutVarint32_def)

lemma PutLengthPrefixedSlice_append:
  "PutLengthPrefixedSlice dst s = dst @ PutLengthPrefixedSlice [] s"
  by (simp add: PutLengthPrefixedSlice_def PutVarint32_def)

text \<open>Both slice decoders read the same language.\<close>

lemma GetLengthPrefixedSlicePtr_eq: "GetLengthPrefixedSlicePtr p = GetLengthPrefixedSlice p"
  by (simp add: GetLengthPrefixedSlicePtr_def GetLengthPrefixedSlice_def GetVarint32_def not_less
      split: option.split)

text \<open>A successful decoder consumes at least one byte.\<close>

lemma GetVarint32_shorter: "GetVarint32 p = Some (v, q) \<Longrightarrow> length q < length p"
proof -
  have "GetVarint32PtrFallback k r p = Some (v, q) \<Longrightarrow> length q < length p" for k r
    by (induction k r p rule: GetVarint32PtrFallback.induct)
       (fastforce simp: Let_def split: if_splits)+
  then show "GetVarint32 p = Some (v, q) \<Longrightarrow> length q < length p"
    by (simp add: GetVarint32_def GetVarint32Ptr_Fallback)
qed

lemma GetLengthPrefixedSlice_shorter:
  "GetLengthPrefixedSlice p = Some (s, q) \<Longrightarrow> length q < length p"
  by (auto simp: GetLengthPrefixedSlice_def split: option.splits if_splits
      dest!: GetVarint32_shorter)

section \<open>Codecs\<close>

text \<open>What the readers of a byte stream rely on: a decoder undoes its encoder
  and leaves the bytes after the encoded value untouched.  Streams of such
  values are then uniquely decodable.\<close>

primrec dec_n :: "(bytes \<Rightarrow> ('a \<times> bytes) option) \<Rightarrow> nat \<Rightarrow> bytes \<Rightarrow> ('a list \<times> bytes) option" where
  "dec_n dec 0 p = Some ([], p)"
| "dec_n dec (Suc n) p =
     (case dec p of None \<Rightarrow> None
      | Some (x, q) \<Rightarrow> (case dec_n dec n q of None \<Rightarrow> None | Some (xs, r) \<Rightarrow> Some (x # xs, r)))"

locale codec =
  fixes ok :: "'a \<Rightarrow> bool" and enc :: "'a \<Rightarrow> bytes" and dec :: "bytes \<Rightarrow> ('a \<times> bytes) option"
  assumes dec_enc: "ok x \<Longrightarrow> dec (enc x @ rest) = Some (x, rest)"
begin

lemma enc_unique:
  assumes "ok x" "ok y"
  shows "enc x @ r = enc y @ s \<longleftrightarrow> x = y \<and> r = s"
proof
  assume "enc x @ r = enc y @ s"
  then have "Some (x, r) = Some (y, s)"
    using dec_enc assms by metis
  then show "x = y \<and> r = s"
    by simp
qed simp

lemma dec_n_stream:
  "list_all ok xs \<Longrightarrow> dec_n dec (length xs) (concat (map enc xs) @ rest) = Some (xs, rest)"
  by (induction xs) (simp_all add: dec_enc)

lemma stream_unique:
  assumes "list_all ok xs" "list_all ok ys" "length xs = length ys"
    and "concat (map enc xs) @ r = concat (map enc ys) @ s"
  shows "xs = ys" "r = s"
proof -
  have "Some (xs, r) = Some (ys, s)"
    using dec_n_stream assms by metis
  then show "xs = ys" "r = s"
    by simp_all
qed

end

interpretation varint32: codec "\<lambda>_. True" EncodeVarint32 GetVarint32
  by unfold_locales simp

interpretation varint64: codec "\<lambda>_. True" EncodeVarint64 GetVarint64
  by unfold_locales simp

interpretation slice_codec: codec "\<lambda>s. length s < 2 ^ 32" "PutLengthPrefixedSlice []" GetLengthPrefixedSlice
  by unfold_locales simp

section \<open>Properties\<close>

text \<open>(C19) The variable-length encodings are exact inverses with a trailing
  suffix: decoding the bytes of an encoded 32- or 64-bit integer followed by
  anything gives that integer and exactly the suffix; the 32-bit form takes at
  most 5 bytes, the 64-bit form at most 10, as many as \<^verbatim>\<open>VarintLength\<close> announces,
  and both are the base-128 reference encoding.\<close>

theorem varint_roundtrip:
  "GetVarint32 (EncodeVarint32 v @ rest) = Some (v, rest) \<and>
   GetVarint64 (EncodeVarint64 w @ rest) = Some (w, rest) \<and>
   EncodeVarint32 v = leb128 (unat v) \<and> EncodeVarint64 w = leb128 (unat w) \<and>
   length (EncodeVarint32 v) \<le> 5 \<and> length (EncodeVarint64 w) \<le> 10 \<and>
   VarintLength w = length (EncodeVarint64 w)"
  by (intro conjI GetVarint32_Encode GetVarint64_Encode EncodeVarint32_leb128
      EncodeVarint64_leb128 length_EncodeVarint VarintLength_Encode)

end
