(* ===== verification/Comparator.thy ===== *)
theory Comparator
  imports Prelude
begin

text \<open>
  Slices (\<^verbatim>\<open>include/leveldb/slice.h\<close>), the comparator interface of
  \<^verbatim>\<open>include/leveldb/comparator.h\<close> and the bytewise comparator of
  \<^verbatim>\<open>util/comparator.cc\<close>.  A slice is the list of its bytes; a comparator is a
  record of its three operations.  The locale \<open>key_order\<close> states what every
  component that sorts or searches keys relies on.
\<close>

section \<open>Definitions\<close>

text \<open>\<^verbatim>\<open>memcmp\<close> on two buffers that both hold at least \<open>n\<close> bytes.\<close>

fun memcmp :: "nat \<Rightarrow> bytes \<Rightarrow> bytes \<Rightarrow> int" where
  "memcmp (Suc n) (x # xs) (y # ys) =
     (if x < y then - 1 else if y < x then 1 else memcmp n xs ys)"
| "memcmp _ _ _ = 0"

definition slice_compare :: "bytes \<Rightarrow> bytes \<Rightarrow> int" where
  "slice_compare a b =
     (let min_len = (if length a < length b then length a else length b);
          r = memcmp min_len a b
      in if r = 0 then
           if length a < length b then - 1 else if length a > length b then 1 else r
         else r)"

definition starts_with :: "bytes \<Rightarrow> bytes \<Rightarrow> bool" where
  "starts_with s x \<longleftrightarrow> length s \<ge> length x \<and> memcmp (length x) s x = 0"

definition slice_eq :: "bytes \<Rightarrow> bytes \<Rightarrow> bool" where
  "slice_eq x y \<longleftrightarrow> length x = length y \<and> memcmp (length x) x y = 0"

definition remove_prefix :: "nat \<Rightarrow> bytes \<Rightarrow> bytes" where
  "remove_prefix n s = drop n s"

record comparator =
  Compare :: "bytes \<Rightarrow> bytes \<Rightarrow> int"
  FindShortestSeparator :: "bytes \<Rightarrow> bytes \<Rightarrow> bytes"
  FindShortSuccessor :: "bytes \<Rightarrow> bytes"

fun diff_index_loop :: "bytes \<Rightarrow> bytes \<Rightarrow> nat" where
  "diff_index_loop (x # xs) (y # ys) = (if x = y then Suc (diff_index_loop xs ys) else 0)"
| "diff_index_loop _ _ = 0"

definition bytewise_FindShortestSeparator :: "bytes \<Rightarrow> bytes \<Rightarrow> bytes" where
  "bytewise_FindShortestSeparator start limit =
     (let min_length = min (length start) (length limit);
          diff_index = diff_index_loop start limit
      in if diff_index \<ge> min_length then start
         else let diff_byte = start ! diff_index in
           if diff_byte < 0xff \<and> unat diff_byte + 1 < unat (limit ! diff_index)
           then take (diff_index + 1) (start[diff_index := diff_byte + 1])
           else start)"

fun bytewise_FindShortSuccessor :: "bytes \<Rightarrow> bytes" where
  "bytewise_FindShortSuccessor [] = []"
| "bytewise_FindShortSuccessor (b # bs) =
     (if b \<noteq> 0xff then [b + 1] else b # bytewise_FindShortSuccessor bs)"

definition BytewiseComparator :: comparator where
  "BytewiseComparator =
     \<lparr> Compare = slice_compare,
       FindShortestSeparator = bytewise_FindShortestSeparator,
       FindShortSuccessor = bytewise_FindShortSuccessor \<rparr>"

section \<open>The contract of a comparator\<close>

text \<open>\<open>ok\<close> delimits the keys the comparator is made for.  On these, \<^verbatim>\<open>Compare\<close> is
  a linear order.\<close>

locale key_order =
  fixes ok :: "bytes \<Rightarrow> bool" and cmp :: "bytes \<Rightarrow> bytes \<Rightarrow> int"
  assumes cmp_eq: "ok a \<Longrightarrow> ok b \<Longrightarrow> cmp a b = 0 \<longleftrightarrow> a = b"
    and cmp_anti: "ok a \<Longrightarrow> ok b \<Longrightarrow> cmp a b < 0 \<longleftrightarrow> 0 < cmp b a"
    and cmp_trans: "ok a \<Longrightarrow> ok b \<Longrightarrow> ok c \<Longrightarrow> cmp a b < 0 \<Longrightarrow> cmp b c < 0 \<Longrightarrow> cmp a c < 0"
begin

lemma cmp_refl: "ok a \<Longrightarrow> cmp a a = 0"
  by (simp add: cmp_eq)

lemma cmp_le_trans: "ok a \<Longrightarrow> ok b \<Longrightarrow> ok c \<Longrightarrow> cmp a b \<le> 0 \<Longrightarrow> cmp b c \<le> 0 \<Longrightarrow> cmp a c \<le> 0"
  using cmp_eq [of a b] cmp_eq [of b c] cmp_trans [of a b c] by force

lemma cmp_le_less_trans: "ok a \<Longrightarrow> ok b \<Longrightarrow> ok c \<Longrightarrow> cmp a b \<le> 0 \<Longrightarrow> cmp b c < 0 \<Longrightarrow> cmp a c < 0"
  using cmp_eq [of a b] cmp_trans [of a b c] by force

lemma cmp_less_le_trans: "ok a \<Longrightarrow> ok b \<Longrightarrow> ok c \<Longrightarrow> cmp a b < 0 \<Longrightarrow> cmp b c \<le> 0 \<Longrightarrow> cmp a c < 0"
  using cmp_eq [of b c] cmp_trans [of a b c] by force

lemma cmp_gt: "ok a \<Longrightarrow> ok b \<Longrightarrow> 0 < cmp a b \<longleftrightarrow> cmp b a < 0"
  using cmp_anti [of b a] by simp

lemma cmp_le: "ok a \<Longrightarrow> ok b \<Longrightarrow> cmp a b \<le> 0 \<longleftrightarrow> \<not> cmp b a < 0"
  using cmp_anti [of b a] by auto

lemma cmp_ge: "ok a \<Longrightarrow> ok b \<Longrightarrow> 0 \<le> cmp a b \<longleftrightarrow> cmp b a \<le> 0"
  using cmp_anti [of a b] cmp_anti [of b a] by auto

lemma cmp_antisym: "ok a \<Longrightarrow> ok b \<Longrightarrow> cmp a b \<le> 0 \<Longrightarrow> cmp b a \<le> 0 \<Longrightarrow> a = b"
  using cmp_le [of a b] cmp_eq [of b a] by auto

end

text \<open>A comparator also shortens keys: a separator lies between its two
  arguments, a key separates itself from itself, a successor is not below its argument.\<close>

locale comparator_contract = key_order ok "Compare c"
  for ok :: "bytes \<Rightarrow> bool" and c :: comparator +
  assumes sep_between: "ok a \<Longrightarrow> ok b \<Longrightarrow> Compare c a b < 0 \<Longrightarrow>
      Compare c a (FindShortestSeparator c a b) \<le> 0 \<and> Compare c (FindShortestSeparator c a b) b < 0"
    and sep_same: "ok a \<Longrightarrow> FindShortestSeparator c a a = a"
    and sep_ok: "ok a \<Longrightarrow> ok b \<Longrightarrow> ok (FindShortestSeparator c a b)"
    and succ_ge: "ok a \<Longrightarrow> Compare c a (FindShortSuccessor c a) \<le> 0"
    and succ_ok: "ok a \<Longrightarrow> ok (FindShortSuccessor c a)"

section \<open>The bytewise comparator\<close>

lemma slice_compare_simps [cmp_simps]:
  "slice_compare [] [] = 0"
  "slice_compare [] (y # ys) = - 1"
  "slice_compare (x # xs) [] = 1"
  "slice_compare (x # xs) (y # ys) =
     (if x < y then - 1 else if y < x then 1 else slice_compare xs ys)"
  by (auto simp: slice_compare_def Let_def)

lemma slice_compare_eq: "slice_compare a b = 0 \<longleftrightarrow> a = b"
  by (induction a b rule: list_induct2') (auto simp: cmp_simps)

lemma slice_compare_anti: "slice_compare a b < 0 \<longleftrightarrow> 0 < slice_compare b a"
  by (induction a b rule: list_induct2') (auto simp: cmp_simps)

lemma slice_compare_trans:
  "slice_compare a b < 0 \<Longrightarrow> slice_compare b c < 0 \<Longrightarrow> slice_compare a c < 0"
proof (induction a b arbitrary: c rule: list_induct2')
  case (4 x xs y ys)
  then show ?case
    by (cases c) (auto simp: cmp_simps split: if_splits)
next
  case (3 y ys)
  then show ?case
    by (cases c) (auto simp: cmp_simps)
qed (auto simp: cmp_simps)

lemma slice_eq_iff [simp]: "slice_eq x y \<longleftrightarrow> x = y"
proof -
  have "memcmp (length x) x y = 0 \<longleftrightarrow> x = y" if "length x = length y"
    using that by (induction x y rule: list_induct2) auto
  then show ?thesis
    by (auto simp: slice_eq_def)
qed

lemma starts_with_iff: "starts_with s x \<longleftrightarrow> (\<exists>r. s = x @ r)"
proof -
  have "memcmp (length x) s x = 0 \<longleftrightarrow> take (length x) s = x" if "length x \<le> length s"
    using that by (induction x arbitrary: s) (auto simp: Suc_le_length_iff split: if_splits)
  then show ?thesis
    by (auto simp: starts_with_def) (metis append_take_drop_id)
qed

lemma byte_less_Suc: "(b :: byte) < 0xff \<Longrightarrow> b < b + 1"
  by (simp add: word_less_nat_alt unat_word_ariths)

lemma byte_not_max: "(b :: byte) \<noteq> 0xff \<Longrightarrow> b < 0xff"
  unfolding word_less_nat_alt word_unat_eq_iff using unat_byte_less [of b] by (simp del: unat_byte_less)

lemma byte_Suc_less:
  "(b :: byte) < 0xff \<Longrightarrow> unat b + 1 < unat c \<Longrightarrow> b + 1 < c"
  by (simp add: word_less_nat_alt unat_word_ariths)

text \<open>The recursive shape of the separator.\<close>

lemma separator_Cons_same:
  "bytewise_FindShortestSeparator (x # xs) (x # ys) = x # bytewise_FindShortestSeparator xs ys"
  by (simp add: bytewise_FindShortestSeparator_def Let_def)

lemma separator_Cons_diff:
  "x \<noteq> y \<Longrightarrow> bytewise_FindShortestSeparator (x # xs) (y # ys) =
     (if x < 0xff \<and> unat x + 1 < unat y then [x + 1] else x # xs)"
  by (simp add: bytewise_FindShortestSeparator_def Let_def)

lemma separator_Nil [simp]:
  "bytewise_FindShortestSeparator [] ys = []"
  "bytewise_FindShortestSeparator xs [] = xs"
  by (simp_all add: bytewise_FindShortestSeparator_def)

lemma bytewise_separator:
  "slice_compare a b < 0 \<Longrightarrow>
   slice_compare a (bytewise_FindShortestSeparator a b) \<le> 0 \<and>
   slice_compare (bytewise_FindShortestSeparator a b) b < 0"
proof (induction a b rule: list_induct2')
  case (4 x xs y ys)
  show ?case
  proof (cases "x = y")
    case True
    with 4 show ?thesis
      by (simp add: separator_Cons_same cmp_simps)
  next
    case False
    with 4 have "x < y"
      by (auto simp: cmp_simps split: if_splits)
    with False show ?thesis
      using byte_less_Suc [of x] byte_Suc_less [of x y] slice_compare_eq [of xs xs]
      by (auto simp: separator_Cons_diff cmp_simps)
  qed
qed (auto simp: cmp_simps)

lemma bytewise_successor: "slice_compare a (bytewise_FindShortSuccessor a) \<le> 0"
proof (induction a)
  case (Cons b bs)
  then show ?case
    using byte_not_max [of b] byte_less_Suc [of b] by (auto simp: cmp_simps)
qed (simp add: cmp_simps)

lemma successor_shorter: "length (bytewise_FindShortSuccessor a) \<le> length a"
  by (induction a) auto

lemma separator_same: "bytewise_FindShortestSeparator a a = a"
  by (induction a) (simp_all add: separator_Cons_same)

interpretation bytewise: comparator_contract "\<lambda>_. True" BytewiseComparator
  by unfold_locales
     (auto simp: BytewiseComparator_def slice_compare_eq bytewise_separator bytewise_successor
       separator_same        dest: slice_compare_anti [THEN iffD1] slice_compare_anti [THEN iffD2] slice_compare_trans)

end
