(* ===== verification/DbFormat.thy ===== *)
theory DbFormat
  imports Coding Comparator
begin

text \<open>
  Internal keys (\<^verbatim>\<open>db/dbformat.h\<close>, \<^verbatim>\<open>db/dbformat.cc\<close>): a user key followed by an
  eight-byte tag that packs the sequence number and the value type; the
  comparator that orders them by increasing user key and decreasing tag; the
  key a lookup builds.
\<close>

unbundle bit_operations_syntax

section \<open>Definitions\<close>

definition kNumLevels :: nat where "kNumLevels = 7"
definition kL0_CompactionTrigger :: nat where "kL0_CompactionTrigger = 4"
definition kMaxMemCompactLevel :: nat where "kMaxMemCompactLevel = 2"

datatype ValueType = kTypeDeletion | kTypeValue

definition kValueTypeForSeek :: ValueType where
  "kValueTypeForSeek = kTypeValue"

primrec type_code :: "ValueType \<Rightarrow> uint64" where
  "type_code kTypeDeletion = 0x0"
| "type_code kTypeValue = 0x1"

type_synonym SequenceNumber = uint64

definition kMaxSequenceNumber :: SequenceNumber where
  "kMaxSequenceNumber = push_bit 56 1 - 1"

record ParsedInternalKey =
  user_key :: bytes
  seqno :: SequenceNumber
  vtype :: ValueType

definition PackSequenceAndType :: "uint64 \<Rightarrow> ValueType \<Rightarrow> uint64" where
  "PackSequenceAndType seq t = push_bit 8 seq OR type_code t"

definition InternalKeyEncodingLength :: "ParsedInternalKey \<Rightarrow> nat" where
  "InternalKeyEncodingLength key = length (user_key key) + 8"

definition AppendInternalKey :: "bytes \<Rightarrow> ParsedInternalKey \<Rightarrow> bytes" where
  "AppendInternalKey result key =
     PutFixed64 (result @ user_key key) (PackSequenceAndType (seqno key) (vtype key))"

definition ExtractUserKey :: "bytes \<Rightarrow> bytes" where
  "ExtractUserKey internal_key = take (length internal_key - 8) internal_key"

text \<open>The tag of an internal key, and its low byte as a value type; a byte that
  is no enumerator is \<open>None\<close>.\<close>

definition key_tag :: "bytes \<Rightarrow> uint64" where
  "key_tag internal_key = DecodeFixed64 (drop (length internal_key - 8) internal_key)"

definition ValueType_of_byte :: "byte \<Rightarrow> ValueType option" where
  "ValueType_of_byte c =
     (if c = 0 then Some kTypeDeletion else if c = 1 then Some kTypeValue else None)"

definition ExtractValueType :: "bytes \<Rightarrow> ValueType option" where
  "ExtractValueType internal_key = ValueType_of_byte (ucast (key_tag internal_key AND 0xff))"

definition ParseInternalKey :: "bytes \<Rightarrow> ParsedInternalKey option" where
  "ParseInternalKey internal_key =
     (let n = length internal_key in
      if n < 8 then None
      else
        let num = key_tag internal_key; c = ucast (num AND 0xff) in
        case ValueType_of_byte c of
          None \<Rightarrow> None
        | Some t \<Rightarrow>
            Some \<lparr> user_key = take (n - 8) internal_key, seqno = drop_bit 8 num, vtype = t \<rparr>)"

definition InternalKey :: "bytes \<Rightarrow> SequenceNumber \<Rightarrow> ValueType \<Rightarrow> bytes" where
  "InternalKey u s t = AppendInternalKey [] \<lparr> user_key = u, seqno = s, vtype = t \<rparr>"

definition InternalKeyCompare :: "comparator \<Rightarrow> bytes \<Rightarrow> bytes \<Rightarrow> int" where
  "InternalKeyCompare user_comparator akey bkey =
     (let r = Compare user_comparator (ExtractUserKey akey) (ExtractUserKey bkey) in
      if r = 0 then
        let anum = key_tag akey; bnum = key_tag bkey in
        if anum > bnum then - 1 else if anum < bnum then 1 else r
      else r)"

definition InternalFindShortestSeparator :: "comparator \<Rightarrow> bytes \<Rightarrow> bytes \<Rightarrow> bytes" where
  "InternalFindShortestSeparator user_comparator start limit =
     (let user_start = ExtractUserKey start; user_limit = ExtractUserKey limit;
          tmp = FindShortestSeparator user_comparator user_start user_limit
      in if length tmp < length user_start \<and> Compare user_comparator user_start tmp < 0
         then PutFixed64 tmp (PackSequenceAndType kMaxSequenceNumber kValueTypeForSeek)
         else start)"

definition InternalFindShortSuccessor :: "comparator \<Rightarrow> bytes \<Rightarrow> bytes" where
  "InternalFindShortSuccessor user_comparator key =
     (let ukey = ExtractUserKey key; tmp = FindShortSuccessor user_comparator ukey
      in if length tmp < length ukey \<and> Compare user_comparator ukey tmp < 0
         then PutFixed64 tmp (PackSequenceAndType kMaxSequenceNumber kValueTypeForSeek)
         else key)"

definition InternalKeyComparator :: "comparator \<Rightarrow> comparator" where
  "InternalKeyComparator user_comparator =
     \<lparr> Compare = InternalKeyCompare user_comparator,
       FindShortestSeparator = InternalFindShortestSeparator user_comparator,
       FindShortSuccessor = InternalFindShortSuccessor user_comparator \<rparr>"

text \<open>A lookup key: the whole buffer is the memtable key, the buffer without the
  leading length is the internal key, and that without the tag the user key.\<close>

record LookupKey =
  lk_prefix :: bytes
  lk_kstart :: bytes

definition new_LookupKey :: "bytes \<Rightarrow> SequenceNumber \<Rightarrow> LookupKey" where
  "new_LookupKey ukey s =
     (let usize = length ukey in
      \<lparr> lk_prefix = EncodeVarint32 (word_of_nat (usize + 8)),
        lk_kstart = ukey @ EncodeFixed64 (PackSequenceAndType s kValueTypeForSeek) \<rparr>)"

definition memtable_key :: "LookupKey \<Rightarrow> bytes" where
  "memtable_key k = lk_prefix k @ lk_kstart k"

definition internal_key :: "LookupKey \<Rightarrow> bytes" where
  "internal_key k = lk_kstart k"

definition lookup_user_key :: "LookupKey \<Rightarrow> bytes" where
  "lookup_user_key k = take (length (lk_kstart k) - 8) (lk_kstart k)"

section \<open>Tags\<close>

lemma kMaxSequenceNumber_eq: "kMaxSequenceNumber = 2 ^ 56 - 1"
  by (simp add: kMaxSequenceNumber_def push_bit_eq_mult)

lemma seq_le_max: "s \<le> kMaxSequenceNumber \<longleftrightarrow> unat s < 2 ^ 56"
  by (simp add: kMaxSequenceNumber_eq word_le_nat_alt) auto

lemma unat_pack:
  assumes "s \<le> kMaxSequenceNumber"
  shows "unat (PackSequenceAndType s t) = unat s * 256 + unat (type_code t)"
proof -
  have small: "unat s * 256 + 1 < 2 ^ 64"
    using assms by (simp add: seq_le_max)
  have "PackSequenceAndType s t = push_bit 8 s + type_code t"
    unfolding PackSequenceAndType_def
    by (rule disjunctive_add [symmetric]) (cases t, auto simp: bit_simps)
  also have "unat \<dots> = unat s * 256 + unat (type_code t)"
    using small by (cases t) (simp_all add: push_bit_eq_mult unat_word_ariths)
  finally show ?thesis .
qed

lemma pack_type: "(ucast (PackSequenceAndType s t) :: byte) = ucast (type_code t)"
  by (rule bit_word_eqI) (auto simp: PackSequenceAndType_def bit_simps)

lemma pack_seq:
  assumes "s \<le> kMaxSequenceNumber"
  shows "drop_bit 8 (PackSequenceAndType s t) = s"
proof -
  have "unat (drop_bit 8 (PackSequenceAndType s t)) = unat s"
    using unat_pack [OF assms, of t] by (cases t) (simp_all add: unat_drop_bit)
  then show ?thesis
    by (simp add: word_unat_eq_iff)
qed

lemma ValueType_of_byte_code [simp]: "ValueType_of_byte (ucast (type_code t)) = Some t"
  by (cases t) (simp_all add: ValueType_of_byte_def)

section \<open>Parsing and printing\<close>

lemma AppendInternalKey_eq:
  "AppendInternalKey r k = r @ user_key k @ EncodeFixed64 (PackSequenceAndType (seqno k) (vtype k))"
  by (simp add: AppendInternalKey_def PutFixed64_def)

lemma InternalKey_eq: "InternalKey u s t = u @ EncodeFixed64 (PackSequenceAndType s t)"
  by (simp add: InternalKey_def AppendInternalKey_eq)

lemma ExtractUserKey_append [simp]: "ExtractUserKey (u @ EncodeFixed64 tag) = u"
  by (simp add: ExtractUserKey_def)

lemma key_tag_append [simp]: "key_tag (u @ EncodeFixed64 tag) = tag"
  by (simp add: key_tag_def)

lemma ExtractUserKey_InternalKey [simp]: "ExtractUserKey (InternalKey u s t) = u"
  by (simp add: InternalKey_eq)

lemma length_InternalKey [simp]: "length (InternalKey u s t) = length u + 8"
  by (simp add: InternalKey_eq)

lemma ExtractValueType_InternalKey [simp]: "ExtractValueType (InternalKey u s t) = Some t"
  by (simp add: ExtractValueType_def InternalKey_eq pack_type)

lemma Parse_InternalKey:
  "s \<le> kMaxSequenceNumber \<Longrightarrow>
   ParseInternalKey (InternalKey u s t) = Some \<lparr> user_key = u, seqno = s, vtype = t \<rparr>"
  by (simp add: ParseInternalKey_def InternalKey_eq Let_def pack_type pack_seq)

lemma key_split: "8 \<le> length k \<Longrightarrow> ExtractUserKey k @ EncodeFixed64 (key_tag k) = k"
  by (simp add: ExtractUserKey_def key_tag_def EncodeFixed64_Decode)

lemma pack_parse: "ValueType_of_byte (ucast tag) = Some t \<Longrightarrow> PackSequenceAndType (drop_bit 8 tag) t = tag"
proof -
  assume "ValueType_of_byte (ucast tag) = Some t"
  then have "(ucast tag :: byte) = ucast (type_code t)"
    by (auto simp: ValueType_of_byte_def split: if_splits)
  then have "bit (ucast tag :: byte) n \<longleftrightarrow> bit (ucast (type_code t) :: byte) n" for n
    by simp
  then have low: "n < 8 \<Longrightarrow> bit tag n \<longleftrightarrow> bit (type_code t) n" for n
    by (auto simp: bit_ucast_iff)
  have high: "8 \<le> n \<Longrightarrow> bit (type_code t) n \<longleftrightarrow> False" for n
    by (cases t) (auto simp: bit_1_iff)
  show ?thesis
  proof (rule bit_word_eqI)
    fix n
    assume "n < LENGTH(64)"
    then show "bit (PackSequenceAndType (drop_bit 8 tag) t) n = bit tag n"
      using low [of n] high [of n]
      by (cases "n < 8")
         (auto simp: PackSequenceAndType_def bit_or_iff bit_push_bit_iff bit_drop_bit_eq)
  qed
qed

lemma InternalKey_Parse:
  assumes "ParseInternalKey k = Some p"
  shows "InternalKey (user_key p) (seqno p) (vtype p) = k" "seqno p \<le> kMaxSequenceNumber"
proof -
  from assms have len: "8 \<le> length k"
    and p: "user_key p = ExtractUserKey k" "seqno p = drop_bit 8 (key_tag k)"
    and t: "ValueType_of_byte (ucast (key_tag k)) = Some (vtype p)"
    by (auto simp: ParseInternalKey_def Let_def ExtractUserKey_def split: if_splits option.splits)
  show "InternalKey (user_key p) (seqno p) (vtype p) = k"
    using pack_parse [OF t] key_split [OF len] by (simp add: InternalKey_eq p)
  show "seqno p \<le> kMaxSequenceNumber"
    using unsigned_less [where ?'a = nat, of "key_tag k"] by (simp add: p seq_le_max unat_drop_bit less_mult_imp_div_less)
qed


section \<open>The order of internal keys\<close>

text \<open>The comparator of internal keys inherits the contract of the user
  comparator, on keys that carry a tag.\<close>

lemma tag_less_iff:
  assumes "s \<le> kMaxSequenceNumber" "s' \<le> kMaxSequenceNumber"
  shows "PackSequenceAndType s t < PackSequenceAndType s' t' \<longleftrightarrow>
    s < s' \<or> s = s' \<and> type_code t < type_code t'"
proof -
  have le: "unat (type_code x) \<le> 1" for x
    by (cases x) auto
  show ?thesis
    using le [of t] le [of t']
    by (auto simp: word_less_nat_alt word_unat_eq_iff unat_pack assms)
qed

lemma InternalKeyCompare_append [cmp_simps]:
  "InternalKeyCompare c (u @ EncodeFixed64 x) (v @ EncodeFixed64 y) =
     (if Compare c u v = 0 then if y < x then - 1 else if x < y then 1 else 0
      else Compare c u v)"
  by (simp add: InternalKeyCompare_def Let_def)

lemma max_tag: "PackSequenceAndType s t \<le> PackSequenceAndType kMaxSequenceNumber kValueTypeForSeek"
  if "s \<le> kMaxSequenceNumber"
  using that tag_less_iff [of kMaxSequenceNumber s kValueTypeForSeek t]
  by (cases t) (auto simp: not_less [symmetric] kValueTypeForSeek_def)

lemma key_cases:
  assumes "8 \<le> length k"
  obtains u x where "k = u @ EncodeFixed64 x"
  using key_split [OF assms] by metis

lemma Compare_InternalKeyComparator [cmp_simps]:
  "Compare (InternalKeyComparator c) (u @ EncodeFixed64 x) (v @ EncodeFixed64 y) =
     (if Compare c u v = 0 then if y < x then - 1 else if x < y then 1 else 0
      else Compare c u v)"
  by (simp add: InternalKeyComparator_def InternalKeyCompare_append)

abbreviation max_suffix :: bytes where
  "max_suffix \<equiv> EncodeFixed64 (PackSequenceAndType kMaxSequenceNumber kValueTypeForSeek)"

locale user_comparator = comparator_contract "\<lambda>_. True" c for c
begin

lemma internal_key_order: "key_order (\<lambda>k. 8 \<le> length k) (Compare (InternalKeyComparator c))"
proof
  fix a b :: bytes
  assume "8 \<le> length a" "8 \<le> length b"
  then obtain u x v y where [simp]: "a = u @ EncodeFixed64 x" "b = v @ EncodeFixed64 y"
    by (meson key_cases)
  show "Compare (InternalKeyComparator c) a b = 0 \<longleftrightarrow> a = b"
    using cmp_eq [of u v] by (auto simp: cmp_simps)
  show "Compare (InternalKeyComparator c) a b < 0 \<longleftrightarrow> 0 < Compare (InternalKeyComparator c) b a"
    using cmp_anti [of u v] cmp_eq [of u v] cmp_eq [of v u] by (auto simp: cmp_simps)
next
  fix a b d :: bytes
  assume "8 \<le> length a" "8 \<le> length b" "8 \<le> length d"
  then obtain u x v y w z where abd: "a = u @ EncodeFixed64 x" "b = v @ EncodeFixed64 y" "d = w @ EncodeFixed64 z"
    by (meson key_cases)
  assume "Compare (InternalKeyComparator c) a b < 0" "Compare (InternalKeyComparator c) b d < 0"
  then show "Compare (InternalKeyComparator c) a d < 0"
    using cmp_trans [of u v w] cmp_eq [of u v] cmp_eq [of v w] cmp_eq [of u w]
    by (auto simp: abd cmp_simps split: if_splits)
qed

lemma internal_separator:
  "Compare (InternalKeyComparator c) (u @ EncodeFixed64 x) (v @ EncodeFixed64 y) < 0 \<Longrightarrow>
   InternalFindShortestSeparator c (u @ EncodeFixed64 x) (v @ EncodeFixed64 y) = u @ EncodeFixed64 x \<or>
   InternalFindShortestSeparator c (u @ EncodeFixed64 x) (v @ EncodeFixed64 y) =
     FindShortestSeparator c u v @ max_suffix \<and>
   Compare c u (FindShortestSeparator c u v) < 0 \<and> Compare c (FindShortestSeparator c u v) v < 0"
  using sep_between [of u v] sep_same [of u] cmp_eq [of u v]
  by (auto simp: InternalFindShortestSeparator_def PutFixed64_def Let_def cmp_simps split: if_splits)

lemma internal_successor:
  "InternalFindShortSuccessor c (u @ EncodeFixed64 x) = u @ EncodeFixed64 x \<or>
   InternalFindShortSuccessor c (u @ EncodeFixed64 x) = FindShortSuccessor c u @ max_suffix \<and>
   Compare c u (FindShortSuccessor c u) < 0"
  by (auto simp: InternalFindShortSuccessor_def PutFixed64_def Let_def)

lemma internal_contract: "comparator_contract (\<lambda>k. 8 \<le> length k) (InternalKeyComparator c)"
proof (intro comparator_contract.intro internal_key_order comparator_contract_axioms.intro)
  fix a b :: bytes
  assume "8 \<le> length a" "8 \<le> length b"
  then obtain u x v y where ab: "a = u @ EncodeFixed64 x" "b = v @ EncodeFixed64 y"
    by (meson key_cases)
  have refl: "Compare c u u = 0"
    by (simp add: cmp_refl)
  show "8 \<le> length (FindShortestSeparator (InternalKeyComparator c) a b)"
    by (auto simp: ab InternalKeyComparator_def InternalFindShortestSeparator_def PutFixed64_def Let_def)
  assume less: "Compare (InternalKeyComparator c) a b < 0"
  show "Compare (InternalKeyComparator c) a (FindShortestSeparator (InternalKeyComparator c) a b) \<le> 0 \<and>
        Compare (InternalKeyComparator c) (FindShortestSeparator (InternalKeyComparator c) a b) b < 0"
  proof (cases "InternalFindShortestSeparator c a b = a")
    case True
    with less refl show ?thesis
      by (simp add: ab InternalKeyComparator_def InternalKeyCompare_append)
  next
    case False
    with internal_separator [OF less [unfolded ab]] show ?thesis
      by (simp add: ab InternalKeyComparator_def InternalKeyCompare_append)
  qed
next
  fix a :: bytes
  assume "8 \<le> length a"
  then obtain u x where a: "a = u @ EncodeFixed64 x"
    by (meson key_cases)
  show "FindShortestSeparator (InternalKeyComparator c) a a = a"
    using sep_same [of u] by (simp add: a InternalKeyComparator_def InternalFindShortestSeparator_def Let_def)
  show "Compare (InternalKeyComparator c) a (FindShortSuccessor (InternalKeyComparator c) a) \<le> 0"
    using internal_successor [of u x] cmp_refl [of u]
    by (auto simp: a InternalKeyComparator_def InternalKeyCompare_append)
  show "8 \<le> length (FindShortSuccessor (InternalKeyComparator c) a)"
    by (auto simp: a InternalKeyComparator_def InternalFindShortSuccessor_def PutFixed64_def Let_def)
qed

end

sublocale user_comparator \<subseteq> ikey: comparator_contract "\<lambda>k. 8 \<le> length k" "InternalKeyComparator c"
  by (rule internal_contract)

interpretation bytewise_keys: user_comparator BytewiseComparator
  by unfold_locales

section \<open>Lookup keys\<close>

context user_comparator
begin

lemma ikey_less_iff:
  assumes "s \<le> kMaxSequenceNumber" "s' \<le> kMaxSequenceNumber"
  shows "Compare (InternalKeyComparator c) (InternalKey u s t) (InternalKey v s' t') < 0 \<longleftrightarrow>
    Compare c u v < 0 \<or> u = v \<and> (s' < s \<or> s = s' \<and> type_code t' < type_code t)"
  using cmp_eq [of u v] tag_less_iff [OF assms, of t t'] tag_less_iff [OF assms(2,1), of t' t]
  by (auto simp: InternalKey_eq cmp_simps)

end

lemma lookup_internal_key [simp]: "internal_key (new_LookupKey u s) = InternalKey u s kValueTypeForSeek"
  by (simp add: internal_key_def new_LookupKey_def InternalKey_eq)

lemma lookup_user_key [simp]: "lookup_user_key (new_LookupKey u s) = u"
  by (simp add: lookup_user_key_def new_LookupKey_def)

lemma memtable_key_prefixed:
  "memtable_key (new_LookupKey u s) = PutLengthPrefixedSlice [] (InternalKey u s kValueTypeForSeek)"
  by (simp add: memtable_key_def new_LookupKey_def PutLengthPrefixedSlice_def PutVarint32_def InternalKey_eq)

section \<open>Properties\<close>

text \<open>(C16) Internal keys round-trip: parsing the encoding of a user key, a sequence
  number of at most 56 bits and a value type gives these three back, and a byte
  string that parses is the encoding of what it parses to.\<close>

theorem internal_key_roundtrip:
  "(s \<le> kMaxSequenceNumber \<longrightarrow>
     ParseInternalKey (AppendInternalKey [] \<lparr> user_key = u, seqno = s, vtype = t \<rparr>) =
       Some \<lparr> user_key = u, seqno = s, vtype = t \<rparr>) \<and>
   (ParseInternalKey k = Some p \<longrightarrow> AppendInternalKey [] p = k \<and> seqno p \<le> kMaxSequenceNumber)"
  using Parse_InternalKey [of s u t] InternalKey_Parse [of k p]
  by (auto simp: InternalKey_eq AppendInternalKey_eq)

theorem internal_key_roundtrip_witness:
  "ParseInternalKey (AppendInternalKey [] \<lparr> user_key = [7, 8], seqno = 5, vtype = kTypeValue \<rparr>) =
     Some \<lparr> user_key = [7, 8], seqno = 5, vtype = kTypeValue \<rparr>"
  using internal_key_roundtrip [of 5 "[7, 8]" kTypeValue]
  by (simp add: kMaxSequenceNumber_eq)

text \<open>The order the whole store is sorted by: internal keys of well-formed
  sequence numbers compare by user key first, then by decreasing sequence
  number, then by decreasing type.\<close>

lemma internal_key_order_spec:
  assumes "s \<le> kMaxSequenceNumber" "s' \<le> kMaxSequenceNumber"
  shows "InternalKeyCompare BytewiseComparator (InternalKey u s t) (InternalKey v s' t') < 0 \<longleftrightarrow>
    slice_compare u v < 0 \<or> u = v \<and> (s' < s \<or> s = s' \<and> type_code t' < type_code t)"
  using bytewise_keys.ikey_less_iff [OF assms, of u t v t']
  by (simp add: InternalKeyComparator_def BytewiseComparator_def)

text \<open>(C17) Shortening an index key keeps it usable: for tagged keys \<open>a < b\<close> the
  separator lies in \<open>[a, b)\<close>, and the successor of a key is not below it.\<close>

theorem internal_separator_between:
  assumes "8 \<le> length a" "8 \<le> length b" "InternalKeyCompare BytewiseComparator a b < 0"
  shows "InternalKeyCompare BytewiseComparator a (InternalFindShortestSeparator BytewiseComparator a b) \<le> 0 \<and>
    InternalKeyCompare BytewiseComparator (InternalFindShortestSeparator BytewiseComparator a b) b < 0 \<and>
    InternalKeyCompare BytewiseComparator a (InternalFindShortSuccessor BytewiseComparator a) \<le> 0"
  using bytewise_keys.ikey.sep_between [of a b] bytewise_keys.ikey.succ_ge [of a] assms
  by (simp add: InternalKeyComparator_def)

theorem internal_separator_between_witness:
  "InternalKeyCompare BytewiseComparator (InternalKey [1, 1] 9 kTypeValue)
     (InternalFindShortestSeparator BytewiseComparator (InternalKey [1, 1] 9 kTypeValue)
        (InternalKey [5] 4 kTypeValue)) \<le> 0"
  by (rule internal_separator_between [THEN conjunct1]) code_simp+

text \<open>(C18) A lookup at snapshot \<open>s\<close> starts at the right entry: among entries of
  the same user key, exactly those with a sequence number above \<open>s\<close> sort before
  the lookup key, and its memtable form is the length-prefixed internal key.\<close>

theorem lookup_key_splits_versions:
  assumes "s \<le> kMaxSequenceNumber" "s' \<le> kMaxSequenceNumber"
  shows "(InternalKeyCompare BytewiseComparator (InternalKey u s' t) (internal_key (new_LookupKey u s)) < 0
      \<longleftrightarrow> s < s') \<and>
    memtable_key (new_LookupKey u s) = PutLengthPrefixedSlice [] (internal_key (new_LookupKey u s))"
  using bytewise_keys.ikey_less_iff [OF assms(2,1), of u t u kValueTypeForSeek] slice_compare_eq [of u u]
  by (cases t) (auto simp: InternalKeyComparator_def BytewiseComparator_def kValueTypeForSeek_def
      memtable_key_prefixed)

theorem lookup_key_splits_versions_witness:
  "InternalKeyCompare BytewiseComparator (InternalKey [3] 8 kTypeValue) (internal_key (new_LookupKey [3] 7)) < 0"
  using lookup_key_splits_versions [of 7 8 "[3]" kTypeValue]
  by (simp add: kMaxSequenceNumber_eq)

end
