(* ===== verification/Status.thy ===== *)
theory Status
  imports Coding
begin

text \<open>
  Result codes (\<^verbatim>\<open>include/leveldb/status.h\<close>, \<^verbatim>\<open>util/status.cc\<close>).  A status is the
  pointer \<^verbatim>\<open>state_\<close>: \<open>None\<close> for success, otherwise the heap array that holds the
  length of the message, the code and the message.
\<close>

section \<open>Definitions\<close>

datatype Code = kOk | kNotFound | kCorruption | kNotSupported | kInvalidArgument | kIOError

primrec code_byte :: "Code \<Rightarrow> byte" where
  "code_byte kOk = 0"
| "code_byte kNotFound = 1"
| "code_byte kCorruption = 2"
| "code_byte kNotSupported = 3"
| "code_byte kInvalidArgument = 4"
| "code_byte kIOError = 5"

type_synonym Status = "bytes option"

definition new_Status :: "Code \<Rightarrow> bytes \<Rightarrow> bytes \<Rightarrow> Status" where
  "new_Status c msg msg2 =
     (let len1 = word_of_nat (length msg) :: uint32; len2 = word_of_nat (length msg2) :: uint32;
          size = len1 + (if len2 \<noteq> 0 then 2 + len2 else 0)
      in Some (EncodeFixed32 size @ [code_byte c] @ take (unat len1) msg @
           (if len2 \<noteq> 0 then lit '': '' @ take (unat len2) msg2 else [])))"

abbreviation OK :: Status where "OK \<equiv> None"

definition NotFound :: "bytes \<Rightarrow> bytes \<Rightarrow> Status" where
  "NotFound = new_Status kNotFound"

definition Corruption :: "bytes \<Rightarrow> bytes \<Rightarrow> Status" where
  "Corruption = new_Status kCorruption"

definition NotSupported :: "bytes \<Rightarrow> bytes \<Rightarrow> Status" where
  "NotSupported = new_Status kNotSupported"

definition InvalidArgument :: "bytes \<Rightarrow> bytes \<Rightarrow> Status" where
  "InvalidArgument = new_Status kInvalidArgument"

definition IOError :: "bytes \<Rightarrow> bytes \<Rightarrow> Status" where
  "IOError = new_Status kIOError"

definition ok :: "Status \<Rightarrow> bool" where
  "ok s \<longleftrightarrow> s = None"

text \<open>The code byte \<^verbatim>\<open>state_[4]\<close>, or that of \<^verbatim>\<open>kOk\<close> for the null state.\<close>

definition code :: "Status \<Rightarrow> byte" where
  "code s = (case s of None \<Rightarrow> code_byte kOk | Some st \<Rightarrow> st ! 4)"

definition IsNotFound :: "Status \<Rightarrow> bool" where
  "IsNotFound s \<longleftrightarrow> code s = code_byte kNotFound"

definition IsCorruption :: "Status \<Rightarrow> bool" where
  "IsCorruption s \<longleftrightarrow> code s = code_byte kCorruption"

definition IsIOError :: "Status \<Rightarrow> bool" where
  "IsIOError s \<longleftrightarrow> code s = code_byte kIOError"

text \<open>\<^verbatim>\<open>CopyState\<close> copies \<^verbatim>\<open>size + 5\<close> bytes of the array.\<close>

definition CopyState :: "bytes \<Rightarrow> bytes" where
  "CopyState state = take (unat (DecodeFixed32 state) + 5) state"

definition ToString :: "Status \<Rightarrow> bytes" where
  "ToString s =
     (case s of
        None \<Rightarrow> lit ''OK''
      | Some state \<Rightarrow>
          let c = code s;
              type = (if c = code_byte kOk then lit ''OK''
                      else if c = code_byte kNotFound then lit ''NotFound: ''
                      else if c = code_byte kCorruption then lit ''Corruption: ''
                      else if c = code_byte kNotSupported then lit ''Not implemented: ''
                      else if c = code_byte kInvalidArgument then lit ''Invalid argument: ''
                      else if c = code_byte kIOError then lit ''IO error: ''
                      else lit ''Unknown code('' @ decimal_int (sint c) @ lit ''): '')
          in type @ take (unat (DecodeFixed32 state)) (drop 5 state))"

section \<open>Lemmas\<close>

lemma length_lit [simp]: "length (lit s) = length s"
  by (simp add: lit_def)

lemma new_Status_not_OK [simp]: "new_Status c m m2 \<noteq> None" "None \<noteq> new_Status c m m2"
  by (simp_all add: new_Status_def Let_def)

lemma code_new_Status [simp]: "code (new_Status c m m2) = code_byte c"
  by (simp add: code_def new_Status_def Let_def nth_append)

lemmas status_defs = NotFound_def Corruption_def NotSupported_def InvalidArgument_def IOError_def

lemma status_not_OK [simp]:
  "NotFound m n \<noteq> None" "Corruption m n \<noteq> None" "NotSupported m n \<noteq> None"
  "InvalidArgument m n \<noteq> None" "IOError m n \<noteq> None"
  by (simp_all only: status_defs new_Status_not_OK not_False_eq_True)

lemma status_kinds [simp]:
  "IsNotFound (NotFound m n)" "IsCorruption (Corruption m n)" "IsIOError (IOError m n)"
  "\<not> IsNotFound (Corruption m n)" "\<not> IsCorruption (NotFound m n)" "\<not> IsNotFound OK"
  "\<not> IsCorruption OK" "\<not> IsNotFound (IOError m n)"
  by (simp_all add: IsNotFound_def IsCorruption_def IsIOError_def status_defs)
     (simp_all add: code_def)

text \<open>Copying a status keeps it: the array is exactly as long as its header says.\<close>

lemma CopyState_new_Status:
  assumes "length m + length n + 2 < 2 ^ 32" "new_Status c m n = Some st"
  shows "CopyState st = st"
proof -
  have "unat (word_of_nat (length m) + (2 + word_of_nat (length n)) :: uint32) = length m + (2 + length n)"
    using assms(1) by (simp add: unat_word_ariths)
  moreover have "n \<noteq> [] \<Longrightarrow> (word_of_nat (length n) :: uint32) \<noteq> 0"
    using assms(1) by (simp add: word_unat_eq_iff)
  ultimately show ?thesis
    using assms by (cases "n = []") (auto simp: CopyState_def new_Status_def Let_def)
qed

end
