(* ===== verification/WriteBatch.thy ===== *)
theory WriteBatch
  imports DbFormat Status
begin

text \<open>
  Write batches (\<^verbatim>\<open>db/write_batch.cc\<close>).  The state of a batch is the byte string
  \<^verbatim>\<open>rep_\<close>; a handler is a pair of state transformers, so that iterating over a
  batch threads the handler's state.
\<close>

section \<open>Definitions\<close>

definition kHeader :: nat where "kHeader = 12"

type_synonym WriteBatch = bytes

record 'h Handler =
  h_Put :: "bytes \<Rightarrow> bytes \<Rightarrow> 'h \<Rightarrow> 'h"
  h_Delete :: "bytes \<Rightarrow> 'h \<Rightarrow> 'h"

text \<open>\<^verbatim>\<open>resize(kHeader)\<close> fills with zero bytes.\<close>

definition Clear :: "WriteBatch \<Rightarrow> WriteBatch" where
  "Clear rep = replicate kHeader 0"

definition new_WriteBatch :: WriteBatch where
  "new_WriteBatch = Clear []"

definition Count :: "WriteBatch \<Rightarrow> int" where
  "Count b = sint (DecodeFixed32 (drop 8 b))"

definition SetCount :: "WriteBatch \<Rightarrow> int \<Rightarrow> WriteBatch" where
  "SetCount b n = take 8 b @ EncodeFixed32 (word_of_int n) @ drop 12 b"

definition Sequence :: "WriteBatch \<Rightarrow> SequenceNumber" where
  "Sequence b = DecodeFixed64 b"

definition SetSequence :: "WriteBatch \<Rightarrow> SequenceNumber \<Rightarrow> WriteBatch" where
  "SetSequence b seq = EncodeFixed64 seq @ drop 8 b"

definition Put :: "WriteBatch \<Rightarrow> bytes \<Rightarrow> bytes \<Rightarrow> WriteBatch" where
  "Put b key value =
     (let b = SetCount b (Count b + 1);
          b = b @ [ucast (type_code kTypeValue)];
          b = PutLengthPrefixedSlice b key
      in PutLengthPrefixedSlice b value)"

definition Delete :: "WriteBatch \<Rightarrow> bytes \<Rightarrow> WriteBatch" where
  "Delete b key =
     (let b = SetCount b (Count b + 1);
          b = b @ [ucast (type_code kTypeDeletion)]
      in PutLengthPrefixedSlice b key)"

text \<open>The loop of \<^verbatim>\<open>Iterate\<close>: the remaining input, the count so far and the
  handler state; it ends with the count, or with the status of a malformed
  record.\<close>

function Iterate_loop :: "'h Handler \<Rightarrow> bytes \<Rightarrow> int \<Rightarrow> 'h \<Rightarrow> (Status + int) \<times> 'h" where
  "Iterate_loop handler input found h =
     (if input = [] then (Inr found, h)
      else
        let found = found + 1; tag = input ! 0; input = remove_prefix 1 input in
        if tag = ucast (type_code kTypeValue) then
          (case GetLengthPrefixedSlice input of
             Some (key, input) \<Rightarrow>
               (case GetLengthPrefixedSlice input of
                  Some (value, input) \<Rightarrow> Iterate_loop handler input found (h_Put handler key value h)
                | None \<Rightarrow> (Inl (Corruption (lit ''bad WriteBatch Put'') []), h))
           | None \<Rightarrow> (Inl (Corruption (lit ''bad WriteBatch Put'') []), h))
        else if tag = ucast (type_code kTypeDeletion) then
          (case GetLengthPrefixedSlice input of
             Some (key, input) \<Rightarrow> Iterate_loop handler input found (h_Delete handler key h)
           | None \<Rightarrow> (Inl (Corruption (lit ''bad WriteBatch Delete'') []), h))
        else (Inl (Corruption (lit ''unknown WriteBatch tag'') []), h))"
  by auto
termination
  by (relation "measure (\<lambda>(_, input, _, _). length input)")
     (auto simp: remove_prefix_def dest!: GetLengthPrefixedSlice_shorter)

definition Iterate :: "'h Handler \<Rightarrow> WriteBatch \<Rightarrow> 'h \<Rightarrow> Status \<times> 'h" where
  "Iterate handler rep h =
     (if length rep < kHeader then (Corruption (lit ''malformed WriteBatch (too small)'') [], h)
      else
        case Iterate_loop handler (remove_prefix kHeader rep) 0 h of
          (Inl s, h) \<Rightarrow> (s, h)
        | (Inr found, h) \<Rightarrow>
            if found \<noteq> Count rep then (Corruption (lit ''WriteBatch has wrong count'') [], h)
            else (OK, h))"

text \<open>The handler that inserts into a memtable; \<open>add\<close> is \<^verbatim>\<open>MemTable::Add\<close> and the
  state holds the memtable and the next sequence number.\<close>

definition MemTableInserter ::
    "(SequenceNumber \<Rightarrow> ValueType \<Rightarrow> bytes \<Rightarrow> bytes \<Rightarrow> 'm \<Rightarrow> 'm) \<Rightarrow> ('m \<times> SequenceNumber) Handler" where
  "MemTableInserter add =
     \<lparr> h_Put = (\<lambda>key value (mem, sequence). (add sequence kTypeValue key value mem, sequence + 1)),
       h_Delete = (\<lambda>key (mem, sequence). (add sequence kTypeDeletion key [] mem, sequence + 1)) \<rparr>"

definition InsertInto ::
    "(SequenceNumber \<Rightarrow> ValueType \<Rightarrow> bytes \<Rightarrow> bytes \<Rightarrow> 'm \<Rightarrow> 'm) \<Rightarrow> WriteBatch \<Rightarrow> 'm \<Rightarrow> Status \<times> 'm" where
  "InsertInto add b memtable =
     (case Iterate (MemTableInserter add) b (memtable, Sequence b) of (s, (mem, _)) \<Rightarrow> (s, mem))"

definition SetContents :: "WriteBatch \<Rightarrow> bytes \<Rightarrow> WriteBatch" where
  "SetContents b contents = contents"

definition Append :: "WriteBatch \<Rightarrow> WriteBatch \<Rightarrow> WriteBatch" where
  "Append dst src = SetCount dst (Count dst + Count src) @ drop kHeader src"

declare Iterate_loop.simps [simp del]

section \<open>Abstract batches\<close>

text \<open>A batch stands for the list of its operations, each written as one record.\<close>

datatype op = OpPut bytes bytes | OpDelete bytes

primrec op_ok :: "op \<Rightarrow> bool" where
  "op_ok (OpPut k v) \<longleftrightarrow> length k < 2 ^ 32 \<and> length v < 2 ^ 32"
| "op_ok (OpDelete k) \<longleftrightarrow> length k < 2 ^ 32"

primrec op_record :: "op \<Rightarrow> bytes" where
  "op_record (OpPut k v) = 1 # PutLengthPrefixedSlice [] k @ PutLengthPrefixedSlice [] v"
| "op_record (OpDelete k) = 0 # PutLengthPrefixedSlice [] k"

primrec run_op :: "'h Handler \<Rightarrow> op \<Rightarrow> 'h \<Rightarrow> 'h" where
  "run_op handler (OpPut k v) h = h_Put handler k v h"
| "run_op handler (OpDelete k) h = h_Delete handler k h"

primrec add_op :: "WriteBatch \<Rightarrow> op \<Rightarrow> WriteBatch" where
  "add_op b (OpPut k v) = Put b k v"
| "add_op b (OpDelete k) = Delete b k"

definition batch_holds :: "WriteBatch \<Rightarrow> op list \<Rightarrow> bool" where
  "batch_holds b ops \<longleftrightarrow> length ops < 2 ^ 31 \<and> list_all op_ok ops \<and>
     (\<exists>hdr. length hdr = 8 \<and> b = hdr @ EncodeFixed32 (word_of_nat (length ops)) @ concat (map op_record ops))"

lemma Iterate_loop_Nil: "Iterate_loop handler [] found h = (Inr found, h)"
  by (simp add: Iterate_loop.simps)

lemma Iterate_loop_record:
  "op_ok p \<Longrightarrow> Iterate_loop handler (op_record p @ rest) found h =
     Iterate_loop handler rest (found + 1) (run_op handler p h)"
  by (cases p; subst Iterate_loop.simps) (simp_all add: remove_prefix_def Let_def)

lemma Iterate_loop_records:
  "list_all op_ok ops \<Longrightarrow> Iterate_loop handler (concat (map op_record ops) @ rest) found h =
     Iterate_loop handler rest (found + int (length ops)) (fold (run_op handler) ops h)"
  by (induction ops arbitrary: found h) (simp_all add: Iterate_loop_record add.assoc)

lemma sint_count: "n < 2 ^ 31 \<Longrightarrow> sint (word_of_nat n :: uint32) = int n"
  by (simp add: signed_of_nat signed_take_bit_int_eq_self)

lemma Count_holds: "batch_holds b ops \<Longrightarrow> Count b = int (length ops)"
  by (auto simp: batch_holds_def Count_def sint_count)

lemma holds_new: "batch_holds new_WriteBatch []"
proof -
  have "new_WriteBatch = replicate 8 0 @ EncodeFixed32 0"
    by code_simp
  then show ?thesis
    by (auto simp: batch_holds_def intro!: exI [of _ "replicate 8 0"])
qed

lemma holds_add:
  assumes "batch_holds b ops" "op_ok p" "length ops + 1 < 2 ^ 31"
  shows "batch_holds (add_op b p) (ops @ [p])"
proof -
  obtain hdr where hdr: "length hdr = 8"
    "b = hdr @ EncodeFixed32 (word_of_nat (length ops)) @ concat (map op_record ops)"
    using assms(1) by (auto simp: batch_holds_def)
  have "add_op b p = hdr @ EncodeFixed32 (word_of_nat (length (ops @ [p]))) @
      concat (map op_record (ops @ [p]))"
    using Count_holds [OF assms(1)] hdr
    by (cases p) (simp_all add: Put_def Delete_def Let_def SetCount_def PutLengthPrefixedSlice_append [of "_ @ _"]
        PutLengthPrefixedSlice_append [of "_ # _"] add.commute [of 1])
  then show ?thesis
    using assms hdr(1) unfolding batch_holds_def by (auto simp: list_all_append)
qed

lemma holds_append:
  assumes "batch_holds b ops" "batch_holds c ops'" "length ops + length ops' < 2 ^ 31"
  shows "batch_holds (Append b c) (ops @ ops')"
  using assms Count_holds [OF assms(1)] Count_holds [OF assms(2)]
  by (auto simp: batch_holds_def Append_def SetCount_def kHeader_def)

lemma holds_SetSequence: "batch_holds b ops \<Longrightarrow> batch_holds (SetSequence b s) ops"
  by (auto simp: batch_holds_def SetSequence_def)

lemma Iterate_holds:
  "batch_holds b ops \<Longrightarrow> Iterate handler b h = (OK, fold (run_op handler) ops h)"
  using Iterate_loop_records [of ops handler "[]" 0 h] Count_holds [of b ops]
  by (auto simp: batch_holds_def Iterate_def kHeader_def remove_prefix_def Iterate_loop_Nil)

lemma holds_build:
  "list_all op_ok ops \<Longrightarrow> length ops < 2 ^ 31 \<Longrightarrow> batch_holds (foldl add_op new_WriteBatch ops) ops"
  by (induction ops rule: rev_induct) (simp_all add: holds_new holds_add)

lemma Sequence_Put: "8 \<le> length b \<Longrightarrow> Sequence (Put b k v) = Sequence b"
  by (simp add: Sequence_def Put_def SetCount_def DecodeFixed64_def DecodeFixed32_def nth_append
      PutLengthPrefixedSlice_def PutVarint32_def)

lemma Sequence_new_WriteBatch: "Sequence new_WriteBatch = 0" "length new_WriteBatch = 12"
  by code_simp+

lemma Sequence_SetSequence [simp]: "Sequence (SetSequence b s) = s"
  by (simp add: Sequence_def SetSequence_def)

text \<open>The effect of a batch on a memtable: one \<^verbatim>\<open>Add\<close> per operation, at consecutive
  sequence numbers.\<close>

primrec add_ops ::
    "(SequenceNumber \<Rightarrow> ValueType \<Rightarrow> bytes \<Rightarrow> bytes \<Rightarrow> 'm \<Rightarrow> 'm) \<Rightarrow> SequenceNumber \<Rightarrow> op list \<Rightarrow> 'm \<Rightarrow> 'm" where
  "add_ops add s [] m = m"
| "add_ops add s (p # ops) m =
     add_ops add (s + 1) ops
       (case p of OpPut k v \<Rightarrow> add s kTypeValue k v m | OpDelete k \<Rightarrow> add s kTypeDeletion k [] m)"

lemma run_MemTableInserter:
  "run_op (MemTableInserter add) p (m, s) =
     (case p of OpPut k v \<Rightarrow> add s kTypeValue k v m | OpDelete k \<Rightarrow> add s kTypeDeletion k [] m, s + 1)"
  by (cases p) (simp_all add: MemTableInserter_def)

lemma fold_MemTableInserter:
  "fold (run_op (MemTableInserter add)) ops (m, s) = (add_ops add s ops m, s + word_of_nat (length ops))"
proof (induction ops arbitrary: m s)
  case (Cons p ops)
  then show ?case
    by (simp add: run_MemTableInserter algebra_simps)
qed simp

lemma InsertInto_holds:
  "batch_holds b ops \<Longrightarrow> InsertInto add b m = (OK, add_ops add (Sequence b) ops m)"
  by (simp add: InsertInto_def Iterate_holds fold_MemTableInserter)

lemma Iterate_loop_bad:
  "tag \<noteq> 0 \<Longrightarrow> tag \<noteq> 1 \<Longrightarrow>
     Iterate_loop handler (tag # rest) n h = (Inl (Corruption (lit ''unknown WriteBatch tag'') []), h)"
  "GetLengthPrefixedSlice rest = None \<Longrightarrow>
     Iterate_loop handler (1 # rest) n h = (Inl (Corruption (lit ''bad WriteBatch Put'') []), h)"
  "GetLengthPrefixedSlice rest = Some (k, rest') \<Longrightarrow> GetLengthPrefixedSlice rest' = None \<Longrightarrow>
     Iterate_loop handler (1 # rest) n h = (Inl (Corruption (lit ''bad WriteBatch Put'') []), h)"
  "GetLengthPrefixedSlice rest = None \<Longrightarrow>
     Iterate_loop handler (0 # rest) n h = (Inl (Corruption (lit ''bad WriteBatch Delete'') []), h)"
  by (subst Iterate_loop.simps, simp add: remove_prefix_def Let_def)+

lemma Count_append: "length hdr = 12 \<Longrightarrow> Count (hdr @ b) = Count hdr"
  by (simp add: Count_def DecodeFixed32_def nth_append)

section \<open>Properties\<close>

text \<open>(C13) A batch replays exactly what was put into it: for any operations with
  keys and values below 2^32 bytes and fewer than 2^31 of them, iterating over
  the batch that \<^verbatim>\<open>Put\<close> and \<^verbatim>\<open>Delete\<close> build, or over such a batch appended to
  another, runs the handler once per operation in order and returns OK.\<close>

theorem write_batch_replay:
  assumes "list_all op_ok (ops @ ops')" "length (ops @ ops') < 2 ^ 31"
  shows "Iterate handler
      (Append (foldl add_op new_WriteBatch ops) (foldl add_op new_WriteBatch ops')) h =
    (OK, fold (run_op handler) (ops @ ops') h)"
  using assms by (intro Iterate_holds holds_append holds_build) auto

theorem write_batch_replay_witness:
  "Iterate \<lparr> h_Put = (\<lambda>k v h. h @ [(k, Some v)]), h_Delete = (\<lambda>k h. h @ [(k, None)]) \<rparr>
     (Append (foldl add_op new_WriteBatch [OpPut [1] [2]]) (foldl add_op new_WriteBatch [OpDelete [3]])) [] =
   (OK, [([1], Some [2]), ([3], None)])"
  using write_batch_replay [of "[OpPut [1] [2]]" "[OpDelete [3]]"
      "\<lparr> h_Put = (\<lambda>k v h. h @ [(k, Some v)]), h_Delete = (\<lambda>k h. h @ [(k, None)]) \<rparr>" "[]"]
  by simp

text \<open>(C14) Inserting a batch into a memtable adds its operations in order at the
  consecutive sequence numbers that start at the batch's own.\<close>

theorem insert_into_sequences:
  assumes "list_all op_ok ops" "length ops < 2 ^ 31"
  shows "InsertInto add (SetSequence (foldl add_op new_WriteBatch ops) s) m = (OK, add_ops add s ops m)"
  using InsertInto_holds [OF holds_SetSequence [OF holds_build [OF assms]]] by simp

theorem insert_into_sequences_witness:
  "InsertInto (\<lambda>s t k v m. m @ [(s, t, k, v)])
     (SetSequence (foldl add_op new_WriteBatch [OpPut [1] [2], OpDelete [1]]) 7) [] =
   (OK, [(7, kTypeValue, [1], [2]), (8, kTypeDeletion, [1], [])])"
  using insert_into_sequences [of "[OpPut [1] [2], OpDelete [1]]" "\<lambda>s t k v m. m @ [(s, t, k, v)]" 7 "[]"]
  by simp

text \<open>(C15) Malformed batches are reported: a batch without a full header, one whose
  complete records are followed by an unknown tag, by a put whose key breaks off,
  by a put whose value breaks off or by a deletion whose key breaks off, and one
  whose records do not match its count all give the corruption status of that
  fault; the handler has run exactly for the complete records before it.\<close>

theorem malformed_batch_reported:
  assumes "list_all op_ok ops" "length hdr = 12"
  shows "(length b < 12 \<longrightarrow> Iterate handler b h = (Corruption (lit ''malformed WriteBatch (too small)'') [], h)) \<and>
    (tag \<notin> {0, 1} \<longrightarrow>
      Iterate handler (hdr @ concat (map op_record ops) @ tag # rest) h =
        (Corruption (lit ''unknown WriteBatch tag'') [], fold (run_op handler) ops h)) \<and>
    (GetLengthPrefixedSlice rest = None \<longrightarrow>
      Iterate handler (hdr @ concat (map op_record ops) @ 1 # rest) h =
        (Corruption (lit ''bad WriteBatch Put'') [], fold (run_op handler) ops h)) \<and>
    (GetLengthPrefixedSlice rest = Some (k, rest') \<and> GetLengthPrefixedSlice rest' = None \<longrightarrow>
      Iterate handler (hdr @ concat (map op_record ops) @ 1 # rest) h =
        (Corruption (lit ''bad WriteBatch Put'') [], fold (run_op handler) ops h)) \<and>
    (GetLengthPrefixedSlice rest = None \<longrightarrow>
      Iterate handler (hdr @ concat (map op_record ops) @ 0 # rest) h =
        (Corruption (lit ''bad WriteBatch Delete'') [], fold (run_op handler) ops h)) \<and>
    (Count hdr \<noteq> int (length ops) \<longrightarrow>
      Iterate handler (hdr @ concat (map op_record ops)) h =
        (Corruption (lit ''WriteBatch has wrong count'') [], fold (run_op handler) ops h))"
proof (intro conjI impI)
  show "Iterate handler (hdr @ concat (map op_record ops)) h =
        (Corruption (lit ''WriteBatch has wrong count'') [], fold (run_op handler) ops h)"
    if "Count hdr \<noteq> int (length ops)"
    using that assms Iterate_loop_records [of ops handler "[]" 0 h]
    by (simp add: Iterate_def kHeader_def remove_prefix_def Iterate_loop_Nil Count_append)
qed (use assms in \<open>simp_all add: Iterate_def kHeader_def remove_prefix_def Iterate_loop_records
      Iterate_loop_bad\<close>)

theorem malformed_batch_reported_witness:
  "Iterate \<lparr> h_Put = (\<lambda>k v n. n + 1), h_Delete = (\<lambda>k n. n + 1) \<rparr>
     (replicate 12 0 @ op_record (OpPut [1] [2]) @ 9 # []) (0 :: int) =
   (Corruption (lit ''unknown WriteBatch tag'') [], 1) \<and>
   Iterate \<lparr> h_Put = (\<lambda>k v n. n + 1), h_Delete = (\<lambda>k n. n + 1) \<rparr>
     (replicate 12 0 @ op_record (OpPut [1] [2]) @ 1 # [1, 7, 5, 8]) (0 :: int) =
   (Corruption (lit ''bad WriteBatch Put'') [], 1)"
proof -
  have cut: "GetLengthPrefixedSlice [1, 7, 5, 8] = Some ([7], [5, 8])" "GetLengthPrefixedSlice [5, 8] = None"
    by code_simp+
  show ?thesis
    using malformed_batch_reported [of "[OpPut [1] [2]]" "replicate 12 0" "[]"
        "\<lparr> h_Put = (\<lambda>k v n. n + 1), h_Delete = (\<lambda>k n. n + 1) \<rparr>" "0 :: int" 9 "[]"]
      malformed_batch_reported [of "[OpPut [1] [2]]" "replicate 12 0" "[]"
        "\<lparr> h_Put = (\<lambda>k v n. n + 1), h_Delete = (\<lambda>k n. n + 1) \<rparr>" "0 :: int" 9 "[1, 7, 5, 8]" "[7]" "[5, 8]"] cut
    by simp
qed

end
