(* ===== verification/Entries.thy ===== *)
theory Entries
  imports DbFormat
begin

text \<open>
  The abstract contents shared by memtables, tables and iterators: entries of a
  user key, a sequence number, a type and a value, sorted by internal key; the
  version of a key a reader at a snapshot sees; and the fact that the first entry
  at or after a lookup key is that version.
\<close>

section \<open>Definitions\<close>

type_synonym entry = "bytes \<times> SequenceNumber \<times> ValueType \<times> bytes"

abbreviation ikey_cmp :: "bytes \<Rightarrow> bytes \<Rightarrow> int" where
  "ikey_cmp \<equiv> Compare (InternalKeyComparator BytewiseComparator)"

fun entry_key :: "entry \<Rightarrow> bytes" where
  "entry_key (u, s, t, v) = InternalKey u s t"

fun entry_ok :: "entry \<Rightarrow> bool" where
  "entry_ok (u, s, t, v) \<longleftrightarrow> length u + 8 < 2 ^ 32 \<and> length v < 2 ^ 32 \<and> s \<le> kMaxSequenceNumber"

definition entries_sorted :: "entry list \<Rightarrow> bool" where
  "entries_sorted es \<longleftrightarrow> (\<forall>e \<in> set es. entry_ok e) \<and>
     sorted_wrt (\<lambda>e f. ikey_cmp (entry_key e) (entry_key f) \<le> 0) es"

text \<open>An entry of user key \<open>u\<close> that a reader at snapshot \<open>s\<close> may see, and the one it
  sees: the greatest sequence number, and a value before a deletion.\<close>

fun visible :: "bytes \<Rightarrow> SequenceNumber \<Rightarrow> entry \<Rightarrow> bool" where
  "visible u s (u', s', t', v') \<longleftrightarrow> u' = u \<and> s' \<le> s"

fun newer_or_same :: "entry \<Rightarrow> entry \<Rightarrow> bool" where
  "newer_or_same (u, s, t, v) (u', s', t', v') \<longleftrightarrow> s' < s \<or> s' = s \<and> type_code t' \<le> type_code t"

definition newest_visible :: "entry list \<Rightarrow> bytes \<Rightarrow> SequenceNumber \<Rightarrow> entry \<Rightarrow> bool" where
  "newest_visible es u s e \<longleftrightarrow> e \<in> set es \<and> visible u s e \<and>
     (\<forall>f \<in> set es. visible u s f \<longrightarrow> newer_or_same e f)"

definition seek_entries :: "bytes \<Rightarrow> entry list \<Rightarrow> entry list" where
  "seek_entries k es = dropWhile (\<lambda>e. ikey_cmp (entry_key e) k < 0) es"

section \<open>Lemmas\<close>

lemma ikey_cmp_less:
  assumes "s \<le> kMaxSequenceNumber" "s' \<le> kMaxSequenceNumber"
  shows "ikey_cmp (InternalKey u s t) (InternalKey v s' t') < 0 \<longleftrightarrow>
    slice_compare u v < 0 \<or> u = v \<and> (s' < s \<or> s = s' \<and> type_code t' < type_code t)"
  using bytewise_keys.ikey_less_iff [OF assms, of u t v t'] by (simp add: BytewiseComparator_def)

lemma ikey_cmp_le:
  assumes "s \<le> kMaxSequenceNumber" "s' \<le> kMaxSequenceNumber"
  shows "ikey_cmp (InternalKey u s t) (InternalKey v s' t') \<le> 0 \<longleftrightarrow>
    slice_compare u v < 0 \<or> u = v \<and> (s' < s \<or> s = s' \<and> type_code t' \<le> type_code t)"
proof -
  have "ikey_cmp (InternalKey u s t) (InternalKey v s' t') \<le> 0 \<longleftrightarrow>
      \<not> ikey_cmp (InternalKey v s' t') (InternalKey u s t) < 0"
    by (rule bytewise_keys.ikey.cmp_le) simp_all
  also have "\<dots> \<longleftrightarrow> slice_compare u v < 0 \<or> u = v \<and> (s' < s \<or> s = s' \<and> type_code t' \<le> type_code t)"
    unfolding ikey_cmp_less [OF assms(2,1)]
    using slice_compare_anti [of u v] slice_compare_anti [of v u] slice_compare_eq [of u v]
      slice_compare_eq [of v u]
    by (auto simp: not_less linorder_neq_iff)
  finally show ?thesis .
qed

lemma visible_iff_not_before:
  assumes "s \<le> kMaxSequenceNumber" "entry_ok (u, s', t', v')"
  shows "s' \<le> s \<longleftrightarrow> \<not> ikey_cmp (entry_key (u, s', t', v')) (InternalKey u s kValueTypeForSeek) < 0"
  using assms slice_compare_eq [of u u]
  by (cases t') (auto simp: ikey_cmp_less kValueTypeForSeek_def not_less)

lemma entries_sorted_append:
  "entries_sorted (xs @ ys) \<Longrightarrow> entries_sorted xs \<and> entries_sorted ys \<and>
     (\<forall>x \<in> set xs. \<forall>y \<in> set ys. ikey_cmp (entry_key x) (entry_key y) \<le> 0)"
  by (auto simp: entries_sorted_def sorted_wrt_append)

text \<open>The first entry at or after the lookup key decides a lookup.\<close>

lemma seek_entries_newest:
  assumes sorted: "entries_sorted es" and s: "s \<le> kMaxSequenceNumber"
  shows "case seek_entries (InternalKey u s kValueTypeForSeek) es of
      [] \<Rightarrow> \<forall>f \<in> set es. \<not> visible u s f
    | e # _ \<Rightarrow> (if fst e = u then newest_visible es u s e else \<forall>f \<in> set es. \<not> visible u s f)"
proof -
  let ?k = "InternalKey u s kValueTypeForSeek"
  let ?T = "takeWhile (\<lambda>e. ikey_cmp (entry_key e) ?k < 0) es"
  have early: "\<not> visible u s f" if "f \<in> set ?T" for f
  proof (cases f)
    case (fields u' s' t' v')
    have "ikey_cmp (entry_key f) ?k < 0" "entry_ok f"
      using that sorted by (auto dest: set_takeWhileD simp: entries_sorted_def)
    then show ?thesis
      using visible_iff_not_before [OF s, of u s' t' v'] by (auto simp: fields)
  qed
  have split: "set es = set ?T \<union> set (seek_entries ?k es)"
    unfolding seek_entries_def by (metis set_append takeWhile_dropWhile_id)
  show ?thesis
  proof (cases "seek_entries ?k es")
    case Nil
    with early split show ?thesis
      by auto
  next
    case (Cons e rest)
    obtain u0 s0 t0 v0 where e: "e = (u0, s0, t0, v0)"
      by (cases e)
    have ge: "\<not> ikey_cmp (entry_key e) ?k < 0"
      using Cons by (auto simp: seek_entries_def dropWhile_eq_Cons_conv)
    have "entries_sorted (e # rest)"
      using sorted entries_sorted_append [of ?T "seek_entries ?k es"] Cons
      by (simp add: seek_entries_def)
    then have ok: "entry_ok e" and le: "\<forall>f \<in> set rest. entry_ok f \<and> ikey_cmp (entry_key e) (entry_key f) \<le> 0"
      by (auto simp: entries_sorted_def)
    have later: "newer_or_same e f \<and> u0 = u" if "visible u s f" "f \<in> set (e # rest)" for f
    proof (cases f)
      case (fields u' s' t' v')
      have "ikey_cmp (entry_key e) (entry_key f) \<le> 0 \<or> f = e"
        using that le by auto
      then show ?thesis
        using that(1) ok le that(2) ge s slice_compare_anti [of u0 u] slice_compare_eq [of u0 u]
        by (auto simp: e fields ikey_cmp_le ikey_cmp_less)
    qed
    have first: "u0 = u \<Longrightarrow> visible u s e"
      using visible_iff_not_before [OF s, of u0 s0 t0 v0] ok ge by (simp add: e)
    have all: "newer_or_same e f \<and> u0 = u" if f: "f \<in> set es" "visible u s f" for f
    proof -
      have "f \<in> set ?T \<or> f \<in> set (e # rest)"
        using f(1) unfolding split Cons by (rule UnE) (rule disjI1, assumption, rule disjI2, assumption)
      with early [of f] later [of f] f(2) show ?thesis
        by blast
    qed
    have mem: "e \<in> set es" and u0: "fst e = u0"
      using Cons e unfolding split by simp_all
    show ?thesis
    proof (cases "u0 = u")
      case True
      have "newest_visible es u s e"
        unfolding newest_visible_def using mem first [OF True] all by blast
      with Cons u0 True show ?thesis
        by simp
    next
      case False
      then have "\<forall>f \<in> set es. \<not> visible u s f"
        using all by blast
      with Cons u0 False show ?thesis
        by simp
    qed
  qed
qed

end
