(* ===== verification/MemTable.thy ===== *)
theory MemTable
  imports Arena WriteBatch Entries
begin

text \<open>
  Memtables (\<^verbatim>\<open>db/memtable.h\<close>, \<^verbatim>\<open>db/memtable.cc\<close>).  Entries are byte strings in a
  byte-addressed memory; a skip list orders pointers to them through
  \<^verbatim>\<open>KeyComparator\<close>, which reads the length-prefixed internal key at a pointer.
  \<^verbatim>\<open>Add\<close> writes an entry into a sub-memtable and queues its pointer; a background
  task inserts the queued pointers into the skip list of the sub-memtable.
\<close>

unbundle bit_operations_syntax

section \<open>Memory\<close>

type_synonym memory = "ptr \<Rightarrow> byte"

definition read_bytes :: "memory \<Rightarrow> ptr \<Rightarrow> nat \<Rightarrow> bytes" where
  "read_bytes mem p n = map (\<lambda>i. mem (p + int i)) [0..<n]"

definition write_bytes :: "memory \<Rightarrow> ptr \<Rightarrow> bytes \<Rightarrow> memory" where
  "write_bytes mem p bs = (\<lambda>a. if p \<le> a \<and> a < p + int (length bs) then bs ! nat (a - p) else mem a)"

section \<open>Definitions\<close>

text \<open>\<^verbatim>\<open>GetLengthPrefixedSlice(const char*)\<close>: the slice is given by its address and its
  bytes.  A prefix that does not decode in five bytes is not handled by the code;
  the slice is then at the null pointer, with an unset length, here 0.\<close>

definition slice_at :: "memory \<Rightarrow> ptr \<Rightarrow> ptr \<times> bytes" where
  "slice_at mem data =
     (case GetVarint32Ptr (read_bytes mem data 5) of
        Some (len, rest) \<Rightarrow>
          let p = data + int (5 - length rest) in (p, read_bytes mem p (unat len))
      | None \<Rightarrow> (0, []))"

definition KeyComparator :: "comparator \<Rightarrow> memory \<Rightarrow> ptr \<Rightarrow> ptr \<Rightarrow> int" where
  "KeyComparator ucmp mem aptr bptr =
     (let a = snd (slice_at mem aptr); b = snd (slice_at mem bptr) in
      Compare (InternalKeyComparator ucmp) a b)"

definition EncodeKey :: "bytes \<Rightarrow> bytes" where
  "EncodeKey target = PutVarint32 [] (word_of_nat (length target)) @ target"

record MemTable =
  arena :: Arena
  isNVMMemtable :: bool
  table :: SkipList
  sub_mem_skiplist :: "SkipList list"
  sub_mem_pending_node_index :: "nat list"
  sub_mem_pending_node :: "ptr list list"
  isQueBusy :: bool
  mt_refs :: int
  numkeys :: uint32

text \<open>A memtable on a map arena; \<open>heads\<close> are the addresses of the head nodes of its
  list and of the lists of its sub-memtables.\<close>

definition new_MemTable :: "ptr \<Rightarrow> ptr list \<Rightarrow> Arena \<Rightarrow> MemTable" where
  "new_MemTable hp heads a =
     \<lparr> arena = a, isNVMMemtable = nvmarena a, table = new_SkipList hp,
       sub_mem_skiplist = map new_SkipList (take (sub_mem_count a) heads),
       sub_mem_pending_node_index = replicate (sub_mem_count a) 0,
       sub_mem_pending_node = replicate (sub_mem_count a) [],
       isQueBusy = False, mt_refs = 0, numkeys = 0 \<rparr>"

definition Ref :: "MemTable \<Rightarrow> MemTable" where
  "Ref m = m\<lparr>mt_refs := mt_refs m + 1\<rparr>"

text \<open>\<open>None\<close> when the last reference goes and the memtable is deleted.\<close>

definition Unref :: "MemTable \<Rightarrow> MemTable option" where
  "Unref m = (let r = mt_refs m - 1 in if r \<le> 0 then None else Some (m\<lparr>mt_refs := r\<rparr>))"

definition IncrKeys :: "MemTable \<Rightarrow> MemTable" where
  "IncrKeys m = m\<lparr>numkeys := numkeys m + 1\<rparr>"

definition DecrKeys :: "MemTable \<Rightarrow> MemTable" where
  "DecrKeys m = (if numkeys m \<noteq> 0 then m\<lparr>numkeys := numkeys m - 1\<rparr> else m)"

definition ApproximateMemoryUsage :: "MemTable \<Rightarrow> uint64" where
  "ApproximateMemoryUsage m = memory_usage (arena m)"

text \<open>The bytes of an entry.\<close>

definition encode_entry :: "SequenceNumber \<Rightarrow> ValueType \<Rightarrow> bytes \<Rightarrow> bytes \<Rightarrow> bytes" where
  "encode_entry s type key value =
     (let key_size = length key; val_size = length value; internal_key_size = key_size + 8 in
      EncodeVarint32 (word_of_nat internal_key_size) @ key @
      EncodeFixed64 (push_bit 8 s OR type_code type) @
      EncodeVarint32 (word_of_nat val_size) @ value)"

text \<open>\<^verbatim>\<open>Add\<close>, one round of its retry loop: the result is \<open>None\<close> for a store outside the
  arrays and otherwise says whether the allocation succeeded; on a null pointer
  the code tries again with the arena as it then is.  \<open>os\<close> and \<open>getcpu\<close> are the
  arguments of the arena, \<open>new\<close> the address of a fresh heap block.\<close>

definition Add ::
    "(uint64 \<Rightarrow> ptr) \<Rightarrow> nat option \<Rightarrow> ptr \<Rightarrow> SequenceNumber \<Rightarrow> ValueType \<Rightarrow> bytes \<Rightarrow> bytes \<Rightarrow>
     memory \<times> MemTable \<Rightarrow> (bool \<times> memory \<times> MemTable) option" where
  "Add os getcpu new s type key value st =
     (let (mem, m) = st; key_size = length key; val_size = length value;
          internal_key_size = key_size + 8;
          encoded_len =
            VarintLength (word_of_nat internal_key_size) + internal_key_size +
            VarintLength (word_of_nat val_size) + val_size
      in do {
        (buf, a) \<leftarrow>
          (if nvmarena (arena m) then ArenaNVM_Allocate os getcpu (word_of_nat encoded_len) (arena m)
           else Some (Allocate new (word_of_nat encoded_len) (arena m)));
        let m = m\<lparr>arena := a\<rparr>;
        if buf = 0 then Some (False, mem, m)
        else
          let i = sub_mem_index a buf in
          if i < length (sub_mem_pending_node m) then
            Some (True, write_bytes mem buf (encode_entry s type key value),
              IncrKeys (m\<lparr>sub_mem_pending_node :=
                (sub_mem_pending_node m)[i := sub_mem_pending_node m ! i @ [buf]]\<rparr>))
          else None
      })"

text \<open>What \<^verbatim>\<open>Get\<close> and \<^verbatim>\<open>Get_submem\<close> do with the entry the search found; \<open>value\<close> and \<open>s\<close>
  are the caller's variables.\<close>

definition decode_found ::
    "comparator \<Rightarrow> memory \<Rightarrow> LookupKey \<Rightarrow> ptr \<Rightarrow> bytes \<Rightarrow> Status \<Rightarrow> bool \<times> bytes \<times> Status" where
  "decode_found c mem key entry value s =
     (let (key_ptr, k) = slice_at mem entry; key_length = length k in
      if Compare c (take (key_length - 8) k) (lookup_user_key key) = 0 then
        case ValueType_of_byte (ucast (key_tag k AND 0xff)) of
          Some kTypeValue \<Rightarrow> (True, snd (slice_at mem (key_ptr + int key_length)), s)
        | Some kTypeDeletion \<Rightarrow> (True, value, NotFound [] [])
        | None \<Rightarrow> (False, value, s)
      else (False, value, s))"

text \<open>The search key is in memory at \<open>kaddr\<close>.\<close>

definition Get ::
    "comparator \<Rightarrow> memory \<Rightarrow> ptr \<Rightarrow> SkipList \<Rightarrow> LookupKey \<Rightarrow> bytes \<Rightarrow> Status \<Rightarrow> (bool \<times> bytes \<times> Status) option" where
  "Get c mem kaddr tbl key value s =
     do {
       node \<leftarrow> iter_Seek (KeyComparator c mem) tbl kaddr;
       if iter_Valid node then
         do { entry \<leftarrow> iter_key_offset tbl node; Some (decode_found c mem key entry value s) }
       else Some (False, value, s)
     }"

text \<open>The scan of \<^verbatim>\<open>Get_submem\<close>: a sub-memtable is skipped unless both its bits are
  set, and the first list with an entry at or after the key ends the scan.\<close>

fun scan_submem ::
    "(ptr \<Rightarrow> ptr \<Rightarrow> int) \<Rightarrow> ptr \<Rightarrow> bool list \<Rightarrow> bool list \<Rightarrow> SkipList list \<Rightarrow> (SkipList \<times> ptr) option option" where
  "scan_submem cmp kaddr (b # bs) (ib # ibs) (l # ls) =
     (if \<not> b \<or> \<not> ib then scan_submem cmp kaddr bs ibs ls
      else do {
        node \<leftarrow> iter_Seek cmp l kaddr;
        if iter_Valid node then Some (Some (l, node)) else scan_submem cmp kaddr bs ibs ls
      })"
| "scan_submem cmp kaddr _ _ _ = Some None"

definition Get_submem ::
    "comparator \<Rightarrow> memory \<Rightarrow> ptr \<Rightarrow> MemTable \<Rightarrow> LookupKey \<Rightarrow> bytes \<Rightarrow> Status \<Rightarrow> (bool \<times> bytes \<times> Status) option" where
  "Get_submem c mem kaddr m key value s =
     do {
       found \<leftarrow> scan_submem (KeyComparator c mem) kaddr (sub_mem_bset (arena m))
                  (sub_immem_bset (arena m)) (sub_mem_skiplist m);
       case found of
         Some (l, node) \<Rightarrow>
           do { entry \<leftarrow> iter_key_offset l node; Some (decode_found c mem key entry value s) }
       | None \<Rightarrow> Some (False, value, s)
     }"

text \<open>The iterator of a memtable: the key and the value at a node.\<close>

definition MemTableIterator_key :: "memory \<Rightarrow> SkipList \<Rightarrow> ptr \<Rightarrow> bytes option" where
  "MemTableIterator_key mem l node = map_option (\<lambda>e. snd (slice_at mem e)) (iter_key_offset l node)"

definition MemTableIterator_value :: "memory \<Rightarrow> SkipList \<Rightarrow> ptr \<Rightarrow> bytes option" where
  "MemTableIterator_value mem l node =
     map_option (\<lambda>e. let (p, k) = slice_at mem e in snd (slice_at mem (p + int (length k))))
       (iter_key_offset l node)"

section \<open>Reading and writing memory\<close>

lemma length_read_bytes [simp]: "length (read_bytes mem p n) = n"
  by (simp add: read_bytes_def)

lemma read_bytes_append: "read_bytes mem p (m + n) = read_bytes mem p m @ read_bytes mem (p + int m) n"
  by (rule nth_equalityI) (auto simp: read_bytes_def nth_append)

lemma read_write_same: "read_bytes (write_bytes mem p bs) p (length bs) = bs"
  by (rule nth_equalityI) (auto simp: read_bytes_def write_bytes_def)

lemma read_write_other:
  "p + int n \<le> q \<or> q + int (length bs) \<le> p \<Longrightarrow> read_bytes (write_bytes mem q bs) p n = read_bytes mem p n"
  by (auto simp: read_bytes_def write_bytes_def)

lemma read_bytes_take: "m \<le> n \<Longrightarrow> read_bytes mem p m = take m (read_bytes mem p n)"
  by (simp add: read_bytes_def take_map)

section \<open>Entries\<close>

text \<open>The memory holds the encoding of an entry at an address.\<close>

definition holds_bytes :: "memory \<Rightarrow> ptr \<Rightarrow> bytes \<Rightarrow> bool" where
  "holds_bytes mem p bs \<longleftrightarrow> read_bytes mem p (length bs) = bs"

lemma holds_bytes_append:
  "holds_bytes mem p (xs @ ys) \<longleftrightarrow> holds_bytes mem p xs \<and> holds_bytes mem (p + int (length xs)) ys"
  by (simp add: holds_bytes_def read_bytes_append)

lemma slice_at_holds:
  assumes "holds_bytes mem p (EncodeVarint32 (word_of_nat (length bs)) @ bs)" "length bs < 2 ^ 32"
  shows "slice_at mem p = (p + int (length (EncodeVarint32 (word_of_nat (length bs)))), bs)"
proof -
  let ?e = "EncodeVarint32 (word_of_nat (length bs))"
  have len: "length ?e \<le> 5"
    by (rule length_EncodeVarint)
  then have "read_bytes mem p 5 = read_bytes mem p (length ?e + (5 - length ?e))"
    by simp
  also have "\<dots> = ?e @ read_bytes mem (p + int (length ?e)) (5 - length ?e)"
    using assms(1) unfolding read_bytes_append holds_bytes_append by (simp add: holds_bytes_def)
  finally have "GetVarint32Ptr (read_bytes mem p 5) =
      Some (word_of_nat (length bs), read_bytes mem (p + int (length ?e)) (5 - length ?e))"
    by (metis GetVarint32_Encode GetVarint32_def)
  moreover have "read_bytes mem (p + int (length ?e)) (length bs) = bs"
    using assms(1) unfolding holds_bytes_append by (simp add: holds_bytes_def)
  ultimately show ?thesis
    using assms(2) len by (simp add: slice_at_def Let_def)
qed

definition entry_at :: "memory \<Rightarrow> ptr \<Rightarrow> entry \<Rightarrow> bool" where
  "entry_at mem p e \<longleftrightarrow> entry_ok e \<and> (case e of (u, s, t, v) \<Rightarrow> holds_bytes mem p (encode_entry s t u v))"

lemma encode_entry_eq:
  "encode_entry s t u v =
     EncodeVarint32 (word_of_nat (length (InternalKey u s t))) @ InternalKey u s t @
     EncodeVarint32 (word_of_nat (length v)) @ v"
  by (simp add: encode_entry_def Let_def InternalKey_eq PackSequenceAndType_def)

lemma slice_at_entry:
  assumes "entry_at mem p (u, s, t, v)"
  shows "snd (slice_at mem p) = InternalKey u s t"
    and "snd (slice_at mem (fst (slice_at mem p) + int (length (InternalKey u s t)))) = v"
proof -
  have len: "length (InternalKey u s t) < 2 ^ 32" "length v < 2 ^ 32"
    using assms by (simp_all add: entry_at_def)
  have h: "holds_bytes mem p ((EncodeVarint32 (word_of_nat (length (InternalKey u s t))) @ InternalKey u s t) @
     (EncodeVarint32 (word_of_nat (length v)) @ v))"
    using assms by (simp add: entry_at_def encode_entry_eq)
  note h1 = h [unfolded holds_bytes_append [of mem p "EncodeVarint32 _ @ InternalKey u s t"], THEN conjunct1]
  note h2 = h [unfolded holds_bytes_append [of mem p "EncodeVarint32 _ @ InternalKey u s t"], THEN conjunct2]
  show "snd (slice_at mem p) = InternalKey u s t"
    using slice_at_holds [OF h1 len(1)] by simp
  show "snd (slice_at mem (fst (slice_at mem p) + int (length (InternalKey u s t)))) = v"
    using slice_at_holds [OF h1 len(1)] slice_at_holds [OF h2 len(2)] by (simp add: add.assoc)
qed

lemma encoded_len:
  assumes "length u + 8 < 2 ^ 32" "length v < 2 ^ 32"
  shows "length (encode_entry s t u v) =
    VarintLength (word_of_nat (length u + 8)) + (length u + 8) + VarintLength (word_of_nat (length v)) + length v"
proof -
  have "length (EncodeVarint32 (word_of_nat n)) = VarintLength (word_of_nat n)" if "n < 2 ^ 32" for n
    using that by (simp add: VarintLength_Encode EncodeVarint32_leb128 EncodeVarint64_leb128)
  from this [of "length u + 8"] this [of "length v"] assms show ?thesis
    by (simp add: encode_entry_eq del: of_nat_add)
qed

section \<open>The order of pointers\<close>

text \<open>On pointers to entries, and on the pointer to a lookup key, the comparator of
  the memtable is the order of internal keys.\<close>

definition key_ptr_ok :: "memory \<Rightarrow> ptr \<Rightarrow> bool" where
  "key_ptr_ok mem p \<longleftrightarrow> 8 \<le> length (snd (slice_at mem p))"

lemma entry_at_key_ptr: "entry_at mem p e \<Longrightarrow> key_ptr_ok mem p"
  by (cases e) (simp add: key_ptr_ok_def slice_at_entry)

interpretation memtable_keys: key_ptrs "key_ptr_ok mem" "KeyComparator BytewiseComparator mem" for mem
proof unfold_locales
  fix a b c
  assume a: "key_ptr_ok mem a" and b: "key_ptr_ok mem b"
  then show "KeyComparator BytewiseComparator mem a b < 0 \<longleftrightarrow> 0 < KeyComparator BytewiseComparator mem b a"
    using bytewise_keys.ikey.cmp_anti by (simp add: KeyComparator_def key_ptr_ok_def Let_def)
  assume "key_ptr_ok mem c" "KeyComparator BytewiseComparator mem a b \<le> 0"
    "KeyComparator BytewiseComparator mem b c \<le> 0"
  with a b show "KeyComparator BytewiseComparator mem a c \<le> 0"
    using bytewise_keys.ikey.cmp_le_trans unfolding KeyComparator_def key_ptr_ok_def Let_def by blast
qed

section \<open>Lookups\<close>

text \<open>The contents of a list of the memtable: the entries its keys point to.\<close>

definition list_holds :: "memory \<Rightarrow> SkipList \<Rightarrow> entry list \<Rightarrow> bool" where
  "list_holds mem l es \<longleftrightarrow>
     (\<exists>ks. skip_holds (key_ptr_ok mem) (KeyComparator BytewiseComparator mem) l ks \<and> list_all2 (entry_at mem) ks es)"

lemma KeyComparator_entries:
  assumes "entry_at mem p e" "entry_at mem q f"
  shows "KeyComparator BytewiseComparator mem p q = ikey_cmp (entry_key e) (entry_key f)"
  using assms by (cases e; cases f) (simp add: KeyComparator_def slice_at_entry)

lemma list_all2_sorted:
  "list_all2 (entry_at mem) ks es \<Longrightarrow>
   sorted_wrt (\<lambda>a b. KeyComparator BytewiseComparator mem a b \<le> 0) ks \<Longrightarrow> entries_sorted es"
proof (induction rule: list_all2_induct)
  case (Cons k ks e es)
  have "\<forall>f \<in> set es. ikey_cmp (entry_key e) (entry_key f) \<le> 0"
  proof
    fix f
    assume "f \<in> set es"
    with Cons.hyps(2) obtain k' where "k' \<in> set ks" "entry_at mem k' f"
      by (metis in_set_conv_nth list_all2_conv_all_nth)
    moreover have "KeyComparator BytewiseComparator mem k k' \<le> 0"
      using Cons.prems \<open>k' \<in> set ks\<close> by simp
    ultimately show "ikey_cmp (entry_key e) (entry_key f) \<le> 0"
      using KeyComparator_entries [OF Cons.hyps(1)] by simp
  qed
  with Cons show ?case
    by (auto simp: entries_sorted_def entry_at_def)
qed (simp add: entries_sorted_def)

lemma list_holds_sorted: "list_holds mem l es \<Longrightarrow> entries_sorted es"
  using list_all2_sorted skip_holds_sorted unfolding list_holds_def by blast

lemma dropWhile_list_all2:
  assumes "list_all2 R xs ys" "\<And>x y. R x y \<Longrightarrow> P x = Q y"
  shows "list_all2 R (dropWhile P xs) (dropWhile Q ys)"
  using assms(1) by (induction rule: list_all2_induct) (auto simp: assms(2))

lemma lookup_slice:
  assumes "holds_bytes mem kaddr (memtable_key (new_LookupKey u s))" "length u + 8 < 2 ^ 32"
  shows "snd (slice_at mem kaddr) = InternalKey u s kValueTypeForSeek" "key_ptr_ok mem kaddr"
proof -
  have "length (InternalKey u s kValueTypeForSeek) < 2 ^ 32"
    using assms(2) by simp
  then show "snd (slice_at mem kaddr) = InternalKey u s kValueTypeForSeek"
    using slice_at_holds [of mem kaddr "InternalKey u s kValueTypeForSeek"] assms(1)
    by (simp add: memtable_key_prefixed PutLengthPrefixedSlice_def PutVarint32_def del: of_nat_add)
  then show "key_ptr_ok mem kaddr"
    by (simp add: key_ptr_ok_def)
qed

text \<open>What a lookup reports of an entry.\<close>

fun report :: "entry \<Rightarrow> bytes \<Rightarrow> Status \<Rightarrow> bool \<times> bytes \<times> Status" where
  "report (u, s, kTypeValue, v) value st = (True, v, st)"
| "report (u, s, kTypeDeletion, v) value st = (True, value, NotFound [] [])"

lemma decode_found_entry:
  assumes "entry_at mem p e"
  shows "decode_found BytewiseComparator mem (new_LookupKey u s) p value st =
    (if fst e = u then report e value st else (False, value, st))"
proof -
  obtain u' s' t' v' where e: "e = (u', s', t', v')"
    by (cases e)
  obtain q where q: "slice_at mem p = (q, InternalKey u' s' t')"
    "snd (slice_at mem (q + int (length (InternalKey u' s' t')))) = v'"
    using slice_at_entry [of mem p u' s' t' v'] assms e by (metis prod.collapse)
  have vt: "ValueType_of_byte (ucast (key_tag (InternalKey w s' t))) = Some t" for w t
    by (simp add: InternalKey_eq pack_type)
  have "take (length (InternalKey u' s' t') - 8) (InternalKey u' s' t') = u'"
    by (simp add: InternalKey_eq)
  then show ?thesis
    using q(2) slice_compare_eq [of u' u]
    by (cases t') (auto simp: decode_found_def Let_def q(1) vt e BytewiseComparator_def)
qed

lemma seek_list:
  assumes holds: "list_holds mem l es"
    and k: "holds_bytes mem kaddr (memtable_key (new_LookupKey u s))" "length u + 8 < 2 ^ 32"
  shows "\<exists>n. iter_Seek (KeyComparator BytewiseComparator mem) l kaddr = Some n \<and>
    (case seek_entries (InternalKey u s kValueTypeForSeek) es of
       [] \<Rightarrow> \<not> iter_Valid n
     | e # _ \<Rightarrow> iter_Valid n \<and> (\<exists>p. iter_key_offset l n = Some p \<and> entry_at mem p e))"
proof -
  let ?cmp = "KeyComparator BytewiseComparator mem"
  obtain ks where ks: "skip_holds (key_ptr_ok mem) ?cmp l ks" "list_all2 (entry_at mem) ks es"
    using holds by (auto simp: list_holds_def)
  have eq: "(?cmp p kaddr < 0) = (ikey_cmp (entry_key e) (InternalKey u s kValueTypeForSeek) < 0)"
    if "entry_at mem p e" for p e
    using that lookup_slice(1) [OF k] by (cases e) (simp add: KeyComparator_def slice_at_entry)
  have all2: "list_all2 (entry_at mem) (dropWhile (\<lambda>p. ?cmp p kaddr < 0) ks)
      (seek_entries (InternalKey u s kValueTypeForSeek) es)"
    unfolding seek_entries_def by (rule dropWhile_list_all2 [OF ks(2)]) (rule eq)
  obtain n where "iter_Seek ?cmp l kaddr = Some n"
    and "case dropWhile (\<lambda>p. ?cmp p kaddr < 0) ks of
       [] \<Rightarrow> \<not> iter_Valid n | k' # _ \<Rightarrow> iter_Valid n \<and> iter_key_offset l n = Some k'"
    using memtable_keys.seek_holds [OF ks(1) lookup_slice(2) [OF k]] by blast
  with all2 show ?thesis
    by (cases "seek_entries (InternalKey u s kValueTypeForSeek) es";
        cases "dropWhile (\<lambda>p. ?cmp p kaddr < 0) ks") simp_all
qed

lemma Get_seek:
  assumes holds: "list_holds mem l es"
    and k: "holds_bytes mem kaddr (memtable_key (new_LookupKey u s))" "length u + 8 < 2 ^ 32"
  shows "Get BytewiseComparator mem kaddr l (new_LookupKey u s) value st =
    Some (case seek_entries (InternalKey u s kValueTypeForSeek) es of
       [] \<Rightarrow> (False, value, st) | e # _ \<Rightarrow> if fst e = u then report e value st else (False, value, st))"
proof -
  obtain n where n: "iter_Seek (KeyComparator BytewiseComparator mem) l kaddr = Some n"
    and c: "case seek_entries (InternalKey u s kValueTypeForSeek) es of
       [] \<Rightarrow> \<not> iter_Valid n
     | e # _ \<Rightarrow> iter_Valid n \<and> (\<exists>p. iter_key_offset l n = Some p \<and> entry_at mem p e)"
    using seek_list [OF holds k] by blast
  show ?thesis
  proof (cases "seek_entries (InternalKey u s kValueTypeForSeek) es")
    case (Cons e rest)
    with c obtain p where "iter_Valid n" "iter_key_offset l n = Some p" "entry_at mem p e"
      by auto
    with n Cons show ?thesis
      by (simp add: Get_def decode_found_entry)
  qed (use c n in \<open>simp add: Get_def\<close>)
qed

lemma Get_list:
  assumes holds: "list_holds mem l es" and s: "s \<le> kMaxSequenceNumber"
    and k: "holds_bytes mem kaddr (memtable_key (new_LookupKey u s))" "length u + 8 < 2 ^ 32"
  shows "(\<forall>f \<in> set es. \<not> visible u s f) \<and>
      Get BytewiseComparator mem kaddr l (new_LookupKey u s) value st = Some (False, value, st) \<or>
    (\<exists>e. newest_visible es u s e \<and>
      Get BytewiseComparator mem kaddr l (new_LookupKey u s) value st = Some (report e value st))"
  using seek_entries_newest [OF list_holds_sorted [OF holds] s, of u] unfolding Get_seek [OF holds k]
  by (cases "seek_entries (InternalKey u s kValueTypeForSeek) es")
    (auto split: if_splits simp del: split_paired_Ex)

section \<open>Adding an entry\<close>

lemma alloc_keeps_map: "map_start (snd (alloc_sub_mem c a)) = map_start a"
  by (simp add: alloc_sub_mem_def Let_def)

lemma swap_keeps_map: "swap_sub_mem c a = Some r \<Longrightarrow> map_start (snd r) = map_start a"
  by (auto simp: swap_sub_mem_def Let_def alloc_keeps_map split: if_splits)

lemma Allocate_keeps_map:
  assumes "allocation a" "ArenaNVM_Allocate os (Some cpu) bytes a = Some (p, a')"
  shows "map_start a' = map_start a"
proof -
  let ?r = "if bytes > percore_alloc_bytes_remaining a ! cpu then
      if percore_alloc_ptr a ! cpu \<noteq> 0 then swap_sub_mem cpu a else Some (alloc_sub_mem cpu a)
    else Some (0, a)"
  obtain r b where r: "?r = Some (r, b)"
    using assms by (auto simp: ArenaNVM_Allocate_def simp del: if_split_asm split: bind_splits)
  have "map_start (snd (r, b)) = map_start a"
    using r alloc_keeps_map [of cpu a] swap_keeps_map [of cpu a "(r, b)"] by (auto split: if_splits)
  moreover have "map_start a' = map_start b"
    using assms r by (auto simp: ArenaNVM_Allocate_def split: if_split_asm)
  ultimately show ?thesis
    by simp
qed

lemma block_index:
  assumes "block_ok a own cpu bytes p i" "0 < unat bytes" "map_start a' = map_start a"
  shows "sub_mem_index a' p = i" "i < sub_mem_count a"
proof -
  have "p + int (unat bytes) \<le> map_start a + int ((i + 1) * SUB_MEM_SIZE)" "map_start a + int (i * SUB_MEM_SIZE) \<le> p"
    using assms(1) by (simp_all add: block_ok_def)
  then have "int i * int SUB_MEM_SIZE \<le> p - map_start a" "p - map_start a < (int i + 1) * int SUB_MEM_SIZE"
    using assms(2) by (simp_all only: of_nat_mult of_nat_add of_nat_1 distrib_right)
  then have "(p - map_start a) div int SUB_MEM_SIZE = int i"
    by (intro int_div_pos_eq [where r = "p - map_start a - int i * int SUB_MEM_SIZE"])
      (simp_all add: algebra_simps)
  then show "sub_mem_index a' p = i"
    by (simp add: sub_mem_index_def assms(3))
  show "i < sub_mem_count a"
    using assms(1) by (simp add: block_ok_def)
qed

lemma entry_at_other:
  assumes "entry_at mem q (u, s, t, v)"
    and "q + int (length (encode_entry s t u v)) \<le> p \<or> p + int (length bs) \<le> q"
  shows "entry_at (write_bytes mem p bs) q (u, s, t, v)"
  using assms by (simp add: entry_at_def holds_bytes_def read_write_other)

lemma entry_at_written:
  "entry_ok (u, s, t, v) \<Longrightarrow> entry_at (write_bytes mem p (encode_entry s t u v)) p (u, s, t, v)"
  by (simp add: entry_at_def holds_bytes_def read_write_same)

lemma Add_queues:
  assumes "nvmarena (arena m)" "arena_ok (arena m) own" "allocation (arena m)"
    and "cpu < length (percore_alloc_ptr (arena m))"
    and "percore_alloc_ptr (arena m) ! cpu \<noteq> 0 \<longrightarrow> percore_alloc_bytes_remaining (arena m) ! cpu \<noteq> 0"
    and "length (sub_mem_pending_node m) = sub_mem_count (arena m)"
    and "entry_ok (u, s, t, v)" "length (encode_entry s t u v) \<le> SUB_MEM_SIZE"
  shows "\<exists>done mem' m'. Add os (Some cpu) new s t u v (mem, m) = Some (done, mem', m') \<and>
    (if done then
       \<exists>p i. entry_at mem' p (u, s, t, v) \<and>
         block_ok (arena m) own cpu (word_of_nat (length (encode_entry s t u v))) p i \<and>
         arena_ok (arena m') (own(cpu := i)) \<and>
         sub_mem_pending_node m' = (sub_mem_pending_node m)[i := sub_mem_pending_node m ! i @ [p]] \<and>
         numkeys m' = numkeys m + 1 \<and>
         (\<forall>q u' s' t' v'. entry_at mem q (u', s', t', v') \<and>
            (q + int (length (encode_entry s' t' u' v')) \<le> p \<or> p + int (length (encode_entry s t u v)) \<le> q) \<longrightarrow>
            entry_at mem' q (u', s', t', v'))
     else mem' = mem \<and> m' = m\<lparr>arena := seal_core own cpu (arena m)\<rparr> \<and> arena_ok (arena m') own \<and>
       (\<forall>j < sub_mem_count (arena m). sub_mem_bset (arena m) ! j) \<and>
       percore_alloc_bytes_remaining (arena m) ! cpu < word_of_nat (length (encode_entry s t u v)))"
proof -
  let ?n = "length (encode_entry s t u v)"
  have len: "VarintLength (word_of_nat (length u + 8)) + (length u + 8) + VarintLength (word_of_nat (length v)) +
      length v = ?n"
    using encoded_len [of u v s t] assms(7) by simp
  have small: "unat (word_of_nat ?n :: uint64) = ?n"
    using assms(8) by (simp add: SUB_MEM_SIZE_def)
  have pos: "0 < ?n"
    by (simp add: len [symmetric])
  obtain p a' where p: "ArenaNVM_Allocate os (Some cpu) (word_of_nat ?n) (arena m) = Some (p, a')"
    "alloc_result (arena m) own cpu (word_of_nat ?n) p a'"
    using ArenaNVM_Allocate_ok [OF assms(2-4) _ _ assms(5), of "word_of_nat ?n" os] small assms(8) pos by auto
  show ?thesis
  proof (cases "p = 0")
    case True
    with p(1) have "Add os (Some cpu) new s t u v (mem, m) = Some (False, mem, m\<lparr>arena := a'\<rparr>)"
      by (simp add: Add_def len assms(1) del: of_nat_add)
    then show ?thesis
      using p(2) True by (auto simp: alloc_result_def)
  next
    case False
    then obtain i where i: "arena_ok a' (own(cpu := i))" "block_ok (arena m) own cpu (word_of_nat ?n) p i"
      using p(2) by (auto simp: alloc_result_def)
    have idx: "sub_mem_index a' p = i" "i < sub_mem_count (arena m)"
      using block_index [OF i(2) _ Allocate_keeps_map [OF assms(3) p(1)]] small pos by simp_all
    let ?mem = "write_bytes mem p (encode_entry s t u v)"
    let ?m = "IncrKeys (m\<lparr>arena := a', sub_mem_pending_node :=
            (sub_mem_pending_node m)[i := sub_mem_pending_node m ! i @ [p]]\<rparr>)"
    have add: "Add os (Some cpu) new s t u v (mem, m) = Some (True, ?mem, ?m)"
      using p(1) False idx by (simp add: Add_def len assms(1,6) Let_def del: of_nat_add)
    show ?thesis
      by (rule exI [of _ True], rule exI [of _ ?mem], rule exI [of _ ?m], rule conjI, rule add,
          simp only: if_True, rule exI [of _ p], rule exI [of _ i])
        (use i entry_at_written [OF assms(7), of mem p] entry_at_other [of mem] in \<open>simp add: IncrKeys_def\<close>)
  qed
qed

text \<open>A failed round leaves the core without a sub-memtable, so that every further round
  fails in the same way and changes nothing until another task gives one back.\<close>

lemma Add_fails_again:
  assumes m: "nvmarena (arena m)" "arena_ok (arena m) own" "allocation (arena m)"
      "cpu < length (percore_alloc_ptr (arena m))"
      "percore_alloc_ptr (arena m) ! cpu \<noteq> 0 \<longrightarrow> percore_alloc_bytes_remaining (arena m) ! cpu \<noteq> 0"
      "length (sub_mem_pending_node m) = sub_mem_count (arena m)"
    and e: "entry_ok (u, s, t, v)" "length (encode_entry s t u v) \<le> SUB_MEM_SIZE"
    and fails: "Add os (Some cpu) new s t u v (mem, m) = Some (False, mem', m')"
  shows "Add os (Some cpu) new s t u v (mem', m') = Some (False, mem', m')"
proof -
  have 1: "m' = m\<lparr>arena := seal_core own cpu (arena m)\<rparr>" "arena_ok (arena m') own"
    "\<forall>j < sub_mem_count (arena m). sub_mem_bset (arena m) ! j"
    using Add_queues [OF m e, of os new mem] fails by (auto split: if_splits)
  have free: "percore_alloc_ptr (arena m') ! cpu = 0"
    using 1(1) seal_core_free [OF m(4)] by simp
  have same: "seal_core own cpu (arena m') = arena m'"
    using free by (simp add: seal_core_def)
  have keep: "nvmarena (arena m')" "allocation (arena m')" "cpu < length (percore_alloc_ptr (arena m'))"
    "length (sub_mem_pending_node m') = sub_mem_count (arena m')" "sub_mem_bset (arena m') = sub_mem_bset (arena m)"
    "sub_mem_count (arena m') = sub_mem_count (arena m)"
    using m 1(1) by (simp_all add: seal_core_def)
  have "\<not> block_ok (arena m') own cpu n p i" for n p i
    using 1(3) free keep by (auto simp: block_ok_def)
  with Add_queues [OF keep(1) 1(2) keep(2,3) _ keep(4) e, of os new mem'] free same show ?thesis
    by (auto split: if_splits)
qed

section \<open>Properties\<close>

text \<open>(C6) A memtable lookup returns the newest visible version: on a list that holds
  a sequence of entries, \<^verbatim>\<open>Get\<close> at a snapshot always returns; it reports nothing
  when no version of the user key is visible at the snapshot, and otherwise the
  value of the visible version with the greatest sequence number, or "not found"
  when that version is a deletion.\<close>

theorem memtable_get_newest:
  assumes "list_holds mem l es" "s \<le> kMaxSequenceNumber"
    and "holds_bytes mem kaddr (memtable_key (new_LookupKey u s))" "length u + 8 < 2 ^ 32"
  shows "(\<forall>f \<in> set es. \<not> visible u s f) \<and>
      Get BytewiseComparator mem kaddr l (new_LookupKey u s) value st = Some (False, value, st) \<or>
    (\<exists>e. newest_visible es u s e \<and>
      Get BytewiseComparator mem kaddr l (new_LookupKey u s) value st = Some (report e value st))"
  by (rule Get_list [OF assms])

text \<open>A list with one entry, and a lookup key next to it.\<close>

definition one_entry_mem :: memory where
  "one_entry_mem = write_bytes (write_bytes (\<lambda>_. 0) 100 (encode_entry 7 kTypeValue [1] [42]))
     200 (memtable_key (new_LookupKey [1] 9))"

lemma one_entry_at: "entry_at one_entry_mem 100 ([1], 7, kTypeValue, [42])"
  unfolding one_entry_mem_def
  by (rule entry_at_other [OF entry_at_written]; simp add: kMaxSequenceNumber_def; code_simp)

lemma one_entry_key: "holds_bytes one_entry_mem 200 (memtable_key (new_LookupKey [1] 9))"
  by (simp add: one_entry_mem_def holds_bytes_def read_write_same)

lemma one_entry_list:
  "\<exists>l. Insert (KeyComparator BytewiseComparator one_entry_mem) 1000 100 (new_SkipList 500) = Some l \<and>
     list_holds one_entry_mem l [([1], 7, kTypeValue, [42])]"
proof -
  let ?cmp = "KeyComparator BytewiseComparator one_entry_mem"
  have "skip_holds (key_ptr_ok one_entry_mem) ?cmp (new_SkipList 500) []"
    by (auto simp: skip_holds_def skip_inv_def intro!: new_SkipList_repr)
  from memtable_keys.insert_holds [OF this entry_at_key_ptr [OF one_entry_at], of 1000] obtain l where
    "Insert ?cmp 1000 100 (new_SkipList 500) = Some l" "skip_holds (key_ptr_ok one_entry_mem) ?cmp l [100]"
    by (auto simp: new_SkipList_def NewNode_def kinsert_def)
  with one_entry_at show ?thesis
    by (auto simp: list_holds_def)
qed

theorem memtable_get_newest_witness:
  "\<exists>l. Insert (KeyComparator BytewiseComparator one_entry_mem) 1000 100 (new_SkipList 500) = Some l \<and>
     Get BytewiseComparator one_entry_mem 200 l (new_LookupKey [1] 9) [] None = Some (True, [42], None)"
proof -
  obtain l where l: "Insert (KeyComparator BytewiseComparator one_entry_mem) 1000 100 (new_SkipList 500) = Some l"
    "list_holds one_entry_mem l [([1], 7, kTypeValue, [42])]"
    using one_entry_list by blast
  have "(9 :: uint64) \<le> kMaxSequenceNumber"
    by (simp add: kMaxSequenceNumber_def)
  from memtable_get_newest [OF l(2) this one_entry_key, of "[]" None] l(1) show ?thesis
    by (auto simp: newest_visible_def)
qed

text \<open>(C10) Adding an entry: in a well-formed arena, for an entry that fits into a
  sub-memtable and a core whose current sub-memtable is not exactly full, one
  round of \<^verbatim>\<open>Add\<close> fails only when the entry does not fit into the current
  sub-memtable and every sub-memtable is taken; it then seals the current one, if
  there is one, and changes nothing else.  Otherwise it writes the entry into a free block of one
  sub-memtable, where it can be read back, appends its pointer to the queue of
  exactly that sub-memtable, counts the key, leaves every entry outside the block
  as it was and keeps the arena well formed.\<close>

theorem memtable_add_queues:
  assumes "nvmarena (arena m)" "arena_ok (arena m) own" "allocation (arena m)"
    and "cpu < length (percore_alloc_ptr (arena m))"
    and "percore_alloc_ptr (arena m) ! cpu \<noteq> 0 \<longrightarrow> percore_alloc_bytes_remaining (arena m) ! cpu \<noteq> 0"
    and "length (sub_mem_pending_node m) = sub_mem_count (arena m)"
    and "entry_ok (u, s, t, v)" "length (encode_entry s t u v) \<le> SUB_MEM_SIZE"
  shows "\<exists>done mem' m'. Add os (Some cpu) new s t u v (mem, m) = Some (done, mem', m') \<and>
    (if done then
       \<exists>p i. entry_at mem' p (u, s, t, v) \<and>
         block_ok (arena m) own cpu (word_of_nat (length (encode_entry s t u v))) p i \<and>
         arena_ok (arena m') (own(cpu := i)) \<and>
         sub_mem_pending_node m' = (sub_mem_pending_node m)[i := sub_mem_pending_node m ! i @ [p]] \<and>
         numkeys m' = numkeys m + 1 \<and>
         (\<forall>q u' s' t' v'. entry_at mem q (u', s', t', v') \<and>
            (q + int (length (encode_entry s' t' u' v')) \<le> p \<or> p + int (length (encode_entry s t u v)) \<le> q) \<longrightarrow>
            entry_at mem' q (u', s', t', v'))
     else mem' = mem \<and> m' = m\<lparr>arena := seal_core own cpu (arena m)\<rparr> \<and> arena_ok (arena m') own \<and>
       (\<forall>j < sub_mem_count (arena m). sub_mem_bset (arena m) ! j) \<and>
       percore_alloc_bytes_remaining (arena m) ! cpu < word_of_nat (length (encode_entry s t u v)))"
  by (rule Add_queues [OF assms])

theorem memtable_add_queues_witness:
  "\<exists>mem' m' p i. Add (\<lambda>_. 0) (Some 1) 0 7 kTypeValue [1] [42]
      ((\<lambda>_. 0), new_MemTable 500 [600, 700] example_arena) = Some (True, mem', m') \<and>
    entry_at mem' p ([1], 7, kTypeValue, [42]) \<and> numkeys m' = 1 \<and> i < 2 \<and> sub_mem_pending_node m' = [[], []][i := [p]]"
proof -
  let ?m = "new_MemTable 500 [600, 700] example_arena"
  have m: "arena ?m = example_arena" "sub_mem_pending_node ?m = [[], []]" "numkeys ?m = 0"
    by (simp_all add: new_MemTable_def numeral_2_eq_2)
  have len: "length (encode_entry 7 kTypeValue [1] [42]) = 12"
    by code_simp
  have free: "\<not> (\<forall>j < sub_mem_count example_arena. sub_mem_bset example_arena ! j)"
    by (auto intro: exI [of _ 0])
  have ok: "entry_ok ([1], 7, kTypeValue, [42])"
    by (simp add: kMaxSequenceNumber_def)
  have pend: "[[], []] ! i @ [p] = [p]" if "i < 2" for i :: nat and p :: ptr
    using that by (auto simp: less_2_cases_iff)
  from memtable_add_queues [of ?m id 1 "[1]" 7 kTypeValue "[42]" "\<lambda>_. 0" 0 "\<lambda>_. 0"] obtain "done" mem' m'
    where add: "Add (\<lambda>_. 0) (Some 1) 0 7 kTypeValue [1] [42] ((\<lambda>_. 0), ?m) = Some (done, mem', m')"
      "done" and res: "\<exists>p i. entry_at mem' p ([1], 7, kTypeValue, [42]) \<and>
        block_ok example_arena id 1 (word_of_nat 12) p i \<and>
        sub_mem_pending_node m' = [[], []][i := [[], []] ! i @ [p]] \<and> numkeys m' = 1"
    using free ok by (simp add: m len SUB_MEM_SIZE_def example_arena_ok split: if_splits) blast
  from res obtain p i where "entry_at mem' p ([1], 7, kTypeValue, [42])" "i < 2"
      "sub_mem_pending_node m' = [[], []][i := [[], []] ! i @ [p]]" "numkeys m' = 1"
    by (auto simp: block_ok_def)
  with add pend show ?thesis
    by auto
qed

lemma scan_unsealed:
  "\<forall>i < length bs. i < length ibs \<longrightarrow> \<not> (bs ! i \<and> ibs ! i) \<Longrightarrow> scan_submem cmp kaddr bs ibs ls = Some None"
proof (induction cmp kaddr bs ibs ls rule: scan_submem.induct)
  case (1 cmp kaddr b bs ib ibs l ls)
  from "1.prems" have "\<not> b \<or> \<not> ib"
    by (metis length_greater_0_conv list.discI nth_Cons_0)
  moreover have "\<forall>i < length bs. i < length ibs \<longrightarrow> \<not> (bs ! i \<and> ibs ! i)"
    using "1.prems" by (metis length_Cons not_less_eq nth_Cons_Suc)
  ultimately show ?case
    using "1.IH"(1) by simp
qed simp_all

text \<open>(C23) The lookup in the sub-memtables reads sealed sub-memtables only: whatever
  the lists hold, when no sub-memtable is both in use and sealed, \<^verbatim>\<open>Get_submem\<close>
  reports that the key is absent.\<close>

theorem get_submem_needs_sealed:
  assumes "\<forall>i < length (sub_mem_bset (arena m)). i < length (sub_immem_bset (arena m)) \<longrightarrow>
      \<not> (sub_mem_bset (arena m) ! i \<and> sub_immem_bset (arena m) ! i)"
  shows "Get_submem c mem kaddr m key value st = Some (False, value, st)"
  using scan_unsealed [OF assms] by (simp add: Get_submem_def)

theorem get_submem_needs_sealed_witness:
  "\<exists>l. Insert (KeyComparator BytewiseComparator one_entry_mem) 1000 100 (new_SkipList 500) = Some l \<and>
     Get BytewiseComparator one_entry_mem 200 l (new_LookupKey [1] 9) [] None = Some (True, [42], None) \<and>
     Get_submem BytewiseComparator one_entry_mem 200
       ((new_MemTable 600 [700, 800] (example_arena\<lparr>sub_mem_bset := [True, True]\<rparr>))\<lparr>sub_mem_skiplist := [l, l]\<rparr>)
       (new_LookupKey [1] 9) [] None = Some (False, [], None)"
proof -
  obtain l where l: "Insert (KeyComparator BytewiseComparator one_entry_mem) 1000 100 (new_SkipList 500) = Some l"
    "list_holds one_entry_mem l [([1], 7, kTypeValue, [42])]"
    using one_entry_list by blast
  let ?m = "(new_MemTable 600 [700, 800] (example_arena\<lparr>sub_mem_bset := [True, True]\<rparr>))\<lparr>sub_mem_skiplist := [l, l]\<rparr>"
  have "(9 :: uint64) \<le> kMaxSequenceNumber"
    by (simp add: kMaxSequenceNumber_def)
  from Get_list [OF l(2) this one_entry_key, of "[]" None]
  have "Get BytewiseComparator one_entry_mem 200 l (new_LookupKey [1] 9) [] None = Some (True, [42], None)"
    by (auto simp: newest_visible_def)
  moreover have "Get_submem BytewiseComparator one_entry_mem 200 ?m (new_LookupKey [1] 9) [] None =
      Some (False, [], None)"
    by (rule get_submem_needs_sealed)
      (auto simp: new_MemTable_def example_arena_def new_ArenaNVM_def less_Suc_eq numeral_2_eq_2 SUB_MEM_SIZE_def)
  ultimately show ?thesis
    using l(1) by blast
qed

end
