(* ===== verification/Pipeline.thy ===== *)
theory Pipeline
  imports MemTable "HOL-Library.Multiset"
begin

text \<open>
  The write path of the store (\<^verbatim>\<open>db/db_impl.cc\<close>): \<^verbatim>\<open>Write\<close> queues entries in
  sub-memtables, \<^verbatim>\<open>skiplistBackgroundSync\<close> inserts the queued pointers into the
  skip list of their sub-memtable, \<^verbatim>\<open>subImmToImm\<close> copies a sealed sub-memtable to a
  memtable of its own and frees it, \<^verbatim>\<open>compactImm\<close> moves the nodes of such memtables
  into the list of the active memtable, and \<^verbatim>\<open>Get\<close> reads.  A background task runs
  as one step.  What the code gets from elsewhere is an argument: the comparator,
  the addresses of new skip list nodes, the mapping of memory and the core number.
\<close>

section \<open>Definitions\<close>

text \<open>A job handed to \<^verbatim>\<open>env_->Schedule\<close>.\<close>

datatype job = SubImmToImm nat | CompactImm | SkiplistSync

text \<open>The state of \<^verbatim>\<open>DBImpl\<close> that the write path uses, with the byte memory.  The queue
  \<^verbatim>\<open>subImmQue\<close> is a field of the active memtable in the code; a memtable that is
  itself queued has an empty one.\<close>

record Db =
  heap :: memory
  dbmem :: MemTable
  subImmQue :: "MemTable list"
  compactImmQue :: "MemTable list"
  inSkiplistBgSync :: bool
  inCompactImm :: bool
  subImmCount :: int
  subImmKill :: bool
  subImm_thread :: nat
  subImm_partition :: bool
  compactImm_threshold :: nat
  skiplistSync_threshold :: nat
  nvmbuff :: nat
  next_file_number :: uint64
  mapfile_number :: uint64
  last_sequence :: uint64
  bg_error :: Status
  scheduled :: "job list"

text \<open>The constructor, with the memtable that \<^verbatim>\<open>DB::Open\<close> gives it and the options of the
  write path.\<close>

definition new_DBImpl :: "nat \<Rightarrow> bool \<Rightarrow> nat \<Rightarrow> nat \<Rightarrow> nat \<Rightarrow> memory \<Rightarrow> MemTable \<Rightarrow> Db" where
  "new_DBImpl thread part compact_t sync_t nvm_buffer_size mem m =
     \<lparr> heap = mem, dbmem = m, subImmQue = [], compactImmQue = [], inSkiplistBgSync = False,
       inCompactImm = False, subImmCount = 0, subImmKill = False, subImm_thread = thread,
       subImm_partition = part, compactImm_threshold = compact_t, skiplistSync_threshold = sync_t,
       nvmbuff = nvm_buffer_size, next_file_number = 2, mapfile_number = 0, last_sequence = 0,
       bg_error = OK, scheduled = [] \<rparr>"

text \<open>Inserting queued pointers: \<open>addrs\<close> are the addresses the arena gives to the new
  nodes; \<open>None\<close> when it has no memory left.\<close>

fun insert_pending :: "(ptr \<Rightarrow> ptr \<Rightarrow> int) \<Rightarrow> ptr list \<Rightarrow> ptr list \<Rightarrow> SkipList \<Rightarrow> SkipList option" where
  "insert_pending cmp addrs [] l = Some l"
| "insert_pending cmp (a # addrs) (buf # bufs) l =
     do { l \<leftarrow> Insert cmp a buf l; insert_pending cmp addrs bufs l }"
| "insert_pending cmp [] (buf # bufs) l = None"

definition drain_sub :: "(ptr \<Rightarrow> ptr \<Rightarrow> int) \<Rightarrow> ptr list \<Rightarrow> nat \<Rightarrow> MemTable \<Rightarrow> MemTable option" where
  "drain_sub cmp addrs i m =
     (let pending = length (sub_mem_pending_node m ! i); index = sub_mem_pending_node_index m ! i in
      if index < pending then
        do {
          l \<leftarrow> insert_pending cmp addrs (drop index (sub_mem_pending_node m ! i)) (sub_mem_skiplist m ! i);
          Some (m\<lparr>sub_mem_skiplist := (sub_mem_skiplist m)[i := l],
                  sub_mem_pending_node_index := (sub_mem_pending_node_index m)[i := pending]\<rparr>)
        }
      else Some m)"

definition set_in_trans :: "nat \<Rightarrow> bool \<Rightarrow> MemTable \<Rightarrow> MemTable" where
  "set_in_trans i b m =
     m\<lparr>arena := (arena m)\<lparr>in_trans_bset := (in_trans_bset (arena m))[i := b]\<rparr>\<rparr>"

fun sync_subs :: "(ptr \<Rightarrow> ptr \<Rightarrow> int) \<Rightarrow> (nat \<Rightarrow> ptr list) \<Rightarrow> nat list \<Rightarrow> MemTable \<Rightarrow> MemTable option" where
  "sync_subs cmp addrs [] m = Some m"
| "sync_subs cmp addrs (i # is) m =
     (if sub_mem_bset (arena m) ! i \<and> \<not> in_trans_bset (arena m) ! i then
        do {
          m \<leftarrow> drain_sub cmp (addrs i) i (set_in_trans i True m);
          sync_subs cmp addrs is (set_in_trans i False m)
        }
      else sync_subs cmp addrs is m)"

definition skiplistBackgroundSync :: "comparator \<Rightarrow> (nat \<Rightarrow> ptr list) \<Rightarrow> Db \<Rightarrow> Db option" where
  "skiplistBackgroundSync c addrs db =
     do {
       m \<leftarrow> sync_subs (KeyComparator c (heap db)) addrs [0..<sub_mem_count (arena (dbmem db))] (dbmem db);
       Some (db\<lparr>dbmem := m, inSkiplistBgSync := False\<rparr>)
     }"

text \<open>\<^verbatim>\<open>CreateNVMtable\<close>: \<open>hp\<close> and \<open>heads\<close> are the addresses of the head nodes of the new
  lists, \<open>cores\<close> the number of cores online.\<close>

definition CreateNVMtable :: "ptr \<Rightarrow> ptr list \<Rightarrow> nat \<Rightarrow> bool \<Rightarrow> Db \<Rightarrow> MemTable \<times> Db" where
  "CreateNVMtable hp heads cores assign_map db =
     (let new_map_number = next_file_number db;
          db = db\<lparr>next_file_number := next_file_number db + 1\<rparr>;
          db = (if \<not> assign_map then db\<lparr>mapfile_number := new_map_number\<rparr> else db);
          mem = new_MemTable hp heads (new_ArenaNVM (nvmbuff db) cores)
      in (mem\<lparr>isNVMMemtable := True\<rparr>, db))"

text \<open>The head of the new memtable takes over the links of the sub-memtable, level by
  level.  Each list has its own node store here, so the records of the linked
  nodes change stores with the links.\<close>

fun move_levels :: "nat list \<Rightarrow> ptr \<Rightarrow> store \<Rightarrow> ptr \<Rightarrow> store \<Rightarrow> (store \<times> store) option" where
  "move_levels [] to nt from nf = Some (nt, nf)"
| "move_levels (i # is) to nt from nf =
     do {
       x \<leftarrow> node_Next nf from i;
       nt \<leftarrow> node_SetNext nt to i x;
       nf \<leftarrow> node_SetNext nf from i 0;
       move_levels is to nt from nf
     }"

definition move_list :: "SkipList \<Rightarrow> SkipList \<Rightarrow> (SkipList \<times> SkipList) option" where
  "move_list to from =
     do {
       (nt, nf) \<leftarrow> move_levels [0..<kMaxHeight] (head to) (nodes to) (head from) (nodes from);
       Some (to\<lparr>nodes := (nf(head from := None)) ++ nt\<rparr>, from\<lparr>nodes := nf |` {head from}\<rparr>)
     }"

text \<open>The walk that rebases the key pointers onto the copy.\<close>

partial_function (option) rebase_keys :: "int \<Rightarrow> ptr \<Rightarrow> store \<Rightarrow> store option" where
  "rebase_keys off node ns =
     (if node = 0 then Some ns
      else do {
        nd \<leftarrow> ns node;
        let ns = ns(node \<mapsto> nd\<lparr>key_offset := key_offset nd + off\<rparr>);
        nx \<leftarrow> node_Next ns node 0;
        rebase_keys off nx ns
      })"

definition sub_start :: "Arena \<Rightarrow> nat \<Rightarrow> ptr" where
  "sub_start a i = map_start a + int (SUB_MEM_SIZE * i)"

text \<open>Taking the bit of a sealed sub-memtable, and giving the sub-memtable back with an
  empty list and queue.\<close>

definition take_sealed :: "nat \<Rightarrow> MemTable \<Rightarrow> MemTable" where
  "take_sealed i m =
     m\<lparr>arena := (arena m)\<lparr>sub_immem_bset := (sub_immem_bset (arena m))[i := False],
                          sub_immem_count := sub_immem_count (arena m) - 1\<rparr>\<rparr>"

definition release_sub :: "nat \<Rightarrow> SkipList \<Rightarrow> MemTable \<Rightarrow> MemTable" where
  "release_sub i l m =
     m\<lparr>sub_mem_skiplist := (sub_mem_skiplist m)[i := l],
       sub_mem_pending_node := (sub_mem_pending_node m)[i := []],
       sub_mem_pending_node_index := (sub_mem_pending_node_index m)[i := 0],
       arena := (arena m)\<lparr>skiplist_blocks := (skiplist_blocks (arena m))[i := []],
                          sub_immem_bset := (sub_immem_bset (arena m))[i := False],
                          sub_mem_bset := (sub_mem_bset (arena m))[i := False]\<rparr>\<rparr>"

text \<open>One round of \<^verbatim>\<open>subImmToImm\<close> for the sealed sub-memtable \<open>i\<close>.  \<open>None\<close> while another
  task holds the sub-memtable or the queue.\<close>

definition seal_round ::
    "comparator \<Rightarrow> (uint64 \<Rightarrow> ptr) \<Rightarrow> nat \<Rightarrow> ptr \<Rightarrow> ptr list \<Rightarrow> ptr list \<Rightarrow> nat \<Rightarrow> Db \<Rightarrow> Db option" where
  "seal_round c os cores hp heads addrs i db =
     (let m = take_sealed i (dbmem db) in
      if in_trans_bset (arena m) ! i then None
      else do {
        let (imm, db) = CreateNVMtable hp heads cores False db;
        let imm_arena = snd (AllocateFallbackNVM os (word_of_nat SUB_MEM_SIZE) ((arena imm)\<lparr>isDataLock := False\<rparr>));
        m \<leftarrow> drain_sub (KeyComparator c (heap db)) addrs i (set_in_trans i True m);
        let src = sub_start (arena m) i;
        let mem = write_bytes (heap db) (map_start imm_arena) (read_bytes (heap db) src SUB_MEM_SIZE);
        (t, l) \<leftarrow> move_list (table imm) (sub_mem_skiplist m ! i);
        first \<leftarrow> iter_SeekToFirst t;
        ns \<leftarrow> rebase_keys (map_start imm_arena - src) first (nodes t);
        let imm = imm\<lparr>table := t\<lparr>nodes := ns\<rparr>, arena := imm_arena\<lparr>blocks := skiplist_blocks (arena m) ! i\<rparr>\<rparr>;
        if isQueBusy m then None
        else Some (db\<lparr>heap := mem, dbmem := set_in_trans i False (release_sub i l m),
                      subImmQue := imm # subImmQue db\<rparr>)
      })"

text \<open>The sub-memtables a worker looks after, and the first sealed one of them.\<close>

definition sub_imm_range :: "nat \<Rightarrow> Db \<Rightarrow> nat list" where
  "sub_imm_range ImmNum db =
     (let n = sub_mem_count (arena (dbmem db)) div subImm_thread db; begin = n * ImmNum in
      if subImm_partition db then [begin..<begin + n] else [0..<sub_mem_count (arena (dbmem db))])"

definition find_sealed :: "nat \<Rightarrow> Db \<Rightarrow> nat option" where
  "find_sealed ImmNum db = find (\<lambda>i. sub_immem_bset (arena (dbmem db)) ! i) (sub_imm_range ImmNum db)"

text \<open>The worker of \<^verbatim>\<open>subImmToImm\<close> as a sequence of polls, one for each element of the
  last argument, which gives the addresses its round uses.  The first component
  says whether the worker has ended: its number is too large, or it finds nothing
  to do and \<^verbatim>\<open>subImmKill\<close> is set.\<close>

fun subImmToImm ::
    "comparator \<Rightarrow> (uint64 \<Rightarrow> ptr) \<Rightarrow> nat \<Rightarrow> nat \<Rightarrow> (ptr \<times> ptr list \<times> ptr list) list \<Rightarrow> Db \<Rightarrow> (bool \<times> Db) option" where
  "subImmToImm c os cores ImmNum [] db = Some (ImmNum > subImm_thread db, db)"
| "subImmToImm c os cores ImmNum ((hp, heads, addrs) # ps) db =
     (if ImmNum > subImm_thread db then Some (True, db)
      else case find_sealed ImmNum db of
        None \<Rightarrow>
          if subImmKill db then Some (True, db\<lparr>subImmCount := subImmCount db - 1\<rparr>)
          else subImmToImm c os cores ImmNum ps db
      | Some i \<Rightarrow>
          do { db \<leftarrow> seal_round c os cores hp heads addrs i db; subImmToImm c os cores ImmNum ps db })"

text \<open>Moving the nodes of a queued memtable, in list order, into the active list.\<close>

partial_function (option) move_nodes :: "(ptr \<Rightarrow> ptr \<Rightarrow> int) \<Rightarrow> store \<Rightarrow> ptr \<Rightarrow> SkipList \<Rightarrow> SkipList option" where
  "move_nodes cmp ns node l =
     (if node = 0 then Some l
      else do {
        nd \<leftarrow> ns node;
        nx \<leftarrow> node_Next ns node 0;
        l \<leftarrow> InsertNode cmp node (l\<lparr>nodes := (nodes l)(node \<mapsto> nd)\<rparr>);
        move_nodes cmp ns nx l
      })"

declare rebase_keys.simps [code] move_nodes.simps [code]

fun merge_imms :: "(ptr \<Rightarrow> ptr \<Rightarrow> int) \<Rightarrow> MemTable list \<Rightarrow> SkipList \<Rightarrow> SkipList option" where
  "merge_imms cmp [] l = Some l"
| "merge_imms cmp (imm # imms) l =
     do {
       first \<leftarrow> iter_SeekToFirst (table imm);
       l \<leftarrow> move_nodes cmp (nodes (table imm)) first l;
       merge_imms cmp imms l
     }"

text \<open>The loop of \<^verbatim>\<open>compactImm\<close>; \<open>arrivals\<close> are the memtables other tasks queue during
  each round.  The loop returns early, with \<^verbatim>\<open>inCompactImm\<close> still set, when it finds
  the queue busy.\<close>

fun compact_rounds :: "comparator \<Rightarrow> MemTable list list \<Rightarrow> Db \<Rightarrow> Db option" where
  "compact_rounds c arrivals db =
     (if isQueBusy (dbmem db) then Some db
      else do {
        l \<leftarrow> merge_imms (KeyComparator c (heap db)) (subImmQue db) (table (dbmem db));
        let db = db\<lparr>dbmem := (dbmem db)\<lparr>table := l\<rparr>, compactImmQue := compactImmQue db @ subImmQue db,
                    subImmQue := (case arrivals of [] \<Rightarrow> [] | q # _ \<Rightarrow> q)\<rparr>;
        case arrivals of
          [] \<Rightarrow> Some (db\<lparr>inCompactImm := False\<rparr>)
        | q # rest \<Rightarrow>
            if length q > compactImm_threshold db then compact_rounds c rest db
            else Some (db\<lparr>inCompactImm := False\<rparr>)
      })"

definition compactImm :: "comparator \<Rightarrow> MemTable list list \<Rightarrow> Db \<Rightarrow> Db option" where
  "compactImm c arrivals db =
     (if inCompactImm db then Some db else compact_rounds c arrivals (db\<lparr>inCompactImm := True\<rparr>))"

text \<open>One round of the loop of \<^verbatim>\<open>MakeRoomForWrite\<close>; the status is \<open>None\<close> when the loop
  goes round again.\<close>

definition room_round :: "Db \<Rightarrow> Status option \<times> Db" where
  "room_round db =
     (let a = arena (dbmem db);
          tmp_imm_count = length (filter (\<lambda>b. b) (take (sub_mem_count a) (sub_immem_bset a)));
          tmp_mem_count = length (filter (\<lambda>b. b) (take (sub_mem_count a) (sub_mem_bset a)))
      in
      if \<not> ok (bg_error db) then (Some (bg_error db), db)
      else
        let started = subImmCount db;
            db = (if tmp_imm_count \<noteq> 0 then db\<lparr>subImmCount := 1\<rparr> else db)
        in
        if tmp_imm_count \<noteq> 0 \<and> started = 0 then
          (Some OK, db\<lparr>scheduled := scheduled db @ map SubImmToImm [0..<subImm_thread db]\<rparr>)
        else if compactImm_threshold db > 0 \<and> length (subImmQue db) > compactImm_threshold db \<and> \<not> inCompactImm db then
          (None, db\<lparr>scheduled := scheduled db @ [CompactImm]\<rparr>)
        else if tmp_mem_count < sub_mem_count a then (Some OK, db)
        else (None, db))"

text \<open>The loop; \<open>others\<close> is what the other tasks do after each round.  \<open>None\<close> when the
  writer is still waiting at the end.\<close>

fun room_loop :: "(Db \<Rightarrow> Db) list \<Rightarrow> Db \<Rightarrow> (Status \<times> Db) option" where
  "room_loop others db =
     (case room_round db of
        (Some s, db) \<Rightarrow> Some (s, db)
      | (None, db) \<Rightarrow> (case others of [] \<Rightarrow> None | f # fs \<Rightarrow> room_loop fs (f db)))"

definition MakeRoomForWrite :: "(Db \<Rightarrow> Db) list \<Rightarrow> Db \<Rightarrow> (Status \<times> Db) option" where
  "MakeRoomForWrite others db =
     map_option (\<lambda>(s, db).
       (s, if skiplistSync_threshold db > 0 \<and> unat (numkeys (dbmem db)) > 1 \<and>
             unat (numkeys (dbmem db)) mod skiplistSync_threshold db = 1 \<and> \<not> inSkiplistBgSync db
           then db\<lparr>inSkiplistBgSync := True, scheduled := scheduled db @ [SkiplistSync]\<rparr>
           else db))
       (room_loop others db)"

definition LastSequence :: "Db \<Rightarrow> uint64" where
  "LastSequence db = last_sequence db"

definition SetLastSequence :: "uint64 \<Rightarrow> Db \<Rightarrow> Db" where
  "SetLastSequence s db = db\<lparr>last_sequence := last_sequence db + s\<rparr>"

text \<open>\<^verbatim>\<open>Add\<close> until it succeeds.  A first round that fails may seal the sub-memtable of the
  core; every further round then fails without changing anything
  (\<open>Add_fails_again\<close>), so that the loop of this writer alone does not end: \<open>None\<close>.\<close>

definition add_entry ::
    "(uint64 \<Rightarrow> ptr) \<Rightarrow> nat option \<Rightarrow> ptr \<Rightarrow> SequenceNumber \<Rightarrow> ValueType \<Rightarrow> bytes \<Rightarrow> bytes \<Rightarrow>
     (memory \<times> MemTable) option \<Rightarrow> (memory \<times> MemTable) option" where
  "add_entry os getcpu new s t key value st =
     do { st \<leftarrow> st; (done, st) \<leftarrow> Add os getcpu new s t key value st; if done then Some st else None }"

definition DB_Write ::
    "(Db \<Rightarrow> Db) list \<Rightarrow> (uint64 \<Rightarrow> ptr) \<Rightarrow> nat option \<Rightarrow> ptr \<Rightarrow> WriteBatch option \<Rightarrow> Db \<Rightarrow> (Status \<times> Db) option" where
  "DB_Write others os getcpu new my_batch db =
     do {
       (status, db) \<leftarrow> MakeRoomForWrite others db;
       case my_batch of
         Some updates \<Rightarrow>
           if ok status then
             let (status, st) = InsertInto (add_entry os getcpu new) updates (Some (heap db, dbmem db)) in
             do { (h, m) \<leftarrow> st;
                  Some (status, SetLastSequence (word_of_int (Count updates)) (db\<lparr>heap := h, dbmem := m\<rparr>)) }
           else Some (status, db)
       | None \<Rightarrow> Some (status, db)
     }"

definition DB_Put ::
    "(Db \<Rightarrow> Db) list \<Rightarrow> (uint64 \<Rightarrow> ptr) \<Rightarrow> nat option \<Rightarrow> ptr \<Rightarrow> bytes \<Rightarrow> bytes \<Rightarrow> Db \<Rightarrow> (Status \<times> Db) option" where
  "DB_Put others os getcpu new key value db =
     DB_Write others os getcpu new (Some (Put new_WriteBatch key value)) db"

definition DB_Delete ::
    "(Db \<Rightarrow> Db) list \<Rightarrow> (uint64 \<Rightarrow> ptr) \<Rightarrow> nat option \<Rightarrow> ptr \<Rightarrow> bytes \<Rightarrow> Db \<Rightarrow> (Status \<times> Db) option" where
  "DB_Delete others os getcpu new key db =
     DB_Write others os getcpu new (Some (Delete new_WriteBatch key)) db"

text \<open>What a reader does first.  The wait for a synchronisation that another task runs
  ends at once, since it waits for the flag to be set.\<close>

definition reader_sync :: "comparator \<Rightarrow> (nat \<Rightarrow> ptr list) \<Rightarrow> Db \<Rightarrow> Db option" where
  "reader_sync c addrs db =
     do {
       db \<leftarrow> (if \<not> inSkiplistBgSync db then skiplistBackgroundSync c addrs (db\<lparr>inSkiplistBgSync := True\<rparr>)
              else Some db);
       if subImmQue db \<noteq> [] \<and> \<not> inCompactImm db then compactImm c [] db else Some db
     }"

text \<open>\<^verbatim>\<open>Get\<close>: \<open>snapshot\<close> is the sequence number of the snapshot in the read options, if
  any; the lookup key is built at \<open>kaddr\<close>.  The result is the status, the value and
  the new state.\<close>

definition DB_Get ::
    "comparator \<Rightarrow> (nat \<Rightarrow> ptr list) \<Rightarrow> ptr \<Rightarrow> SequenceNumber option \<Rightarrow> bytes \<Rightarrow> bytes \<Rightarrow> Db \<Rightarrow>
     (Status \<times> bytes \<times> Db) option" where
  "DB_Get c addrs kaddr snapshot key value db =
     do {
       db \<leftarrow> reader_sync c addrs db;
       let snapshot = (case snapshot of Some s \<Rightarrow> s | None \<Rightarrow> LastSequence db);
       let lkey = new_LookupKey key snapshot;
       let mem = write_bytes (heap db) kaddr (memtable_key lkey);
       (found, value, s) \<leftarrow> Get_submem c mem kaddr (dbmem db) lkey value OK;
       if found then Some (s, value, db\<lparr>heap := mem\<rparr>)
       else do {
         (found, value, s) \<leftarrow> MemTable.Get c mem kaddr (table (dbmem db)) lkey value s;
         Some (s, value, db\<lparr>heap := mem\<rparr>)
       }
     }"

text \<open>\<^verbatim>\<open>BuildBatchGroup\<close>, the batch for a queue of writers: each has a batch, if any, and
  its sync flag.  The result is the batch to write and the number of writers
  after the first it covers.\<close>

fun group_loop ::
    "bool \<Rightarrow> nat \<Rightarrow> (WriteBatch option \<times> bool) list \<Rightarrow> nat \<Rightarrow> nat \<Rightarrow> WriteBatch \<Rightarrow> WriteBatch option \<Rightarrow> WriteBatch \<times> nat" where
  "group_loop fsync max_size [] sz n first result =
     ((case result of None \<Rightarrow> first | Some r \<Rightarrow> r), n)"
| "group_loop fsync max_size ((b, sync) # ws) sz n first result =
     (let out = ((case result of None \<Rightarrow> first | Some r \<Rightarrow> r), n) in
      if sync \<and> \<not> fsync then out
      else case b of
        None \<Rightarrow> group_loop fsync max_size ws sz (n + 1) first result
      | Some b \<Rightarrow>
          let sz = sz + length b in
          if sz > max_size then out
          else
            let r = (case result of None \<Rightarrow> Append new_WriteBatch first | Some r \<Rightarrow> r) in
            group_loop fsync max_size ws sz (n + 1) first (Some (Append r b)))"

definition BuildBatchGroup :: "WriteBatch \<Rightarrow> bool \<Rightarrow> (WriteBatch option \<times> bool) list \<Rightarrow> WriteBatch \<times> nat" where
  "BuildBatchGroup first fsync ws =
     (let sz = length first;
          max_size = (if sz \<le> 131072 then sz + 131072 else 1048576)
      in group_loop fsync max_size ws sz 0 first None)"

section \<open>Lists of entries in a region of memory\<close>

fun extent :: "ptr \<Rightarrow> entry \<Rightarrow> int set" where
  "extent p (u, s, t, v) = {p..<p + int (length (encode_entry s t u v))}"

definition entry_in :: "memory \<Rightarrow> int set \<Rightarrow> ptr \<Rightarrow> entry \<Rightarrow> bool" where
  "entry_in mem R p e \<longleftrightarrow> entry_at mem p e \<and> extent p e \<subseteq> R"

definition list_in :: "memory \<Rightarrow> int set \<Rightarrow> SkipList \<Rightarrow> entry list \<Rightarrow> bool" where
  "list_in mem R l es \<longleftrightarrow>
     (\<exists>ks. skip_holds (key_ptr_ok mem) (KeyComparator BytewiseComparator mem) l ks \<and> list_all2 (entry_in mem R) ks es)"

text \<open>An entry inserted before those that are not smaller.\<close>

definition einsert :: "entry \<Rightarrow> entry list \<Rightarrow> entry list" where
  "einsert e es =
     takeWhile (\<lambda>f. ikey_cmp (entry_key f) (entry_key e) < 0) es @ e #
     dropWhile (\<lambda>f. ikey_cmp (entry_key f) (entry_key e) < 0) es"

lemma mset_einsert [simp]: "mset (einsert e es) = add_mset e (mset es)"
  by (simp add: einsert_def) (metis mset_append takeWhile_dropWhile_id)

lemma mset_fold_einsert [simp]: "mset (fold einsert ps es) = mset ps + mset es"
  by (induction ps arbitrary: es) simp_all

lemma entry_inD: "entry_in mem R p e \<Longrightarrow> entry_at mem p e"
  by (simp add: entry_in_def)

lemma list_in_holds: "list_in mem R l es \<Longrightarrow> list_holds mem l es"
  unfolding list_in_def list_holds_def by (meson entry_inD list_all2_mono)

lemma takeWhile_list_all2:
  assumes "list_all2 R xs ys" "\<And>x y. R x y \<Longrightarrow> P x = Q y"
  shows "list_all2 R (takeWhile P xs) (takeWhile Q ys)"
  using assms(1) by (induction rule: list_all2_induct) (auto simp: assms(2))

lemma kinsert_einsert:
  assumes "list_all2 (entry_in mem R) ks es" "entry_in mem R p e"
  shows "list_all2 (entry_in mem R) (kinsert (KeyComparator BytewiseComparator mem) p ks) (einsert e es)"
proof -
  have eq: "(KeyComparator BytewiseComparator mem q p < 0) = (ikey_cmp (entry_key f) (entry_key e) < 0)"
    if "entry_in mem R q f" for q f
    using KeyComparator_entries [OF entry_inD [OF that] entry_inD [OF assms(2)]] by simp
  show ?thesis
    unfolding kinsert_def einsert_def
    using takeWhile_list_all2 [OF assms(1) eq] dropWhile_list_all2 [OF assms(1) eq] assms(2)
    by (intro list_all2_appendI list.rel_intros)
qed

lemma list_in_insert:
  assumes "list_in mem R l es" "entry_in mem R p e" "a \<noteq> 0" "nodes l a = None"
  shows "\<exists>l'. Insert (KeyComparator BytewiseComparator mem) a p l = Some l' \<and> list_in mem R l' (einsert e es) \<and>
    head l' = head l \<and> dom (nodes l') = insert a (dom (nodes l))"
proof -
  let ?cmp = "KeyComparator BytewiseComparator mem"
  obtain ks where ks: "skip_holds (key_ptr_ok mem) ?cmp l ks" "list_all2 (entry_in mem R) ks es"
    using assms(1) by (auto simp: list_in_def)
  obtain l' where "Insert ?cmp a p l = Some l'" "skip_holds (key_ptr_ok mem) ?cmp l' (kinsert ?cmp p ks)"
    "head l' = head l" "dom (nodes l') = insert a (dom (nodes l))"
    using memtable_keys.insert_holds [OF ks(1) entry_at_key_ptr [OF entry_inD [OF assms(2)]] assms(3,4)] by blast
  with kinsert_einsert [OF ks(2) assms(2)] show ?thesis
    by (auto simp: list_in_def)
qed

lemma list_in_insert_node:
  assumes "list_in mem R l es" "entry_in mem R (key_offset nd) e" "a \<noteq> 0" "nodes l a = None"
    and nd: "length (links nd) = height nd" "1 \<le> height nd" "height nd \<le> kMaxHeight"
  shows "\<exists>l'. InsertNode (KeyComparator BytewiseComparator mem) a (l\<lparr>nodes := (nodes l)(a \<mapsto> nd)\<rparr>) = Some l' \<and>
    list_in mem R l' (einsert e es) \<and> head l' = head l \<and> dom (nodes l') = insert a (dom (nodes l))"
proof -
  let ?cmp = "KeyComparator BytewiseComparator mem" and ?p = "key_offset nd"
  obtain ks where ks: "skip_holds (key_ptr_ok mem) ?cmp l ks" "list_all2 (entry_in mem R) ks es"
    using assms(1) by (auto simp: list_in_def)
  obtain l' where "InsertNode ?cmp a (l\<lparr>nodes := (nodes l)(a \<mapsto> nd)\<rparr>) = Some l'"
    "skip_holds (key_ptr_ok mem) ?cmp l' (kinsert ?cmp ?p ks)"
    "head l' = head l" "dom (nodes l') = insert a (dom (nodes l))"
    using memtable_keys.insert_node_holds [OF ks(1) entry_at_key_ptr [OF entry_inD [OF assms(2)]] assms(3,4) nd]
    by blast
  with kinsert_einsert [OF ks(2) assms(2)] show ?thesis
    by (auto simp: list_in_def)
qed

lemma insert_pending_in:
  assumes "list_in mem R l es" "list_all2 (entry_in mem R) bufs ps"
    and "length bufs \<le> length addrs" "distinct addrs" "0 \<notin> set addrs" "set addrs \<inter> dom (nodes l) = {}"
  shows "\<exists>l'. insert_pending (KeyComparator BytewiseComparator mem) addrs bufs l = Some l' \<and>
    list_in mem R l' (fold einsert ps es) \<and> head l' = head l \<and> dom (nodes l') \<subseteq> dom (nodes l) \<union> set addrs"
  using assms
proof (induction bufs arbitrary: addrs ps l es)
  case (Cons b bufs)
  then obtain e ps' a addrs' where c: "ps = e # ps'" "entry_in mem R b e" "list_all2 (entry_in mem R) bufs ps'"
    "addrs = a # addrs'"
    by (cases addrs; cases ps) auto
  obtain l1 where l1: "Insert (KeyComparator BytewiseComparator mem) a b l = Some l1"
    "list_in mem R l1 (einsert e es)" "head l1 = head l" "dom (nodes l1) = insert a (dom (nodes l))"
    using list_in_insert [OF Cons.prems(1) c(2), of a] Cons.prems c(4) by auto
  have "set addrs' \<inter> dom (nodes l1) = {}"
    using Cons.prems c(4) by (auto simp: l1(4))
  moreover have "length bufs \<le> length addrs'" "distinct addrs'" "0 \<notin> set addrs'"
    using Cons.prems c(4) by auto
  ultimately obtain l2 where
    "insert_pending (KeyComparator BytewiseComparator mem) addrs' bufs l1 = Some l2"
    "list_in mem R l2 (fold einsert ps' (einsert e es))" "head l2 = head l1"
    "dom (nodes l2) \<subseteq> dom (nodes l1) \<union> set addrs'"
    using Cons.IH [OF l1(2) c(3), of addrs'] by blast
  with l1 c show ?case
    by auto
qed simp

section \<open>Sub-memtables\<close>

definition sub_region :: "Arena \<Rightarrow> nat \<Rightarrow> int set" where
  "sub_region a i = {sub_start a i..<sub_start a i + int SUB_MEM_SIZE}"

text \<open>Sub-memtable \<open>i\<close> holds the entries \<open>es\<close> in its list and \<open>ps\<close> in its queue, all of
  them in its own region.\<close>

definition sub_holds :: "memory \<Rightarrow> MemTable \<Rightarrow> nat \<Rightarrow> entry list \<Rightarrow> entry list \<Rightarrow> bool" where
  "sub_holds mem m i es ps \<longleftrightarrow>
     list_in mem (sub_region (arena m) i) (sub_mem_skiplist m ! i) es \<and>
     sub_mem_pending_node_index m ! i \<le> length (sub_mem_pending_node m ! i) \<and>
     list_all2 (entry_in mem (sub_region (arena m) i))
       (drop (sub_mem_pending_node_index m ! i) (sub_mem_pending_node m ! i)) ps"

text \<open>The arrays of a memtable have one element for each sub-memtable.\<close>

definition arrays_ok :: "MemTable \<Rightarrow> bool" where
  "arrays_ok m \<longleftrightarrow> (let n = sub_mem_count (arena m) in
     length (sub_mem_skiplist m) = n \<and> length (sub_mem_pending_node m) = n \<and>
     length (sub_mem_pending_node_index m) = n \<and> length (sub_mem_bset (arena m)) = n \<and>
     length (sub_immem_bset (arena m)) = n \<and> length (in_trans_bset (arena m)) = n \<and>
     length (skiplist_blocks (arena m)) = n)"

definition addrs_ok :: "ptr list \<Rightarrow> MemTable \<Rightarrow> nat \<Rightarrow> bool" where
  "addrs_ok addrs m i \<longleftrightarrow>
     length (sub_mem_pending_node m ! i) - sub_mem_pending_node_index m ! i \<le> length addrs \<and>
     distinct addrs \<and> 0 \<notin> set addrs \<and> set addrs \<inter> dom (nodes (sub_mem_skiplist m ! i)) = {}"

lemma drain_sub_holds:
  assumes holds: "sub_holds mem m i es ps" and ok: "arrays_ok m" "i < sub_mem_count (arena m)" "addrs_ok addrs m i"
  obtains l where
    "drain_sub (KeyComparator BytewiseComparator mem) addrs i m =
       Some (m\<lparr>sub_mem_skiplist := (sub_mem_skiplist m)[i := l],
               sub_mem_pending_node_index := (sub_mem_pending_node_index m)[i := length (sub_mem_pending_node m ! i)]\<rparr>)"
    "list_in mem (sub_region (arena m) i) l (fold einsert ps es)"
    "head l = head (sub_mem_skiplist m ! i)"
    "dom (nodes l) \<subseteq> dom (nodes (sub_mem_skiplist m ! i)) \<union> set addrs"
proof (cases "sub_mem_pending_node_index m ! i < length (sub_mem_pending_node m ! i)")
  case True
  obtain l where l: "insert_pending (KeyComparator BytewiseComparator mem) addrs
      (drop (sub_mem_pending_node_index m ! i) (sub_mem_pending_node m ! i)) (sub_mem_skiplist m ! i) = Some l"
    "list_in mem (sub_region (arena m) i) l (fold einsert ps es)" "head l = head (sub_mem_skiplist m ! i)"
    "dom (nodes l) \<subseteq> dom (nodes (sub_mem_skiplist m ! i)) \<union> set addrs"
    using insert_pending_in [of mem "sub_region (arena m) i" "sub_mem_skiplist m ! i" es
        "drop (sub_mem_pending_node_index m ! i) (sub_mem_pending_node m ! i)" ps addrs] holds ok(3)
    by (auto simp: sub_holds_def addrs_ok_def)
  with True show ?thesis
    by (intro that [of l]) (simp_all add: drain_sub_def Let_def)
next
  case False
  with holds have len: "length (sub_mem_pending_node m ! i) = sub_mem_pending_node_index m ! i" and "ps = []"
    by (auto simp: sub_holds_def)
  with holds show ?thesis
    by (intro that [of "sub_mem_skiplist m ! i"]) (simp_all add: drain_sub_def sub_holds_def len)
qed

lemma drain_set_in_trans:
  "drain_sub cmp addrs i (set_in_trans j b m) = map_option (set_in_trans j b) (drain_sub cmp addrs i m)"
  by (auto simp: drain_sub_def set_in_trans_def Let_def split: bind_splits)

lemma set_in_trans_back: "\<not> in_trans_bset (arena m) ! i \<Longrightarrow> set_in_trans i False (set_in_trans i True m) = m"
  using list_update_id [of "in_trans_bset (arena m)" i] by (simp add: set_in_trans_def)

text \<open>What a synchronisation leaves of sub-memtable \<open>i\<close>.\<close>

definition sub_synced :: "memory \<Rightarrow> MemTable \<Rightarrow> nat \<Rightarrow> entry list \<Rightarrow> entry list \<Rightarrow> MemTable \<Rightarrow> bool" where
  "sub_synced mem m i es ps m' \<longleftrightarrow>
     (if sub_mem_bset (arena m) ! i \<and> \<not> in_trans_bset (arena m) ! i
      then sub_holds mem m' i (fold einsert ps es) []
      else sub_holds mem m' i es ps)"

lemma sub_holds_cong:
  assumes "sub_mem_skiplist m' ! i = sub_mem_skiplist m ! i"
    and "sub_mem_pending_node_index m' ! i = sub_mem_pending_node_index m ! i"
    and "sub_mem_pending_node m' ! i = sub_mem_pending_node m ! i" "map_start (arena m') = map_start (arena m)"
  shows "sub_holds mem m' i es ps = sub_holds mem m i es ps"
  using assms by (simp add: sub_holds_def sub_region_def sub_start_def)

lemma sync_subs_holds:
  assumes "arrays_ok m" "distinct is"
    and "\<forall>i \<in> set is. i < sub_mem_count (arena m) \<and> sub_holds mem m i (es i) (ps i) \<and> addrs_ok (addrs i) m i"
  shows "\<exists>m'. sync_subs (KeyComparator BytewiseComparator mem) addrs is m = Some m' \<and>
    arena m' = arena m \<and> table m' = table m \<and> isQueBusy m' = isQueBusy m \<and> sub_mem_pending_node m' = sub_mem_pending_node m \<and> arrays_ok m' \<and>
    (\<forall>i. i \<notin> set is \<longrightarrow> sub_mem_skiplist m' ! i = sub_mem_skiplist m ! i \<and>
       sub_mem_pending_node_index m' ! i = sub_mem_pending_node_index m ! i) \<and>
    (\<forall>i \<in> set is. sub_synced mem m i (es i) (ps i) m')"
  using assms
proof (induction "is" arbitrary: m)
  case (Cons i "is")
  let ?cmp = "KeyComparator BytewiseComparator mem"
  have i: "i < sub_mem_count (arena m)" "sub_holds mem m i (es i) (ps i)" "addrs_ok (addrs i) m i"
    using Cons.prems by auto
  show ?case
  proof (cases "sub_mem_bset (arena m) ! i \<and> \<not> in_trans_bset (arena m) ! i")
    case True
    obtain l where l: "drain_sub ?cmp (addrs i) i m =
       Some (m\<lparr>sub_mem_skiplist := (sub_mem_skiplist m)[i := l],
               sub_mem_pending_node_index := (sub_mem_pending_node_index m)[i := length (sub_mem_pending_node m ! i)]\<rparr>)"
      "list_in mem (sub_region (arena m) i) l (fold einsert (ps i) (es i))"
      using drain_sub_holds [OF i(2) Cons.prems(1) i(1,3)] by blast
    let ?m = "m\<lparr>sub_mem_skiplist := (sub_mem_skiplist m)[i := l],
               sub_mem_pending_node_index := (sub_mem_pending_node_index m)[i := length (sub_mem_pending_node m ! i)]\<rparr>"
    have ok: "arrays_ok ?m"
      using Cons.prems(1) by (simp add: arrays_ok_def)
    have others: "sub_holds mem ?m j (es j) (ps j) \<and> addrs_ok (addrs j) ?m j \<and> j < sub_mem_count (arena ?m)"
      if "j \<in> set is" for j
    proof -
      have "j \<noteq> i"
        using that Cons.prems(2) by auto
      with that Cons.prems(3) show ?thesis
        using sub_holds_cong [of ?m j m mem] by (simp add: addrs_ok_def)
    qed
    from Cons.IH [OF ok] Cons.prems(2) others obtain m' where m':
      "sync_subs ?cmp addrs is ?m = Some m'" "arena m' = arena m" "table m' = table m" "isQueBusy m' = isQueBusy m"
      "sub_mem_pending_node m' = sub_mem_pending_node m" "arrays_ok m'"
      "\<forall>j. j \<notin> set is \<longrightarrow> sub_mem_skiplist m' ! j = sub_mem_skiplist ?m ! j \<and>
        sub_mem_pending_node_index m' ! j = sub_mem_pending_node_index ?m ! j"
      "\<forall>j \<in> set is. sub_synced mem ?m j (es j) (ps j) m'"
      by auto
    have "sub_holds mem ?m i (fold einsert (ps i) (es i)) []"
      using l(2) i(1) Cons.prems(1) by (simp add: sub_holds_def arrays_ok_def Let_def)
    then have "sub_synced mem m i (es i) (ps i) m'"
      using True m' Cons.prems(2) sub_holds_cong [of m' i ?m] by (simp add: sub_synced_def)
    moreover have "sync_subs ?cmp addrs (i # is) m = Some m'"
      using True l(1) m'(1) by (simp add: drain_set_in_trans set_in_trans_back)
    ultimately show ?thesis
      using m' by (auto simp: sub_synced_def)
  next
    case False
    from Cons.IH [of m] Cons.prems obtain m' where m':
      "sync_subs ?cmp addrs is m = Some m'" "arena m' = arena m" "table m' = table m" "isQueBusy m' = isQueBusy m"
      "sub_mem_pending_node m' = sub_mem_pending_node m" "arrays_ok m'"
      "\<forall>j. j \<notin> set is \<longrightarrow> sub_mem_skiplist m' ! j = sub_mem_skiplist m ! j \<and>
        sub_mem_pending_node_index m' ! j = sub_mem_pending_node_index m ! j"
      "\<forall>j \<in> set is. sub_synced mem m j (es j) (ps j) m'"
      by auto
    moreover have "sub_synced mem m i (es i) (ps i) m'"
      using m' Cons.prems(2) i(2) sub_holds_cong [of m' i m] unfolding sub_synced_def if_not_P [OF False] by simp
    moreover have "sync_subs ?cmp addrs (i # is) m = Some m'"
      using False m'(1) by auto
    ultimately show ?thesis
      by auto
  qed
qed simp

section \<open>Moving a list\<close>

lemma move_levels_links:
  assumes "nt to = Some a" "nf from = Some b" "distinct is"
    and "\<forall>i \<in> set is. i < length (links a) \<and> i < length (links b)"
  shows "\<exists>A B. move_levels is to nt from nf = Some (nt(to \<mapsto> a\<lparr>links := A\<rparr>), nf(from \<mapsto> b\<lparr>links := B\<rparr>)) \<and>
    length A = length (links a) \<and> length B = length (links b) \<and>
    (\<forall>j < length A. A ! j = (if j \<in> set is then links b ! j else links a ! j)) \<and>
    (\<forall>j < length B. B ! j = (if j \<in> set is then 0 else links b ! j))"
  using assms
proof (induction "is" arbitrary: nt nf a b)
  case Nil
  then show ?case
    by (intro exI [of _ "links a"] exI [of _ "links b"]) (simp add: fun_upd_idem)
next
  case (Cons i "is")
  let ?a = "a\<lparr>links := (links a)[i := links b ! i]\<rparr>" and ?b = "b\<lparr>links := (links b)[i := 0]\<rparr>"
  have step: "move_levels (i # is) to nt from nf = move_levels is to (nt(to \<mapsto> ?a)) from (nf(from \<mapsto> ?b))"
    using Cons.prems by (simp add: node_Next_def node_SetNext_def)
  have "distinct is" "\<forall>j \<in> set is. j < length (links ?a) \<and> j < length (links ?b)"
    using Cons.prems by simp_all
  then obtain A B where AB:
    "move_levels is to (nt(to \<mapsto> ?a)) from (nf(from \<mapsto> ?b)) =
       Some ((nt(to \<mapsto> ?a))(to \<mapsto> ?a\<lparr>links := A\<rparr>), (nf(from \<mapsto> ?b))(from \<mapsto> ?b\<lparr>links := B\<rparr>))"
    "length A = length (links ?a)" "length B = length (links ?b)"
    "\<forall>j < length A. A ! j = (if j \<in> set is then links ?b ! j else links ?a ! j)"
    "\<forall>j < length B. B ! j = (if j \<in> set is then 0 else links ?b ! j)"
    using Cons.IH [where nt = "nt(to \<mapsto> ?a)" and nf = "nf(from \<mapsto> ?b)" and a = ?a and b = ?b,
        OF fun_upd_same fun_upd_same] by blast
  show ?case
    unfolding step
  proof (intro exI conjI)
    show "move_levels is to (nt(to \<mapsto> ?a)) from (nf(from \<mapsto> ?b)) =
        Some (nt(to \<mapsto> a\<lparr>links := A\<rparr>), nf(from \<mapsto> b\<lparr>links := B\<rparr>))"
      using AB(1) by simp
    show "\<forall>j < length A. A ! j = (if j \<in> set (i # is) then links b ! j else links a ! j)"
      using AB(2,4) Cons.prems(3,4) by (auto simp: nth_list_update)
    show "\<forall>j < length B. B ! j = (if j \<in> set (i # is) then 0 else links b ! j)"
      using AB(3,5) Cons.prems(3,4) by (auto simp: nth_list_update)
  qed (use AB(2,3) in simp_all)
qed

lemma new_SkipList_nodes:
  "nodes (new_SkipList hp) = [hp \<mapsto> \<lparr>key_offset = 0, height = kMaxHeight, links = replicate kMaxHeight 0\<rparr>]"
  "head (new_SkipList hp) = hp"
  by (simp_all add: new_SkipList_def NewNode_def)

lemma move_list_repr:
  assumes repr: "skip_repr l xs" and hp: "hp \<notin> dom (nodes l)"
  obtains t l' where "move_list (new_SkipList hp) l = Some (t, l')" "head t = hp"
    "chain (nodes t) 0 (hp # xs)" "\<forall>a \<in> set xs. nodes t a = nodes l a" "hp \<in> dom (nodes t)"
    "skip_repr l' []" "head l' = head l" "dom (nodes l') = {head l}"
proof -
  obtain b where b: "nodes l (head l) = Some b" "length (links b) = kMaxHeight" "height b = kMaxHeight" "head l \<noteq> 0"
    using repr by (auto simp: skip_repr_def node_ok_def)
  let ?nt = "nodes (new_SkipList hp)" and ?is = "[0..<kMaxHeight]"
  obtain A B where AB: "move_levels ?is hp ?nt (head l) (nodes l) =
      Some (?nt(hp \<mapsto> (the (?nt hp))\<lparr>links := A\<rparr>), (nodes l)(head l \<mapsto> b\<lparr>links := B\<rparr>))"
    "length A = kMaxHeight" "length B = kMaxHeight" "\<forall>j < kMaxHeight. A ! j = links b ! j" "\<forall>j < kMaxHeight. B ! j = 0"
    using move_levels_links [of ?nt hp "the (?nt hp)" "nodes l" "head l" b ?is] b
    by (auto simp: new_SkipList_nodes)
  have A: "A = links b" and B: "B = replicate kMaxHeight 0"
    using AB b(2) by (auto intro!: nth_equalityI)
  define nt where "nt = ((nodes l)(head l \<mapsto> b\<lparr>links := B\<rparr>))(head l := None) ++ ?nt(hp \<mapsto> (the (?nt hp))\<lparr>links := A\<rparr>)"
  define l' where "l' = l\<lparr>nodes := ((nodes l)(head l \<mapsto> b\<lparr>links := B\<rparr>)) |` {head l}\<rparr>"
  have move: "move_list (new_SkipList hp) l = Some ((new_SkipList hp)\<lparr>nodes := nt\<rparr>, l')"
    using AB(1) by (simp add: move_list_def nt_def l'_def new_SkipList_nodes)
  have ne: "hp \<noteq> head l" "hp \<notin> set xs" "head l \<notin> set xs"
    using b(1) hp repr skip_repr_node [OF repr, of hp] by (auto simp: skip_repr_def)
  have same: "nt a = nodes l a" if "a \<in> set xs" for a
    using that ne by (auto simp: nt_def map_add_def new_SkipList_nodes split: option.splits)
  have top: "nt hp = Some \<lparr>key_offset = 0, height = kMaxHeight, links = links b\<rparr>"
    by (simp add: nt_def new_SkipList_nodes A)
  have "chain (nodes l) 0 (head l # xs)"
    by (rule skip_repr_chain0 [OF repr])
  then have "node_Next nt hp 0 = Some (hd0 xs)" "chain nt 0 xs"
    using b chain_cong [of xs nt 0 "nodes l"] same
    by (auto simp: chain_Cons top node_Next_def kMaxHeight_def split: if_splits)
  then have "chain nt 0 (hp # xs)"
    by (simp add: chain_Cons)
  moreover have "skip_repr l' []"
    using b repr by (auto simp: l'_def skip_repr_def node_ok_def level_list_def node_Next_def B)
  moreover have "dom (nodes l') = {head l}"
    by (auto simp: l'_def)
  ultimately show ?thesis
    using move same top by (intro that [of "(new_SkipList hp)\<lparr>nodes := nt\<rparr>" l']) (auto simp: new_SkipList_nodes l'_def)
qed

lemma rebase_keys_chain:
  assumes "chain ns 0 xs" "distinct xs" "0 \<notin> set xs" "\<forall>a \<in> set xs. ns a \<noteq> None"
  shows "\<exists>ns'. rebase_keys off (hd0 xs) ns = Some ns' \<and>
    (\<forall>c. ns' c = (if c \<in> set xs then map_option (\<lambda>nd. nd\<lparr>key_offset := key_offset nd + off\<rparr>) (ns c) else ns c))"
  using assms
proof (induction xs arbitrary: ns)
  case Nil
  then show ?case
    by (subst rebase_keys.simps) simp
next
  case (Cons a xs)
  then obtain nd where nd: "ns a = Some nd"
    by auto
  let ?ns = "ns(a \<mapsto> nd\<lparr>key_offset := key_offset nd + off\<rparr>)"
  have nx: "node_Next ?ns a 0 = Some (hd0 xs)"
    using Cons.prems(1) nd by (simp add: chain_Cons node_Next_def split: if_splits)
  have "chain ?ns 0 xs = chain ns 0 xs"
    by (rule chain_cong) (use Cons.prems(2) in \<open>auto simp: node_Next_def\<close>)
  then have c: "chain ?ns 0 xs" "distinct xs" "0 \<notin> set xs" "\<forall>a \<in> set xs. ?ns a \<noteq> None"
    using Cons.prems by (auto simp: chain_Cons)
  obtain ns' where ns': "rebase_keys off (hd0 xs) ?ns = Some ns'"
    "\<forall>c. ns' c = (if c \<in> set xs then map_option (\<lambda>nd. nd\<lparr>key_offset := key_offset nd + off\<rparr>) (?ns c) else ?ns c)"
    using Cons.IH [OF c] by blast
  have "rebase_keys off (hd0 (a # xs)) ns = Some ns'"
    using Cons.prems(3) nd nx ns'(1) by (subst rebase_keys.simps) (simp add: Let_def)
  with ns'(2) nd Cons.prems(2) show ?case
    by auto
qed

section \<open>Memory regions\<close>

text \<open>A store outside a region leaves the lists of the region alone, and a copied block
  holds the same entries at the new place.\<close>

lemma read_bytes_agree:
  "(\<And>a. p \<le> a \<Longrightarrow> a < p + int n \<Longrightarrow> mem' (a + off) = mem a) \<Longrightarrow> read_bytes mem' (p + off) n = read_bytes mem p n"
  by (auto simp: read_bytes_def add.commute [of p off] add.assoc)
    (metis add.commute add_strict_left_mono le_add_same_cancel1 of_nat_0_le_iff of_nat_less_iff)

lemma entry_in_agree:
  assumes "entry_in mem R p e" "\<And>a. a \<in> R \<Longrightarrow> mem' (a + off) = mem a" "(\<lambda>a. a + off) ` R \<subseteq> R'"
  shows "entry_in mem' R' (p + off) e"
proof -
  obtain u s t v where e: "e = (u, s, t, v)"
    by (cases e)
  let ?n = "length (encode_entry s t u v)"
  have R: "{p..<p + int ?n} \<subseteq> R"
    using assms(1) by (simp add: entry_in_def e)
  have "read_bytes mem' (p + off) ?n = read_bytes mem p ?n"
    using R assms(2) by (intro read_bytes_agree) auto
  moreover have "{p + off..<p + off + int ?n} \<subseteq> R'"
  proof
    fix a
    assume "a \<in> {p + off..<p + off + int ?n}"
    then have "a - off \<in> R"
      using R by auto
    then have "(a - off) + off \<in> R'"
      using assms(3) by blast
    then show "a \<in> R'"
      by simp
  qed
  ultimately show ?thesis
    using assms(1) by (simp add: entry_in_def entry_at_def holds_bytes_def e add.commute add.left_commute)
qed

lemma entry_in_same:
  "entry_in mem R p e \<Longrightarrow> (\<And>a. a \<in> R \<Longrightarrow> mem' a = mem a) \<Longrightarrow> entry_in mem' R p e"
  using entry_in_agree [of mem R p e mem' 0 R] by simp

lemma sorted_wrt_cong_on:
  "(\<And>x y. x \<in> set xs \<Longrightarrow> y \<in> set xs \<Longrightarrow> P x y = Q x y) \<Longrightarrow> sorted_wrt P xs = sorted_wrt Q xs"
  by (induction xs) auto

lemma list_in_same:
  assumes "list_in mem R l es" and same: "\<And>a. a \<in> R \<Longrightarrow> mem' a = mem a"
  shows "list_in mem' R l es"
proof -
  obtain xs ks where ks: "skip_repr l xs" "ks = map (key_at l) xs" "list_all2 (entry_in mem R) ks es"
    "sorted_wrt (\<lambda>a b. KeyComparator BytewiseComparator mem a b \<le> 0) ks"
    using assms(1) by (auto simp: list_in_def skip_holds_def skip_inv_def)
  have all2: "list_all2 (entry_in mem' R) ks es"
    using ks(3) entry_in_same [OF _ same] by (rule list_all2_mono)
  have both: "\<exists>e. entry_at mem k e \<and> entry_at mem' k e" if "k \<in> set ks" for k
    using that ks(3) all2 by (metis entry_inD in_set_conv_nth list_all2_conv_all_nth)
  have eq: "KeyComparator BytewiseComparator mem' a b = KeyComparator BytewiseComparator mem a b"
    if "a \<in> set ks" "b \<in> set ks" for a b
    using both [OF that(1)] both [OF that(2)] by (auto simp: KeyComparator_entries)
  have "sorted_wrt (\<lambda>a b. KeyComparator BytewiseComparator mem' a b \<le> 0) ks"
    using ks(4) sorted_wrt_cong_on [of ks] eq by (metis (no_types, lifting))
  moreover have "\<forall>k \<in> set ks. key_ptr_ok mem' k"
    using both entry_at_key_ptr by blast
  ultimately show ?thesis
    using ks(1,2) all2 by (auto simp: list_in_def skip_holds_def skip_inv_def)
qed

lemma write_bytes_outside: "a \<notin> {p..<p + int (length bs)} \<Longrightarrow> write_bytes mem p bs a = mem a"
  by (auto simp: write_bytes_def)

lemma write_bytes_copy:
  "src \<le> a \<Longrightarrow> a < src + int n \<Longrightarrow> write_bytes mem dst (read_bytes mem src n) (a + (dst - src)) = mem a"
  by (subst write_bytes_def) (simp add: read_bytes_def nat_less_iff)

section \<open>Sealed memtables\<close>

text \<open>A queued memtable holds entries in its bottom level, in nodes \<open>xs\<close>; its height is
  not maintained, so only the bottom level is a list.\<close>

definition imm_holds :: "memory \<Rightarrow> int set \<Rightarrow> MemTable \<Rightarrow> ptr list \<Rightarrow> entry list \<Rightarrow> bool" where
  "imm_holds mem R m xs es \<longleftrightarrow> (let t = table m in
     chain (nodes t) 0 (head t # xs) \<and> distinct xs \<and>
     (\<forall>a \<in> set xs. node_ok (nodes t) a \<and> 1 \<le> ht (nodes t) a \<and> ht (nodes t) a \<le> kMaxHeight) \<and>
     list_all2 (entry_in mem R) (map (key_at t) xs) es)"

lemma imm_holds_same:
  "imm_holds mem R m xs es \<Longrightarrow> (\<And>a. a \<in> R \<Longrightarrow> mem' a = mem a) \<Longrightarrow> imm_holds mem' R m xs es"
  unfolding imm_holds_def Let_def by (auto elim!: list_all2_mono intro: entry_in_same)

text \<open>Moving and rebasing a list gives a queued memtable of the same entries.\<close>

lemma moved_list_holds:
  assumes l: "list_in mem R l es" and hp: "hp \<notin> dom (nodes l)"
    and copy: "\<And>a. a \<in> R \<Longrightarrow> mem' (a + off) = mem a" "(\<lambda>a. a + off) ` R \<subseteq> R'"
  obtains t l' first ns xs where "move_list (new_SkipList hp) l = Some (t, l')" "iter_SeekToFirst t = Some first"
    "rebase_keys off first (nodes t) = Some ns" "set xs \<subseteq> dom (nodes l)"
    "\<forall>m. table m = t\<lparr>nodes := ns\<rparr> \<longrightarrow> imm_holds mem' R' m xs es"
    "skip_repr l' []" "head l' = head l" "dom (nodes l') = {head l}"
proof -
  obtain xs ks where xs: "skip_repr l xs" "ks = map (key_at l) xs" "list_all2 (entry_in mem R) ks es"
    using l by (auto simp: list_in_def skip_holds_def skip_inv_def)
  obtain t l' where t: "move_list (new_SkipList hp) l = Some (t, l')" "head t = hp" "chain (nodes t) 0 (hp # xs)"
    "\<forall>a \<in> set xs. nodes t a = nodes l a" "skip_repr l' []" "head l' = head l" "dom (nodes l') = {head l}"
    using move_list_repr [OF xs(1) hp] by metis
  have ok: "distinct xs" "0 \<notin> set xs" "hp \<notin> set xs"
    "\<forall>a \<in> set xs. node_ok (nodes l) a \<and> 1 \<le> ht (nodes l) a \<and> ht (nodes l) a \<le> kMaxHeight"
    using xs(1) skip_repr_node [OF xs(1), of hp] hp by (auto simp: skip_repr_def node_ok_def)
  have first: "iter_SeekToFirst t = Some (hd0 xs)" "chain (nodes t) 0 xs"
    using t(2,3) by (auto simp: iter_SeekToFirst_def chain_Cons)
  obtain ns where ns: "rebase_keys off (hd0 xs) (nodes t) = Some ns"
    "\<forall>c. ns c = (if c \<in> set xs then map_option (\<lambda>nd. nd\<lparr>key_offset := key_offset nd + off\<rparr>) (nodes t c) else nodes t c)"
    using rebase_keys_chain [OF first(2) ok(1,2), of off] t(4) ok(4) by (force simp: node_ok_def)
  have "node_Next ns c 0 = node_Next (nodes t) c 0" for c
    using ns(2) by (cases "nodes t c") (auto simp: node_Next_def)
  then have "chain ns 0 (hp # xs)"
    using t(3) chain_cong [of "hp # xs" ns 0 "nodes t"] by simp
  moreover have node: "key_offset (the (ns a)) = key_at l a + off" "node_ok ns a" "ht ns a = ht (nodes l) a"
    if "a \<in> set xs" for a
    using that ns(2) t(4) ok(4) by (auto simp: key_at_def node_ok_def)
  moreover have "list_all2 (entry_in mem' R') (map (key_at (t\<lparr>nodes := ns\<rparr>)) xs) es"
  proof -
    have "map (key_at (t\<lparr>nodes := ns\<rparr>)) xs = map (\<lambda>a. key_at l a + off) xs"
      using node(1) by (simp add: key_at_def)
    moreover have "list_all2 (entry_in mem' R') (map (\<lambda>a. key_at l a + off) xs) es"
      using xs(3) entry_in_agree [of mem R _ _ mem' off R', OF _ copy] unfolding xs(2) list_all2_map1
      by (rule list_all2_mono)
    ultimately show ?thesis
      by (simp only:)
  qed
  ultimately have "imm_holds mem' R' m xs es" if "table m = t\<lparr>nodes := ns\<rparr>" for m
    using that ok t(2) unfolding imm_holds_def Let_def by simp
  moreover have "set xs \<subseteq> dom (nodes l)"
    using ok(4) by (auto simp: node_ok_def)
  ultimately show ?thesis
    using t first ns(1) by (intro that) auto
qed

lemma move_nodes_in:
  assumes "list_in mem R l es" "chain ns 0 xs" "distinct xs" "set xs \<inter> dom (nodes l) = {}"
    and "\<forall>a \<in> set xs. node_ok ns a \<and> 1 \<le> ht ns a \<and> ht ns a \<le> kMaxHeight"
    and "list_all2 (entry_in mem R) (map (\<lambda>a. key_offset (the (ns a))) xs) fs"
  shows "\<exists>l'. move_nodes (KeyComparator BytewiseComparator mem) ns (hd0 xs) l = Some l' \<and>
    list_in mem R l' (fold einsert fs es) \<and> head l' = head l \<and> dom (nodes l') = dom (nodes l) \<union> set xs"
  using assms
proof (induction xs arbitrary: l es fs)
  case Nil
  then show ?case
    by (subst move_nodes.simps) simp
next
  case (Cons a xs)
  let ?cmp = "KeyComparator BytewiseComparator mem"
  obtain nd where nd: "ns a = Some nd" "length (links nd) = height nd" "1 \<le> height nd" "height nd \<le> kMaxHeight" "a \<noteq> 0"
    using Cons.prems(5) by (auto simp: node_ok_def)
  obtain f fs' where f: "fs = f # fs'" "entry_in mem R (key_offset nd) f"
    "list_all2 (entry_in mem R) (map (\<lambda>a. key_offset (the (ns a))) xs) fs'"
    using Cons.prems(6) nd(1) by (cases fs) auto
  have nx: "node_Next ns a 0 = Some (hd0 xs)" "chain ns 0 xs"
    using Cons.prems(2) by (auto simp: chain_Cons)
  have "nodes l a = None"
    using Cons.prems(4) by (auto simp: dom_def)
  then obtain l1 where l1: "InsertNode ?cmp a (l\<lparr>nodes := (nodes l)(a \<mapsto> nd)\<rparr>) = Some l1"
    "list_in mem R l1 (einsert f es)" "head l1 = head l" "dom (nodes l1) = insert a (dom (nodes l))"
    using list_in_insert_node [OF Cons.prems(1) f(2) nd(5) _ nd(2-4)] by blast
  have "set xs \<inter> dom (nodes l1) = {}" "distinct xs"
    "\<forall>a \<in> set xs. node_ok ns a \<and> 1 \<le> ht ns a \<and> ht ns a \<le> kMaxHeight"
    using Cons.prems by (auto simp: l1(4))
  then obtain l2 where l2: "move_nodes ?cmp ns (hd0 xs) l1 = Some l2"
    "list_in mem R l2 (fold einsert fs' (einsert f es))" "head l2 = head l1" "dom (nodes l2) = dom (nodes l1) \<union> set xs"
    using Cons.IH [OF l1(2) nx(2) _ _ _ f(3)] by blast
  have "move_nodes ?cmp ns (hd0 (a # xs)) l = Some l2"
    using nd nx(1) l1(1) l2(1) by (subst move_nodes.simps) simp
  with l1 l2 f show ?case
    by auto
qed

text \<open>A queue of memtables with their nodes and entries.\<close>

definition queue_holds :: "memory \<Rightarrow> int set \<Rightarrow> MemTable list \<Rightarrow> ptr list list \<Rightarrow> entry list list \<Rightarrow> bool" where
  "queue_holds mem R q xss fss \<longleftrightarrow>
     length xss = length q \<and> length fss = length q \<and> distinct (concat xss) \<and>
     (\<forall>i < length q. imm_holds mem R (q ! i) (xss ! i) (fss ! i))"

lemma queue_holds_Cons:
  assumes "queue_holds mem R (m # q) xss fss"
  obtains xs xss' fs fss' where "xss = xs # xss'" "fss = fs # fss'" "imm_holds mem R m xs fs"
    "queue_holds mem R q xss' fss'" "set xs \<inter> set (concat xss') = {}"
proof -
  obtain xs xss' fs fss' where c: "xss = xs # xss'" "fss = fs # fss'"
    using assms by (cases xss; cases fss) (auto simp: queue_holds_def)
  have all: "\<forall>i < Suc (length q). imm_holds mem R ((m # q) ! i) ((xs # xss') ! i) ((fs # fss') ! i)"
    using assms by (simp add: queue_holds_def c)
  then have "imm_holds mem R m xs fs" "\<forall>i < length q. imm_holds mem R (q ! i) (xss' ! i) (fss' ! i)"
    by (force dest: spec [of _ 0], force dest: spec [of _ "Suc _"])
  with assms that [OF c] show ?thesis
    by (auto simp: queue_holds_def c)
qed

lemma merge_imms_in:
  assumes "list_in mem R l es" "queue_holds mem R q xss fss" "set (concat xss) \<inter> dom (nodes l) = {}"
  shows "\<exists>l'. merge_imms (KeyComparator BytewiseComparator mem) q l = Some l' \<and>
    list_in mem R l' (fold einsert (concat fss) es)"
  using assms
proof (induction q arbitrary: l es xss fss)
  case Nil
  then show ?case
    by (simp add: queue_holds_def)
next
  case (Cons m q)
  obtain xs xss' fs fss' where c: "xss = xs # xss'" "fss = fs # fss'" "imm_holds mem R m xs fs"
    "queue_holds mem R q xss' fss'" "set xs \<inter> set (concat xss') = {}"
    using queue_holds_Cons [OF Cons.prems(2)] by metis
  have first: "iter_SeekToFirst (table m) = Some (hd0 xs)" "chain (nodes (table m)) 0 xs"
    using c(3) by (auto simp: imm_holds_def Let_def iter_SeekToFirst_def chain_Cons)
  have "set xs \<inter> dom (nodes l) = {}"
    using Cons.prems(3) c(1) by auto
  then obtain l1 where l1: "move_nodes (KeyComparator BytewiseComparator mem) (nodes (table m)) (hd0 xs) l = Some l1"
    "list_in mem R l1 (fold einsert fs es)" "dom (nodes l1) = dom (nodes l) \<union> set xs"
    using move_nodes_in [OF Cons.prems(1) first(2), of fs] c(3) unfolding imm_holds_def Let_def key_at_def by blast
  have "set (concat xss') \<inter> dom (nodes l1) = {}"
    using Cons.prems(3) c(1,5) unfolding l1(3) by auto
  with Cons.IH [OF l1(2) c(4)] first(1) l1(1) show ?case
    by (auto simp: c(1,2))
qed

lemma list_in_mono: "list_in mem R l es \<Longrightarrow> R \<subseteq> R' \<Longrightarrow> list_in mem R' l es"
  unfolding list_in_def entry_in_def by (blast intro: list_all2_mono)

lemma in_trans_take_sealed: "in_trans_bset (arena (take_sealed i m)) = in_trans_bset (arena m)"
  by (simp add: take_sealed_def)

lemma seal_round_holds:
  assumes ok: "arrays_ok m" "i < sub_mem_count (arena m)" "addrs_ok addrs m i" and m: "m = dbmem db"
    and free: "\<not> in_trans_bset (arena m) ! i" "\<not> isQueBusy m"
    and holds: "sub_holds (heap db) m i es ps"
    and hp: "hp \<noteq> 0" "hp \<notin> dom (nodes (sub_mem_skiplist m ! i)) \<union> set addrs"
    and dst: "dst = os (word_of_nat SUB_MEM_SIZE)" "dst \<noteq> 0"
      "sub_region (arena m) i \<inter> {dst..<dst + int SUB_MEM_SIZE} = {}"
  shows "\<exists>db' imm xs. seal_round BytewiseComparator os cores hp heads addrs i db = Some db' \<and>
    subImmQue db' = imm # subImmQue db \<and>
    imm_holds (heap db') {dst..<dst + int SUB_MEM_SIZE} imm xs (fold einsert ps es) \<and>
    set xs \<subseteq> dom (nodes (sub_mem_skiplist m ! i)) \<union> set addrs \<and>
    isQueBusy (dbmem db') = isQueBusy m \<and> inCompactImm db' = inCompactImm db \<and>
    sub_holds (heap db') (dbmem db') i [] [] \<and>
    \<not> sub_mem_bset (arena (dbmem db')) ! i \<and> \<not> sub_immem_bset (arena (dbmem db')) ! i \<and>
    table (dbmem db') = table m \<and>
    (\<forall>j. j \<noteq> i \<longrightarrow> sub_mem_skiplist (dbmem db') ! j = sub_mem_skiplist m ! j \<and>
       sub_mem_pending_node (dbmem db') ! j = sub_mem_pending_node m ! j \<and>
       sub_mem_pending_node_index (dbmem db') ! j = sub_mem_pending_node_index m ! j) \<and>
    (\<forall>a. a \<notin> {dst..<dst + int SUB_MEM_SIZE} \<longrightarrow> heap db' a = heap db a)"
proof -
  let ?R = "sub_region (arena m) i" and ?D = "{dst..<dst + int SUB_MEM_SIZE}" and ?src = "sub_start (arena m) i"
  let ?mem = "write_bytes (heap db) dst (read_bytes (heap db) ?src SUB_MEM_SIZE)"
  define m1 where "m1 = set_in_trans i True (take_sealed i m)"
  have same: "sub_mem_skiplist m1 = sub_mem_skiplist m" "sub_mem_pending_node m1 = sub_mem_pending_node m"
    "sub_mem_pending_node_index m1 = sub_mem_pending_node_index m" "map_start (arena m1) = map_start (arena m)"
    "sub_mem_count (arena m1) = sub_mem_count (arena m)" "sub_mem_bset (arena m1) = sub_mem_bset (arena m)"
    "sub_immem_bset (arena m1) = (sub_immem_bset (arena m))[i := False]" "table m1 = table m" "isQueBusy m1 = isQueBusy m"
    by (simp_all add: m1_def set_in_trans_def take_sealed_def)
  have "sub_holds (heap db) m1 i es ps" "arrays_ok m1" "addrs_ok addrs m1 i"
    using holds ok same sub_holds_cong [of m1 i m] by (simp_all add: addrs_ok_def arrays_ok_def m1_def set_in_trans_def take_sealed_def)
  moreover have R: "sub_region (arena m1) i = ?R" "sub_start (arena m1) i = ?src"
    by (simp_all add: sub_region_def sub_start_def same)
  ultimately obtain l where l: "drain_sub (KeyComparator BytewiseComparator (heap db)) addrs i m1 =
      Some (m1\<lparr>sub_mem_skiplist := (sub_mem_skiplist m)[i := l],
        sub_mem_pending_node_index := (sub_mem_pending_node_index m)[i := length (sub_mem_pending_node m ! i)]\<rparr>)"
    "list_in (heap db) ?R l (fold einsert ps es)" "dom (nodes l) \<subseteq> dom (nodes (sub_mem_skiplist m ! i)) \<union> set addrs"
    using drain_sub_holds [of "heap db" m1 i es ps addrs] ok(2) same by metis
  have hpl: "hp \<notin> dom (nodes l)"
    using hp(2) l(3) by blast
  have copy: "?mem (a + (dst - ?src)) = heap db a" if "a \<in> ?R" for a
    using that by (intro write_bytes_copy) (simp_all add: sub_region_def)
  have img: "(\<lambda>a. a + (dst - ?src)) ` ?R \<subseteq> ?D"
    by (auto simp: sub_region_def)
  obtain t l' first ns xs where t: "move_list (new_SkipList hp) l = Some (t, l')" "iter_SeekToFirst t = Some first"
    "rebase_keys (dst - ?src) first (nodes t) = Some ns" "set xs \<subseteq> dom (nodes l)"
    "\<forall>m. table m = t\<lparr>nodes := ns\<rparr> \<longrightarrow> imm_holds ?mem ?D m xs (fold einsert ps es)"
    "skip_repr l' []"
    by (rule moved_list_holds [OF l(2) hpl copy img]) blast
  have empty: "list_in ?mem ?R l' []"
    using t(6) by (auto simp: list_in_def skip_holds_def skip_inv_def)
  have len: "i < length (sub_mem_skiplist m)" "i < length (sub_mem_pending_node m)"
    "i < length (sub_mem_pending_node_index m)" "i < length (sub_mem_bset (arena m))" "i < length (sub_immem_bset (arena m))"
    using ok by (auto simp: arrays_ok_def Let_def)
  have out: "\<forall>a. a \<notin> ?D \<longrightarrow> ?mem a = heap db a"
    by (simp add: write_bytes_outside)
  define m2 where "m2 = m1\<lparr>sub_mem_skiplist := (sub_mem_skiplist m)[i := l],
      sub_mem_pending_node_index := (sub_mem_pending_node_index m)[i := length (sub_mem_pending_node m ! i)]\<rparr>"
  define m3 where "m3 = set_in_trans i False (release_sub i l' m2)"
  obtain imm db1 where imm: "CreateNVMtable hp heads cores False db = (imm, db1)"
    by fastforce
  then have imm': "table imm = new_SkipList hp" "heap db1 = heap db" "subImmQue db1 = subImmQue db"
    "inCompactImm db1 = inCompactImm db"
    "map_start (snd (AllocateFallbackNVM os (word_of_nat SUB_MEM_SIZE) ((arena imm)\<lparr>isDataLock := False\<rparr>))) = dst"
    using dst by (auto simp: CreateNVMtable_def new_MemTable_def Let_def AllocateFallbackNVM_def AllocateNVMBlock_def)
  have m2: "sub_start (arena m2) i = ?src" "sub_mem_skiplist m2 ! i = l" "\<not> isQueBusy m2"
    using R len free(2) by (simp_all add: m2_def same)
  have "\<exists>imm. seal_round BytewiseComparator os cores hp heads addrs i db =
      Some (db1\<lparr>heap := ?mem, dbmem := m3, subImmQue := imm # subImmQue db\<rparr>) \<and> table imm = t\<lparr>nodes := ns\<rparr>"
    using free(1) l(1) t(1-3) m2 imm imm' in_trans_take_sealed [of i m]
    by (simp add: seal_round_def m [symmetric] m1_def [symmetric] m2_def [symmetric] m3_def Let_def)
      (rule exI, rule conjI, rule refl, simp)
  then obtain imm' where run: "seal_round BytewiseComparator os cores hp heads addrs i db =
      Some (db1\<lparr>heap := ?mem, dbmem := m3, subImmQue := imm' # subImmQue db\<rparr>)" "table imm' = t\<lparr>nodes := ns\<rparr>"
    by blast
  have m3: "sub_holds ?mem m3 i [] []" "\<not> sub_mem_bset (arena m3) ! i" "\<not> sub_immem_bset (arena m3) ! i"
    "table m3 = table m" "isQueBusy m3 = isQueBusy m"
    "\<forall>j. j \<noteq> i \<longrightarrow> sub_mem_skiplist m3 ! j = sub_mem_skiplist m ! j \<and>
       sub_mem_pending_node m3 ! j = sub_mem_pending_node m ! j \<and>
       sub_mem_pending_node_index m3 ! j = sub_mem_pending_node_index m ! j"
    using empty len by (simp_all add: m3_def m2_def release_sub_def set_in_trans_def sub_holds_def sub_region_def sub_start_def same)
  have "set xs \<subseteq> dom (nodes (sub_mem_skiplist m ! i)) \<union> set addrs"
    using t(4) l(3) by blast
  with run t(5) m3 out imm'(4) show ?thesis
    by (intro exI [of _ "db1\<lparr>heap := ?mem, dbmem := m3, subImmQue := imm' # subImmQue db\<rparr>"] exI [of _ imm'] exI [of _ xs]) simp
qed

lemma compactImm_holds:
  assumes "\<not> inCompactImm db" "\<not> isQueBusy (dbmem db)"
    and "list_in (heap db) R (table (dbmem db)) es" "queue_holds (heap db) R (subImmQue db) xss fss"
    and "set (concat xss) \<inter> dom (nodes (table (dbmem db))) = {}"
  shows "\<exists>l. compactImm BytewiseComparator [] db =
      Some (db\<lparr>dbmem := (dbmem db)\<lparr>table := l\<rparr>, compactImmQue := compactImmQue db @ subImmQue db, subImmQue := [],
               inCompactImm := False\<rparr>) \<and>
    list_in (heap db) R l (fold einsert (concat fss) es)"
  using merge_imms_in [OF assms(3-5)] assms(1,2) by (auto simp: compactImm_def Let_def)

lemma set_fold_einsert: "set (fold einsert ps es) = set ps \<union> set es"
  by (metis mset_fold_einsert set_mset_mset set_mset_union)

lemma newest_visible_set: "set xs = set ys \<Longrightarrow> newest_visible xs u s e = newest_visible ys u s e"
  by (simp add: newest_visible_def)

lemma lookup_written:
  assumes "list_in mem R l es"
    and k: "k = memtable_key (new_LookupKey u s)" "R \<inter> {kaddr..<kaddr + int (length k)} = {}"
  shows "list_holds (write_bytes mem kaddr k) l es"
    "holds_bytes (write_bytes mem kaddr k) kaddr (memtable_key (new_LookupKey u s))"
proof -
  show "list_holds (write_bytes mem kaddr k) l es"
    using list_in_same [OF assms(1), of "write_bytes mem kaddr k"] k(2)
    by (blast intro: list_in_holds write_bytes_outside)
  show "holds_bytes (write_bytes mem kaddr k) kaddr (memtable_key (new_LookupKey u s))"
    by (simp add: k(1) holds_bytes_def read_write_same)
qed

end
