(* ===== verification/WritePath.thy ===== *)
theory WritePath
  imports Pipeline
begin

text \<open>
  Properties of the write path: what the background tasks of \<^verbatim>\<open>db/db_impl.cc\<close> do with
  the entries of the sub-memtables, what a reader then sees, and when a writer
  waits.
\<close>

section \<open>Properties\<close>

text \<open>(C8) The background synchronisation drains the queues: it returns, and every
  sub-memtable that is in use and not held by another task then has in its list
  its old entries and exactly the entries of its queue, each at its place in the
  key order, and an empty queue; the other sub-memtables, the memory and the list
  of the memtable are unchanged.\<close>

theorem background_sync_drains:
  assumes "arrays_ok (dbmem db)"
    and "\<forall>i < sub_mem_count (arena (dbmem db)).
      sub_holds (heap db) (dbmem db) i (es i) (ps i) \<and> addrs_ok (addrs i) (dbmem db) i"
  shows "\<exists>db'. skiplistBackgroundSync BytewiseComparator addrs db = Some db' \<and> heap db' = heap db \<and>
    \<not> inSkiplistBgSync db' \<and> table (dbmem db') = table (dbmem db) \<and> arena (dbmem db') = arena (dbmem db) \<and>
    (\<forall>i < sub_mem_count (arena (dbmem db)).
       if sub_mem_bset (arena (dbmem db)) ! i \<and> \<not> in_trans_bset (arena (dbmem db)) ! i
       then sub_holds (heap db) (dbmem db') i (fold einsert (ps i) (es i)) [] \<and>
         mset (fold einsert (ps i) (es i)) = mset (ps i) + mset (es i)
       else sub_holds (heap db) (dbmem db') i (es i) (ps i))"
proof -
  obtain m' where "sync_subs (KeyComparator BytewiseComparator (heap db)) addrs
      [0..<sub_mem_count (arena (dbmem db))] (dbmem db) = Some m'" "arena m' = arena (dbmem db)"
    "table m' = table (dbmem db)"
    "\<forall>i \<in> set [0..<sub_mem_count (arena (dbmem db))]. sub_synced (heap db) (dbmem db) i (es i) (ps i) m'"
    using sync_subs_holds [OF assms(1), of "[0..<sub_mem_count (arena (dbmem db))]" "heap db" es ps addrs] assms(2)
    by auto
  then show ?thesis
    by (intro exI [of _ "db\<lparr>dbmem := m', inSkiplistBgSync := False\<rparr>"])
      (simp add: skiplistBackgroundSync_def sub_synced_def)
qed

text \<open>A memtable with one queued entry in its first sub-memtable.\<close>

definition queued_memory :: memory where
  "queued_memory = write_bytes (\<lambda>_. 0) 4200 (encode_entry 7 kTypeValue [1] [42])"

definition queued_memtable :: MemTable where
  "queued_memtable = (new_MemTable 500 [600, 700] (example_arena\<lparr>sub_mem_bset := [True, False]\<rparr>))
     \<lparr>sub_mem_pending_node := [[4200], []]\<rparr>"

definition queued_db :: Db where
  "queued_db = new_DBImpl 1 False 10 100 4194304 queued_memory queued_memtable"

lemma queued_entry: "entry_in queued_memory {4096..<2101248} 4200 ([1], 7, kTypeValue, [42])"
proof -
  have "length (encode_entry 7 kTypeValue [1] [42]) = 12"
    by code_simp
  then show ?thesis
    using entry_at_written [of "[1]" 7 kTypeValue "[42]" "\<lambda>_. 0" 4200]
    by (simp add: entry_in_def queued_memory_def kMaxSequenceNumber_def)
qed

lemma list_in_new: "hp \<noteq> 0 \<Longrightarrow> list_in mem R (new_SkipList hp) []"
  by (auto simp: list_in_def skip_holds_def skip_inv_def intro!: new_SkipList_repr)

lemmas queued_defs = queued_db_def queued_memtable_def new_DBImpl_def new_MemTable_def example_arena_def
  new_ArenaNVM_def SUB_MEM_SIZE_def

lemma queued_holds:
  "arrays_ok (dbmem queued_db)" "sub_mem_count (arena (dbmem queued_db)) = 2"
  "sub_holds (heap queued_db) (dbmem queued_db) 0 [] [([1], 7, kTypeValue, [42])]"
  "sub_holds (heap queued_db) (dbmem queued_db) 1 [] []"
  "sub_region (arena (dbmem queued_db)) 0 = {4096..<2101248}"
  using queued_entry
  by (simp_all add: arrays_ok_def sub_holds_def list_in_new sub_region_def sub_start_def queued_defs)

lemma queued_addrs: "addrs_ok [800] (dbmem queued_db) 0" "addrs_ok [] (dbmem queued_db) 1"
  by (simp_all add: addrs_ok_def queued_defs new_SkipList_nodes)

theorem background_sync_drains_witness:
  "\<exists>db'. skiplistBackgroundSync BytewiseComparator (\<lambda>i. if i = 0 then [800] else []) queued_db = Some db' \<and>
     sub_holds (heap queued_db) (dbmem db') 0 [([1], 7, kTypeValue, [42])] []"
proof -
  let ?ps = "\<lambda>i. if i = (0::nat) then [([1], 7, kTypeValue, [42])] else []"
  have "\<forall>i < sub_mem_count (arena (dbmem queued_db)).
      sub_holds (heap queued_db) (dbmem queued_db) i [] (?ps i) \<and> addrs_ok (if i = 0 then [800] else []) (dbmem queued_db) i"
    using queued_holds queued_addrs by (auto simp: less_Suc_eq numeral_2_eq_2)
  from background_sync_drains [OF queued_holds(1) this] obtain db' where db':
    "skiplistBackgroundSync BytewiseComparator (\<lambda>i. if i = 0 then [800] else []) queued_db = Some db'"
    "\<forall>i < 2. if sub_mem_bset (arena (dbmem queued_db)) ! i \<and> \<not> in_trans_bset (arena (dbmem queued_db)) ! i
       then sub_holds (heap queued_db) (dbmem db') i (fold einsert (?ps i) []) [] \<and>
         mset (fold einsert (?ps i) []) = mset (?ps i) + mset []
       else sub_holds (heap queued_db) (dbmem db') i [] (?ps i)"
    unfolding queued_holds(2) by blast
  from db'(2) [rule_format, of 0] have "sub_holds (heap queued_db) (dbmem db') 0 [([1], 7, kTypeValue, [42])] []"
    by (simp add: queued_defs einsert_def)
  with db'(1) show ?thesis
    by blast
qed

text \<open>(C5) Sealing a sub-memtable moves its entries: a round of \<^verbatim>\<open>subImmToImm\<close> returns and
  puts a memtable at the front of the queue whose bottom level holds exactly the
  entries of the list and of the queue of the sub-memtable, in key order and
  inside the new block of memory; the sub-memtable is empty and free afterwards,
  and nothing outside the new block and the sub-memtable has changed.\<close>

theorem seal_moves_entries:
  assumes "arrays_ok (dbmem db)" "i < sub_mem_count (arena (dbmem db))" "addrs_ok addrs (dbmem db) i"
    and "\<not> in_trans_bset (arena (dbmem db)) ! i" "\<not> isQueBusy (dbmem db)"
    and "sub_holds (heap db) (dbmem db) i es ps"
    and "hp \<noteq> 0" "hp \<notin> dom (nodes (sub_mem_skiplist (dbmem db) ! i)) \<union> set addrs"
    and "dst = os (word_of_nat SUB_MEM_SIZE)" "dst \<noteq> 0"
    and "sub_region (arena (dbmem db)) i \<inter> {dst..<dst + int SUB_MEM_SIZE} = {}"
  shows "\<exists>db' imm xs. seal_round BytewiseComparator os cores hp heads addrs i db = Some db' \<and>
    subImmQue db' = imm # subImmQue db \<and>
    imm_holds (heap db') {dst..<dst + int SUB_MEM_SIZE} imm xs (fold einsert ps es) \<and>
    set xs \<subseteq> dom (nodes (sub_mem_skiplist (dbmem db) ! i)) \<union> set addrs \<and>
    isQueBusy (dbmem db') = isQueBusy (dbmem db) \<and> inCompactImm db' = inCompactImm db \<and>
    sub_holds (heap db') (dbmem db') i [] [] \<and>
    \<not> sub_mem_bset (arena (dbmem db')) ! i \<and> \<not> sub_immem_bset (arena (dbmem db')) ! i \<and>
    table (dbmem db') = table (dbmem db) \<and>
    (\<forall>j. j \<noteq> i \<longrightarrow> sub_mem_skiplist (dbmem db') ! j = sub_mem_skiplist (dbmem db) ! j \<and>
       sub_mem_pending_node (dbmem db') ! j = sub_mem_pending_node (dbmem db) ! j \<and>
       sub_mem_pending_node_index (dbmem db') ! j = sub_mem_pending_node_index (dbmem db) ! j) \<and>
    (\<forall>a. a \<notin> {dst..<dst + int SUB_MEM_SIZE} \<longrightarrow> heap db' a = heap db a)"
  by (rule seal_round_holds [where os = os and db = db, OF assms(1-3) refl assms(4-11)])

lemma queued_seal:
  "0 < sub_mem_count (arena (dbmem queued_db))" "\<not> in_trans_bset (arena (dbmem queued_db)) ! 0"
  "\<not> isQueBusy (dbmem queued_db)" "(900::int) \<noteq> 0"
  "900 \<notin> dom (nodes (sub_mem_skiplist (dbmem queued_db) ! 0)) \<union> set [800]"
  "(8000000::int) = (\<lambda>_. 8000000) (word_of_nat SUB_MEM_SIZE :: uint64)" "(8000000::int) \<noteq> 0"
  "sub_region (arena (dbmem queued_db)) 0 \<inter> {8000000..<8000000 + int SUB_MEM_SIZE} = {}"
  by (simp_all add: queued_holds(2,5)) (simp add: queued_defs new_SkipList_nodes)+

lemma queued_result: "fold einsert [([1], 7, kTypeValue, [42])] [] = [([1], 7, kTypeValue, [42])]"
  by (simp add: einsert_def)

theorem seal_moves_entries_witness:
  "\<exists>db' imm xs. seal_round BytewiseComparator (\<lambda>_. 8000000) 2 900 [] [800] 0 queued_db = Some db' \<and>
     subImmQue db' = imm # subImmQue queued_db \<and>
     imm_holds (heap db') {8000000..<8000000 + int SUB_MEM_SIZE} imm xs [([1], 7, kTypeValue, [42])]"
  using seal_moves_entries [OF queued_holds(1) queued_seal(1) queued_addrs(1) queued_seal(2,3) queued_holds(3) queued_seal(4-8)]
  unfolding queued_result by blast

text \<open>(C9) Compaction of the queued memtables: \<^verbatim>\<open>compactImm\<close> returns, the list of the active
  memtable then holds its old entries and all entries of the queued memtables in
  key order, and the queue is empty.\<close>

theorem compact_merges_queue:
  assumes "\<not> inCompactImm db" "\<not> isQueBusy (dbmem db)"
    and "list_in (heap db) R (table (dbmem db)) es" "queue_holds (heap db) R (subImmQue db) xss fss"
    and "set (concat xss) \<inter> dom (nodes (table (dbmem db))) = {}"
  shows "\<exists>db'. compactImm BytewiseComparator [] db = Some db' \<and> heap db' = heap db \<and> subImmQue db' = [] \<and>
    compactImmQue db' = compactImmQue db @ subImmQue db \<and> \<not> inCompactImm db' \<and>
    list_in (heap db) R (table (dbmem db')) (fold einsert (concat fss) es) \<and>
    mset (fold einsert (concat fss) es) = mset (concat fss) + mset es"
  using compactImm_holds [OF assms] by auto

theorem compact_merges_queue_witness:
  "\<exists>db1 db2. seal_round BytewiseComparator (\<lambda>_. 8000000) 2 900 [] [800] 0 queued_db = Some db1 \<and>
     compactImm BytewiseComparator [] db1 = Some db2 \<and> subImmQue db2 = [] \<and>
     list_in (heap db1) {8000000..<8000000 + int SUB_MEM_SIZE} (table (dbmem db2)) [([1], 7, kTypeValue, [42])]"
proof -
  let ?D = "{8000000..<8000000 + int SUB_MEM_SIZE}" and ?e = "([1], 7, kTypeValue, [42])"
  have q: "subImmQue queued_db = []" "\<not> inCompactImm queued_db" "table (dbmem queued_db) = new_SkipList 500"
    "dom (nodes (sub_mem_skiplist (dbmem queued_db) ! 0)) = {600}"
    by (simp_all add: queued_defs new_SkipList_nodes)
  obtain db1 imm xs where "seal_round BytewiseComparator (\<lambda>_. 8000000) 2 900 [] [800] 0 queued_db = Some db1"
    "subImmQue db1 = imm # subImmQue queued_db" "imm_holds (heap db1) ?D imm xs [?e]"
    "set xs \<subseteq> dom (nodes (sub_mem_skiplist (dbmem queued_db) ! 0)) \<union> set [800]"
    "isQueBusy (dbmem db1) = isQueBusy (dbmem queued_db)" "inCompactImm db1 = inCompactImm queued_db"
    "table (dbmem db1) = table (dbmem queued_db)"
    using seal_round_holds [OF queued_holds(1) queued_seal(1) queued_addrs(1) refl queued_seal(2,3) queued_holds(3)
        queued_seal(4-8), of 2 "[]"] unfolding queued_result by blast
  note db1 = this [unfolded q]
  have "queue_holds (heap db1) ?D (subImmQue db1) [xs] [[?e]]"
    using db1(2,3) by (simp add: queue_holds_def imm_holds_def Let_def)
  moreover have "set (concat [xs]) \<inter> dom (nodes (table (dbmem db1))) = {}"
    using db1(4) unfolding db1(7) new_SkipList_nodes by auto
  moreover have "list_in (heap db1) ?D (table (dbmem db1)) []"
    unfolding db1(7) by (rule list_in_new) simp
  ultimately have "\<exists>db2. compactImm BytewiseComparator [] db1 = Some db2 \<and> subImmQue db2 = [] \<and>
      list_in (heap db1) ?D (table (dbmem db2)) [?e]"
    using compact_merges_queue [of db1 ?D "[]" "[xs]" "[[?e]]"] db1(5,6) queued_seal(3) q(2) queued_result by auto
  with db1(1) show ?thesis
    by blast
qed

lemma reader_sync_holds:
  assumes sync: "\<not> inSkiplistBgSync db" "arrays_ok (dbmem db)" "\<forall>i < sub_mem_count (arena (dbmem db)).
      sub_holds (heap db) (dbmem db) i (es i) (ps i) \<and> addrs_ok (addrs i) (dbmem db) i"
    and queue: "\<not> inCompactImm db" "\<not> isQueBusy (dbmem db)" "queue_holds (heap db) R (subImmQue db) xss fss"
      "list_in (heap db) R (table (dbmem db)) ts" "set (concat xss) \<inter> dom (nodes (table (dbmem db))) = {}"
  shows "\<exists>db'. reader_sync BytewiseComparator addrs db = Some db' \<and> heap db' = heap db \<and>
    list_in (heap db) R (table (dbmem db')) (fold einsert (concat fss) ts) \<and> arena (dbmem db') = arena (dbmem db)"
proof -
  obtain m' where m': "sync_subs (KeyComparator BytewiseComparator (heap db)) addrs
      [0..<sub_mem_count (arena (dbmem db))] (dbmem db) = Some m'" "arena m' = arena (dbmem db)"
    "table m' = table (dbmem db)" "isQueBusy m' = isQueBusy (dbmem db)"
    using sync_subs_holds [OF sync(2), of "[0..<sub_mem_count (arena (dbmem db))]" "heap db" es ps addrs] sync(3)
    by auto
  let ?db = "db\<lparr>dbmem := m', inSkiplistBgSync := False\<rparr>"
  have run: "skiplistBackgroundSync BytewiseComparator addrs (db\<lparr>inSkiplistBgSync := True\<rparr>) = Some ?db"
    by (simp add: skiplistBackgroundSync_def m'(1))
  show ?thesis
  proof (cases "subImmQue db = []")
    case True
    with queue(3) have "fss = []"
      by (simp add: queue_holds_def)
    with True run sync(1) queue(4) m' show ?thesis
      by (simp add: reader_sync_def)
  next
    case False
    have "\<exists>l. compactImm BytewiseComparator [] ?db =
        Some (?db\<lparr>dbmem := (dbmem ?db)\<lparr>table := l\<rparr>, compactImmQue := compactImmQue ?db @ subImmQue ?db, subImmQue := [],
               inCompactImm := False\<rparr>) \<and>
      list_in (heap ?db) R l (fold einsert (concat fss) ts)"
      by (rule compactImm_holds) (use queue m' in simp_all)
    with False run sync(1) queue(1) m' show ?thesis
      by (auto simp: reader_sync_def)
  qed
qed

text \<open>(C1) A read finds the newest version: when no sub-memtable waits sealed, \<^verbatim>\<open>Get\<close> first
  synchronises and merges the queued memtables, and then returns the value of the
  newest version that is visible at the snapshot among all entries of the list of
  the memtable and of the queued memtables, or "not found" when that version is a
  deletion.  When no version is visible it returns success and leaves the value
  of the caller as it was.\<close>

theorem get_reads_newest:
  assumes sync: "\<not> inSkiplistBgSync db" "arrays_ok (dbmem db)" "\<forall>i < sub_mem_count (arena (dbmem db)).
      sub_holds (heap db) (dbmem db) i (es i) (ps i) \<and> addrs_ok (addrs i) (dbmem db) i"
    and queue: "\<not> inCompactImm db" "\<not> isQueBusy (dbmem db)" "queue_holds (heap db) R (subImmQue db) xss fss"
      "list_in (heap db) R (table (dbmem db)) ts" "set (concat xss) \<inter> dom (nodes (table (dbmem db))) = {}"
    and unsealed: "\<forall>i < sub_mem_count (arena (dbmem db)).
      \<not> (sub_mem_bset (arena (dbmem db)) ! i \<and> sub_immem_bset (arena (dbmem db)) ! i)"
    and key: "s \<le> kMaxSequenceNumber" "length u + 8 < 2 ^ 32"
      "R \<inter> {kaddr..<kaddr + int (length (memtable_key (new_LookupKey u s)))} = {}"
  shows "\<exists>db'. (\<forall>f \<in> set (concat fss @ ts). \<not> visible u s f) \<and>
      DB_Get BytewiseComparator addrs kaddr (Some s) u v db = Some (OK, v, db') \<or>
    (\<exists>e. newest_visible (concat fss @ ts) u s e \<and> DB_Get BytewiseComparator addrs kaddr (Some s) u v db =
       Some (snd (snd (report e v OK)), fst (snd (report e v OK)), db'))"
proof -
  obtain db1 where db1: "reader_sync BytewiseComparator addrs db = Some db1" "heap db1 = heap db"
    "list_in (heap db) R (table (dbmem db1)) (fold einsert (concat fss) ts)" "arena (dbmem db1) = arena (dbmem db)"
    using reader_sync_holds [OF sync queue] by blast
  let ?k = "memtable_key (new_LookupKey u s)"
  let ?mem = "write_bytes (heap db) kaddr ?k"
  have "\<forall>i < length (sub_mem_bset (arena (dbmem db))). i < length (sub_immem_bset (arena (dbmem db))) \<longrightarrow>
      \<not> (sub_mem_bset (arena (dbmem db)) ! i \<and> sub_immem_bset (arena (dbmem db)) ! i)"
    using unsealed sync(2) by (simp add: arrays_ok_def Let_def)
  then have sub: "Get_submem BytewiseComparator ?mem kaddr (dbmem db1) (new_LookupKey u s) v OK = Some (False, v, OK)"
    by (simp add: Get_submem_def db1(4) scan_unsealed)
  have run: "DB_Get BytewiseComparator addrs kaddr (Some s) u v db =
      map_option (\<lambda>(found, w, st). (st, w, db1\<lparr>heap := ?mem\<rparr>))
        (MemTable.Get BytewiseComparator ?mem kaddr (table (dbmem db1)) (new_LookupKey u s) v OK)"
    using db1(1,2) sub by (auto simp: DB_Get_def Let_def split: bind_splits)
  have same: "set (fold einsert (concat fss) ts) = set (concat fss @ ts)"
    by (simp add: set_fold_einsert)
  from Get_list [OF lookup_written(1) [OF db1(3) refl key(3)] key(1) lookup_written(2) [OF db1(3) refl key(3)] key(2), of v OK]
  show ?thesis
    unfolding same newest_visible_set [OF same]
    by (elim disjE exE conjE; intro exI [of _ "db1\<lparr>heap := ?mem\<rparr>"])
      (simp add: run, rule disjI2, rule exI, rule conjI, assumption, simp add: run case_prod_beta)
qed

theorem get_reads_newest_witness:
  "\<exists>l db'. Insert (KeyComparator BytewiseComparator one_entry_mem) 1000 100 (new_SkipList 500) = Some l \<and>
     DB_Get BytewiseComparator (\<lambda>_. []) 300 (Some 9) [1] []
       (new_DBImpl 1 False 10 100 4194304 one_entry_mem ((new_MemTable 400 [600, 700] example_arena)\<lparr>table := l\<rparr>)) =
     Some (OK, [42], db')"
proof -
  have len: "length (encode_entry 7 kTypeValue [1] [42]) = 12"
    by code_simp
  have e: "entry_in one_entry_mem {100..<112} 100 ([1], 7, kTypeValue, [42])"
    using one_entry_at by (simp add: entry_in_def len)
  obtain l where l: "Insert (KeyComparator BytewiseComparator one_entry_mem) 1000 100 (new_SkipList 500) = Some l"
    "list_in one_entry_mem {100..<112} l [([1], 7, kTypeValue, [42])]"
    using list_in_insert [OF list_in_new [of 500] e, of 1000] by (auto simp: new_SkipList_nodes einsert_def)
  let ?m = "(new_MemTable 400 [600, 700] example_arena)\<lparr>table := l\<rparr>"
  let ?db = "new_DBImpl 1 False 10 100 4194304 one_entry_mem ?m"
  have db: "\<not> inSkiplistBgSync ?db" "\<not> inCompactImm ?db" "\<not> isQueBusy (dbmem ?db)"
    "queue_holds (heap ?db) {100..<112} (subImmQue ?db) [] []"
    "list_in (heap ?db) {100..<112} (table (dbmem ?db)) [([1], 7, kTypeValue, [42])]"
    "set (concat []) \<inter> dom (nodes (table (dbmem ?db))) = {}" "arrays_ok (dbmem ?db)"
    "sub_mem_count (arena (dbmem ?db)) = 2"
    using l(2) by (simp_all add: new_DBImpl_def new_MemTable_def queue_holds_def arrays_ok_def example_arena_def
        new_ArenaNVM_def SUB_MEM_SIZE_def)
  have subs: "\<forall>i < sub_mem_count (arena (dbmem ?db)).
      sub_holds (heap ?db) (dbmem ?db) i [] [] \<and> addrs_ok [] (dbmem ?db) i"
    "\<forall>i < sub_mem_count (arena (dbmem ?db)).
      \<not> (sub_mem_bset (arena (dbmem ?db)) ! i \<and> sub_immem_bset (arena (dbmem ?db)) ! i)"
    unfolding db(8)
    by (auto simp: less_Suc_eq numeral_2_eq_2 sub_holds_def addrs_ok_def new_DBImpl_def new_MemTable_def list_in_new
        example_arena_def new_ArenaNVM_def SUB_MEM_SIZE_def)
  have key: "(9 :: uint64) \<le> kMaxSequenceNumber"
    by (simp add: kMaxSequenceNumber_def)
  have "{100..<112} \<inter> {300..<300 + int (length (memtable_key (new_LookupKey [1] 9)))} = {}"
    by auto
  from get_reads_newest [OF db(1,7) subs(1) db(2-6) subs(2) key _ this, of "[]"] l(1) show ?thesis
    by (auto simp: newest_visible_def)
qed

text \<open>An entry just inserted is the first at its key, and stays so while entries of other
  keys are inserted.\<close>

lemma seek_einsert_same: "\<exists>rest. seek_entries (entry_key e) (einsert e es) = e # rest"
proof -
  have "\<not> ikey_cmp (entry_key e) (entry_key e) < 0"
    using bytewise_keys.ikey.cmp_refl [of "entry_key e"] by (cases e) simp
  then show ?thesis
    by (induction es) (auto simp: seek_entries_def einsert_def)
qed

lemma seek_einsert_other:
  assumes "seek_entries (entry_key e) es = e # rest" "entry_key f \<noteq> entry_key e"
  shows "\<exists>rest'. seek_entries (entry_key e) (einsert f es) = e # rest'"
  using assms(1)
proof (induction es)
  case (Cons g es)
  have len: "8 \<le> length (entry_key x)" for x
    by (cases x) simp
  have lt: "ikey_cmp (entry_key e) (entry_key f) < 0" if "\<not> ikey_cmp (entry_key f) (entry_key e) < 0"
    using that assms(2) bytewise_keys.ikey.cmp_anti [OF len len, of e f] bytewise_keys.ikey.cmp_eq [OF len len, of f e]
    by linarith
  have einsert: "einsert f (g # es) = (if ikey_cmp (entry_key g) (entry_key f) < 0 then g # einsert f es else f # g # es)"
    by (simp add: einsert_def)
  show ?case
    using Cons lt bytewise_keys.ikey.cmp_trans [OF len len len, of g e f]
    unfolding einsert by (auto simp: seek_entries_def split: if_splits)
qed (simp add: seek_entries_def)

lemma seek_fold_einsert:
  assumes "\<forall>f \<in> set fs. entry_key f \<noteq> entry_key e"
  shows "\<exists>rest. seek_entries (entry_key e) (fold einsert fs (einsert e es)) = e # rest"
proof -
  have "\<exists>rest. seek_entries (entry_key e) (fold einsert fs es') = e # rest"
    if "\<exists>rest. seek_entries (entry_key e) es' = e # rest" for es'
    using assms that by (induction fs arbitrary: es') (auto dest: seek_einsert_other)
  then show ?thesis
    using seek_einsert_same by blast
qed

text \<open>(C24) Compaction reverses the age of equal keys: whatever the list of the memtable
  and the queued memtables hold, after \<^verbatim>\<open>compactImm\<close> a lookup at an internal key returns
  the value that stands last in the queue among all entries of that key.  New
  memtables are queued in front, so this is the value of the oldest queued
  memtable that has the key, and every newer one is shadowed.\<close>

theorem compaction_shadows_newer:
  assumes "\<not> inCompactImm db" "\<not> isQueBusy (dbmem db)" "list_in (heap db) R (table (dbmem db)) ts"
    and "queue_holds (heap db) R (subImmQue db) xss fss"
    and "set (concat xss) \<inter> dom (nodes (table (dbmem db))) = {}"
    and last: "concat fss = es @ (u, s, kTypeValue, old) # fs" "\<forall>f \<in> set fs. entry_key f \<noteq> InternalKey u s kTypeValue"
    and key: "length u + 8 < 2 ^ 32" "R \<inter> {kaddr..<kaddr + int (length (memtable_key (new_LookupKey u s)))} = {}"
  shows "\<exists>db'. compactImm BytewiseComparator [] db = Some db' \<and>
    MemTable.Get BytewiseComparator (write_bytes (heap db') kaddr (memtable_key (new_LookupKey u s))) kaddr
      (table (dbmem db')) (new_LookupKey u s) [] OK = Some (True, old, OK)"
proof -
  let ?k = "memtable_key (new_LookupKey u s)"
  obtain l where l: "compactImm BytewiseComparator [] db =
      Some (db\<lparr>dbmem := (dbmem db)\<lparr>table := l\<rparr>, compactImmQue := compactImmQue db @ subImmQue db, subImmQue := [],
               inCompactImm := False\<rparr>)" "list_in (heap db) R l (fold einsert (concat fss) ts)"
    using compactImm_holds [OF assms(1-5)] by blast
  obtain rest where seek: "seek_entries (InternalKey u s kValueTypeForSeek) (fold einsert (concat fss) ts) =
      (u, s, kTypeValue, old) # rest"
    using seek_fold_einsert [of fs "(u, s, kTypeValue, old)" "fold einsert es ts"] last
    by (auto simp: kValueTypeForSeek_def)
  have "MemTable.Get BytewiseComparator (write_bytes (heap db) kaddr ?k) kaddr l (new_LookupKey u s) [] OK =
      Some (True, old, OK)"
    using Get_seek [OF lookup_written [OF l(2) refl key(2)] key(1), of "[]" OK] by (simp add: seek)
  with l(1) show ?thesis
    by simp
qed

text \<open>Two queued memtables of one node each.\<close>

definition one_node_imm :: "ptr \<Rightarrow> ptr \<Rightarrow> ptr \<Rightarrow> MemTable" where
  "one_node_imm hp n k = (new_MemTable hp [] example_arena)\<lparr>table := (new_SkipList hp)\<lparr>nodes :=
     [hp \<mapsto> \<lparr>key_offset = 0, height = kMaxHeight, links = (replicate kMaxHeight 0)[0 := n]\<rparr>,
      n \<mapsto> \<lparr>key_offset = k, height = 1, links = [0]\<rparr>]\<rparr>\<rparr>"

lemma one_node_imm_holds:
  "hp \<noteq> n \<Longrightarrow> n \<noteq> 0 \<Longrightarrow> entry_in mem R k e \<Longrightarrow> imm_holds mem R (one_node_imm hp n k) [n] [e]"
  by (simp add: imm_holds_def one_node_imm_def new_SkipList_nodes node_Next_def node_ok_def key_at_def kMaxHeight_def)

definition two_entry_mem :: memory where
  "two_entry_mem = write_bytes (write_bytes (\<lambda>_. 0) 100 (encode_entry 0 kTypeValue [1] [42]))
     200 (encode_entry 0 kTypeValue [1] [43])"

lemma two_entry_in:
  "entry_in two_entry_mem {100..<212} 100 ([1], 0, kTypeValue, [42])"
  "entry_in two_entry_mem {100..<212} 200 ([1], 0, kTypeValue, [43])"
proof -
  have len: "length (encode_entry 0 kTypeValue [1] [42]) = 12" "length (encode_entry 0 kTypeValue [1] [43]) = 12"
    by code_simp+
  have "entry_at two_entry_mem 100 ([1], 0, kTypeValue, [42])"
    unfolding two_entry_mem_def by (rule entry_at_other [OF entry_at_written]) (simp_all add: len)
  moreover have "entry_at two_entry_mem 200 ([1], 0, kTypeValue, [43])"
    unfolding two_entry_mem_def by (rule entry_at_written) simp
  ultimately show "entry_in two_entry_mem {100..<212} 100 ([1], 0, kTypeValue, [42])"
    "entry_in two_entry_mem {100..<212} 200 ([1], 0, kTypeValue, [43])"
    by (simp_all add: entry_in_def len)
qed

theorem compaction_shadows_newer_witness:
  "\<exists>db'. compactImm BytewiseComparator []
       ((new_DBImpl 1 False 10 100 4194304 two_entry_mem (new_MemTable 500 [600, 700] example_arena))
          \<lparr>subImmQue := [one_node_imm 900 1000 200, one_node_imm 1100 1200 100]\<rparr>) = Some db' \<and>
     MemTable.Get BytewiseComparator (write_bytes (heap db') 300 (memtable_key (new_LookupKey [1] 0))) 300
       (table (dbmem db')) (new_LookupKey [1] 0) [] OK = Some (True, [42], OK)"
proof (rule compaction_shadows_newer)
  let ?q = "[one_node_imm 900 1000 200, one_node_imm 1100 1200 100]"
  let ?db = "(new_DBImpl 1 False 10 100 4194304 two_entry_mem (new_MemTable 500 [600, 700] example_arena))\<lparr>subImmQue := ?q\<rparr>"
  show "queue_holds (heap ?db) {100..<212} (subImmQue ?db) [[1000], [1200]]
      [[([1], 0, kTypeValue, [43])], [([1], 0, kTypeValue, [42])]]"
    using one_node_imm_holds [OF _ _ two_entry_in(2), of 900 1000] one_node_imm_holds [OF _ _ two_entry_in(1), of 1100 1200]
    by (auto simp: queue_holds_def new_DBImpl_def less_Suc_eq)
  show "list_in (heap ?db) {100..<212} (table (dbmem ?db)) []"
    by (simp add: new_DBImpl_def new_MemTable_def list_in_new)
  show "set (concat [[1000], [1200]]) \<inter> dom (nodes (table (dbmem ?db))) = {}"
    by (simp add: new_DBImpl_def new_MemTable_def new_SkipList_nodes)
  show "concat [[([1], 0, kTypeValue, [43])], [([1], 0, kTypeValue, [42])]] =
      [([1], 0, kTypeValue, [43])] @ ([1], 0, kTypeValue, [42]) # []"
    by simp
  show "{100..<212} \<inter> {300..<300 + int (length (memtable_key (new_LookupKey [1] 0)))} = {}"
    by auto
qed (simp_all add: new_DBImpl_def new_MemTable_def list_in_new kMaxSequenceNumber_def)

text \<open>(C25) A put queues its entry at sequence number 0: once \<^verbatim>\<open>MakeRoomForWrite\<close> has
  returned, in a well-formed arena where the entry fits into the sub-memtable of
  the core or some sub-memtable is free, and the one of the core is not exactly
  full, \<^verbatim>\<open>Put\<close> returns and succeeds; the entry is then in the memory of one
  sub-memtable and its pointer at the end of the queue of that sub-memtable, the
  key is counted and the last sequence number has grown by one, but the entry
  itself always carries sequence number 0.\<close>

theorem put_queues_at_sequence_zero:
  assumes room: "MakeRoomForWrite others db = Some (OK, db1)"
    and arena: "nvmarena (arena (dbmem db1))" "arena_ok (arena (dbmem db1)) own" "allocation (arena (dbmem db1))"
      "cpu < length (percore_alloc_ptr (arena (dbmem db1)))"
      "percore_alloc_ptr (arena (dbmem db1)) ! cpu \<noteq> 0 \<longrightarrow> percore_alloc_bytes_remaining (arena (dbmem db1)) ! cpu \<noteq> 0"
      "length (sub_mem_pending_node (dbmem db1)) = sub_mem_count (arena (dbmem db1))"
    and entry: "entry_ok (k, 0, kTypeValue, v)" "length (encode_entry 0 kTypeValue k v) \<le> SUB_MEM_SIZE"
    and free: "word_of_nat (length (encode_entry 0 kTypeValue k v)) \<le> percore_alloc_bytes_remaining (arena (dbmem db1)) ! cpu \<or>
      (\<exists>j < sub_mem_count (arena (dbmem db1)). \<not> sub_mem_bset (arena (dbmem db1)) ! j)"
  shows "\<exists>db' p i. DB_Put others os (Some cpu) new k v db = Some (OK, db') \<and>
    entry_at (heap db') p (k, 0, kTypeValue, v) \<and>
    block_ok (arena (dbmem db1)) own cpu (word_of_nat (length (encode_entry 0 kTypeValue k v))) p i \<and>
    sub_mem_pending_node (dbmem db') =
      (sub_mem_pending_node (dbmem db1))[i := sub_mem_pending_node (dbmem db1) ! i @ [p]] \<and>
    numkeys (dbmem db') = numkeys (dbmem db1) + 1 \<and> last_sequence db' = last_sequence db1 + 1"
proof -
  let ?b = "Put new_WriteBatch k v"
  have b: "batch_holds ?b [OpPut k v]"
    using holds_build [of "[OpPut k v]"] entry(1) by simp
  have seq: "Sequence ?b = 0" "Count ?b = 1"
    using Count_holds [OF b] by (simp_all add: Sequence_Put Sequence_new_WriteBatch)
  have blocked: "\<not> ((\<forall>j < sub_mem_count (arena (dbmem db1)). sub_mem_bset (arena (dbmem db1)) ! j) \<and>
      percore_alloc_bytes_remaining (arena (dbmem db1)) ! cpu < word_of_nat (length (encode_entry 0 kTypeValue k v)))"
    using free by (auto simp: not_less)
  obtain mem' m' p i where add: "Add os (Some cpu) new 0 kTypeValue k v (heap db1, dbmem db1) = Some (True, mem', m')"
    and res: "entry_at mem' p (k, 0, kTypeValue, v)"
      "block_ok (arena (dbmem db1)) own cpu (word_of_nat (length (encode_entry 0 kTypeValue k v))) p i"
      "sub_mem_pending_node m' = (sub_mem_pending_node (dbmem db1))[i := sub_mem_pending_node (dbmem db1) ! i @ [p]]"
      "numkeys m' = numkeys (dbmem db1) + 1"
    using Add_queues [OF arena entry, of os new "heap db1"] blocked by (elim exE conjE) (metis (full_types))
  have "DB_Put others os (Some cpu) new k v db = Some (OK, SetLastSequence 1 (db1\<lparr>heap := mem', dbmem := m'\<rparr>))"
    by (simp add: DB_Put_def DB_Write_def room InsertInto_holds [OF b] seq add_entry_def add ok_def)
  with res show ?thesis
    by (auto simp: SetLastSequence_def)
qed

text \<open>A writer on an empty pool.\<close>

definition empty_db :: Db where
  "empty_db = new_DBImpl 1 False 10 100 4194304 (\<lambda>_. 0) (new_MemTable 500 [600, 700] example_arena)"

lemma empty_db_simps [simp]:
  "arena (dbmem empty_db) = example_arena" "sub_mem_pending_node (dbmem empty_db) = [[], []]"
  "numkeys (dbmem empty_db) = 0" "last_sequence empty_db = 0" "bg_error empty_db = OK" "subImmQue empty_db = []"
  "arrays_ok (dbmem empty_db)"
  by (simp_all add: empty_db_def new_DBImpl_def new_MemTable_def arrays_ok_def numeral_2_eq_2)
    (simp_all add: example_arena_def new_ArenaNVM_def SUB_MEM_SIZE_def)

lemma empty_room: "MakeRoomForWrite [] empty_db = Some (OK, empty_db)"
  by (simp add: MakeRoomForWrite_def room_round_def ok_def Let_def)

theorem put_queues_at_sequence_zero_witness:
  "\<exists>db' p i. DB_Put [] (\<lambda>_. 0) (Some 1) 0 [1] [42] empty_db = Some (OK, db') \<and>
     entry_at (heap db') p ([1], 0, kTypeValue, [42]) \<and> i < 2 \<and>
     sub_mem_pending_node (dbmem db') = [[], []][i := [p]] \<and> last_sequence db' = 1"
proof -
  have len: "length (encode_entry 0 kTypeValue [1] [42]) = 12"
    by code_simp
  have pend: "[[], []] ! i @ [p] = [p]" if "i < 2" for i :: nat and p :: ptr
    using that by (auto simp: less_2_cases_iff)
  have free: "\<exists>j < 2. \<not> [False, False] ! j"
    by (rule exI [of _ 0]) simp
  obtain db' p i where "DB_Put [] (\<lambda>_. 0) (Some 1) 0 [1] [42] empty_db = Some (OK, db')"
    "entry_at (heap db') p ([1], 0, kTypeValue, [42])" "block_ok example_arena id 1 (word_of_nat 12) p i"
    "sub_mem_pending_node (dbmem db') = [[], []][i := [[], []] ! i @ [p]]" "last_sequence db' = 1"
    using put_queues_at_sequence_zero [OF empty_room, of id 1 "[1]" "[42]" "\<lambda>_. 0" 0] free
    by (auto simp: len SUB_MEM_SIZE_def example_arena_ok)
  with pend show ?thesis
    by (auto simp: block_ok_def)
qed

text \<open>Nothing sends the writer another way than the count of free sub-memtables: no
  background error, no sealed sub-memtable waiting, and the queue of immutable
  memtables is not over its threshold or is being compacted.\<close>

definition quiet :: "Db \<Rightarrow> bool" where
  "quiet db \<longleftrightarrow> ok (bg_error db) \<and> arrays_ok (dbmem db) \<and> True \<notin> set (sub_immem_bset (arena (dbmem db))) \<and>
     (compactImm_threshold db = 0 \<or> length (subImmQue db) \<le> compactImm_threshold db \<or> inCompactImm db)"

definition has_free :: "Db \<Rightarrow> bool" where
  "has_free db \<longleftrightarrow> False \<in> set (sub_mem_bset (arena (dbmem db)))"

lemma quiet_round:
  assumes "quiet db"
  shows "room_round db = (if has_free db then Some OK else None, db)"
proof -
  let ?bs = "sub_mem_bset (arena (dbmem db))"
  have len: "length (sub_immem_bset (arena (dbmem db))) = sub_mem_count (arena (dbmem db))"
    "length ?bs = sub_mem_count (arena (dbmem db))"
    using assms by (simp_all add: quiet_def arrays_ok_def Let_def)
  have none: "filter (\<lambda>b. b) (sub_immem_bset (arena (dbmem db))) = []"
    using assms by (auto simp: quiet_def filter_empty_conv)
  have free: "length (filter (\<lambda>b. b) ?bs) < length ?bs \<longleftrightarrow> has_free db"
    unfolding has_free_def
    using length_filter_less [of False ?bs "\<lambda>b. b"] by (metis filter_True length_filter_le less_irrefl)
  show ?thesis
    using assms free len none by (auto simp: quiet_def room_round_def Let_def)
qed

lemma room_loop_waits:
  assumes "\<forall>n < length pre. quiet (fold (\<lambda>f. f) (take n pre) db) \<and> \<not> has_free (fold (\<lambda>f. f) (take n pre) db)"
  shows "room_loop (pre @ post) db = room_loop post (fold (\<lambda>f. f) pre db)"
  using assms
proof (induction pre arbitrary: db)
  case (Cons f pre)
  have "quiet db" "\<not> has_free db"
    using Cons.prems [rule_format, of 0] by simp_all
  moreover have "room_loop (pre @ post) (f db) = room_loop post (fold (\<lambda>f. f) pre (f db))"
    using Cons.prems by (intro Cons.IH) (metis Suc_less_eq fold_simps(2) length_Cons take_Suc_Cons)
  ultimately show ?case
    by (simp add: quiet_round)
qed simp

text \<open>(C26) When a writer proceeds and when it waits: let there be no background error, no
  sealed sub-memtable waiting and no queue over its threshold that nobody
  compacts, now and after each step of the other tasks.  Then \<^verbatim>\<open>MakeRoomForWrite\<close> goes
  round, whatever else the other tasks do, as long as all sub-memtables are in
  use, and returns success in the first state in which one is free; at once, if
  one is free at the start.\<close>

theorem room_iff_free_sub_memtable:
  assumes "\<forall>n < length pre. quiet (fold (\<lambda>f. f) (take n pre) db) \<and> \<not> has_free (fold (\<lambda>f. f) (take n pre) db)"
    and "quiet (fold (\<lambda>f. f) pre db)"
  shows "if has_free (fold (\<lambda>f. f) pre db)
    then \<exists>db'. MakeRoomForWrite (pre @ post) db = Some (OK, db') \<and>
      heap db' = heap (fold (\<lambda>f. f) pre db) \<and> dbmem db' = dbmem (fold (\<lambda>f. f) pre db)
    else MakeRoomForWrite pre db = None"
  using room_loop_waits [OF assms(1), of post] room_loop_waits [OF assms(1), of "[]"] quiet_round [OF assms(2)]
  by (auto simp: MakeRoomForWrite_def)

definition full_db :: Db where
  "full_db = empty_db\<lparr>dbmem := (dbmem empty_db)\<lparr>arena := example_arena\<lparr>sub_mem_bset := [True, True]\<rparr>\<rparr>\<rparr>"

lemma full_db_quiet: "quiet full_db" "\<not> has_free full_db" "quiet empty_db" "has_free empty_db"
  using empty_db_simps(7) by (simp_all add: quiet_def has_free_def full_db_def ok_def arrays_ok_def Let_def)

theorem room_iff_free_sub_memtable_witness:
  "(\<exists>db'. MakeRoomForWrite [] empty_db = Some (OK, db')) \<and>
   (\<exists>db'. MakeRoomForWrite [id, (\<lambda>_. empty_db), id] full_db = Some (OK, db') \<and> dbmem db' = dbmem empty_db) \<and>
   MakeRoomForWrite [id, id, id] full_db = None"
  using room_iff_free_sub_memtable [of "[]" empty_db "[]"]
    room_iff_free_sub_memtable [of "[id, (\<lambda>_. empty_db)]" full_db "[id]"]
    room_iff_free_sub_memtable [of "[id, id, id]" full_db "[]"] full_db_quiet
  by (auto simp: less_Suc_eq numeral_3_eq_3)

end
