(* ===== verification/Crc32c.thy ===== *)
theory Crc32c
  imports CrcTables Coding
begin

text \<open>
  Checksums (\<^verbatim>\<open>util/crc32c.h\<close>, \<^verbatim>\<open>util/crc32c.cc\<close>): the table-driven \<^verbatim>\<open>Extend\<close>, which
  works on four bytes at a time between two unaligned ends, and the masked form in
  which checksums are stored.  The reference is the shift register of CRC-32C, one
  bit at a time.
\<close>

unbundle bit_operations_syntax

section \<open>Definitions\<close>

definition STEP1 :: "uint32 \<Rightarrow> byte \<Rightarrow> uint32" where
  "STEP1 l p = (let c = (l AND 0xff) XOR ucast p in table0 ! unat c XOR drop_bit 8 l)"

text \<open>\<^verbatim>\<open>STEP4\<close> reads the first four of the given bytes.\<close>

definition STEP4 :: "uint32 \<Rightarrow> bytes \<Rightarrow> uint32" where
  "STEP4 l p =
     (let c = l XOR DecodeFixed32 p in
      table3 ! unat (c AND 0xff) XOR table2 ! unat (drop_bit 8 c AND 0xff) XOR
      table1 ! unat (drop_bit 16 c AND 0xff) XOR table0 ! unat (drop_bit 24 c))"

fun steps1 :: "uint32 \<Rightarrow> bytes \<Rightarrow> uint32" where
  "steps1 l [] = l"
| "steps1 l (b # bs) = steps1 (STEP1 l b) bs"

function steps4 :: "uint32 \<Rightarrow> bytes \<Rightarrow> uint32 \<times> bytes" where
  "steps4 l p = (if 4 \<le> length p then steps4 (STEP4 l p) (drop 4 p) else (l, p))"
  by auto
termination
  by (relation "measure (length \<circ> snd)") auto

function steps16 :: "uint32 \<Rightarrow> bytes \<Rightarrow> uint32 \<times> bytes" where
  "steps16 l p =
     (if 16 \<le> length p then
        let l = STEP4 l p; l = STEP4 l (drop 4 p); l = STEP4 l (drop 8 p); l = STEP4 l (drop 12 p)
        in steps16 l (drop 16 p)
      else (l, p))"
  by auto
termination
  by (relation "measure (length \<circ> snd)") auto

declare steps4.simps [simp del] steps16.simps [simp del]

text \<open>\<open>pval\<close> is the address of the first byte: the bytes before the next multiple of four
  are processed one by one, when there are as many.\<close>

definition Extend :: "nat \<Rightarrow> uint32 \<Rightarrow> bytes \<Rightarrow> uint32" where
  "Extend pval crc buf =
     (let l = crc XOR 0xffffffff;
          x = (pval + 3) div 4 * 4 - pval;
          (l, p) = (if x \<le> length buf then (steps1 l (take x buf), drop x buf) else (l, buf));
          (l, p) = steps16 l p;
          (l, p) = steps4 l p
      in steps1 l p XOR 0xffffffff)"

definition Value :: "nat \<Rightarrow> bytes \<Rightarrow> uint32" where
  "Value pval data = Extend pval 0 data"

definition kMaskDelta :: uint32 where "kMaskDelta = 0xa282ead8"

definition Mask :: "uint32 \<Rightarrow> uint32" where
  "Mask crc = (drop_bit 15 crc OR push_bit 17 crc) + kMaskDelta"

definition Unmask :: "uint32 \<Rightarrow> uint32" where
  "Unmask masked_crc = (let rot = masked_crc - kMaskDelta in drop_bit 17 rot OR push_bit 15 rot)"

section \<open>The reference\<close>

definition crc_byte :: "uint32 \<Rightarrow> byte \<Rightarrow> uint32" where
  "crc_byte l b = (crc_bit ^^ 8) (l XOR ucast b)"

definition crc32c :: "uint32 \<Rightarrow> bytes \<Rightarrow> uint32" where
  "crc32c crc bs = foldl crc_byte (crc XOR 0xffffffff) bs XOR 0xffffffff"

lemma and_ff: "(c AND 0xff :: uint32) = take_bit 8 c"
  by (simp add: take_bit_eq_mask mask_eq_exp_minus_1)

lemma low_byte_less: "unat (c AND 0xff :: uint32) < 256"
  using take_bit_nat_less_exp [of 8 "unat c"] by (simp add: and_ff unsigned_take_bit_eq)

text \<open>The register works on the low byte and on the rest separately.\<close>

lemma crc_bits_peel: "(crc_bit ^^ (m + 8)) c = (crc_bit ^^ (m + 8)) (c AND 0xff) XOR (crc_bit ^^ m) (drop_bit 8 c)"
proof -
  have split: "c = (c AND 0xff) XOR push_bit 8 (drop_bit 8 c)"
    unfolding and_ff by (rule bit_eqI) (auto simp: bit_simps)
  have "(crc_bit ^^ 8) (push_bit 8 (drop_bit 8 c)) = drop_bit 8 (push_bit 8 (drop_bit 8 c))"
    by (rule crc_bits_shift) (rule bit_eqI, simp add: bit_simps)
  also have "\<dots> = drop_bit 8 c"
    by (rule bit_eqI) (auto simp: bit_simps dest: bit_imp_le_length)
  finally have "(crc_bit ^^ (m + 8)) (push_bit 8 (drop_bit 8 c)) = (crc_bit ^^ m) (drop_bit 8 c)"
    by (simp add: funpow_add)
  then show ?thesis
    by (subst split) (simp only: crc_bits_xor)
qed

lemma table_low:
  "table0 ! unat (c AND 0xff) = (crc_bit ^^ 8) (c AND 0xff)" "table1 ! unat (c AND 0xff) = (crc_bit ^^ 16) (c AND 0xff)"
  "table2 ! unat (c AND 0xff) = (crc_bit ^^ 24) (c AND 0xff)" "table3 ! unat (c AND 0xff) = (crc_bit ^^ 32) (c AND 0xff)"
  by (simp_all add: table_entry [OF low_byte_less])

lemma STEP1_crc_byte: "STEP1 l b = crc_byte l b"
proof -
  have "(l AND 0xff) XOR ucast b = (l XOR ucast b) AND 0xff" "drop_bit 8 (l XOR ucast b) = drop_bit 8 l"
    unfolding and_ff by (rule bit_eqI, auto simp: bit_simps dest: bit_imp_le_length)+
  then show ?thesis
    using crc_bits_peel [of 0 "l XOR ucast b"] by (simp add: STEP1_def crc_byte_def table_low)
qed

text \<open>A byte fed after \<open>m\<close> steps is a byte at position \<open>m\<close>.\<close>

lemma feed_byte:
  assumes "m \<le> 24"
  shows "crc_byte ((crc_bit ^^ m) x) b = (crc_bit ^^ (8 + m)) (x XOR push_bit m (ucast b))"
proof -
  have "(crc_bit ^^ m) (push_bit m (ucast b)) = drop_bit m (push_bit m (ucast b))"
    by (rule crc_bits_shift) (rule bit_eqI, simp add: bit_simps)
  also have "\<dots> = ucast b"
    using assms by (intro bit_eqI) (auto simp: bit_simps dest: bit_imp_le_length)
  finally show ?thesis
    by (simp add: crc_byte_def funpow_add crc_bits_xor)
qed

lemma STEP4_crc_byte:
  "STEP4 l (b0 # b1 # b2 # b3 # bs) = crc_byte (crc_byte (crc_byte (crc_byte l b0) b1) b2) b3"
proof -
  let ?c = "l XOR DecodeFixed32 (b0 # b1 # b2 # b3 # bs)"
  have dec: "?c = l XOR ucast b0 XOR push_bit 8 (ucast b1) XOR push_bit 16 (ucast b2) XOR push_bit 24 (ucast b3)"
    by (rule bit_eqI) (auto simp: DecodeFixed32_def bit_simps dest: bit_imp_le_length)
  have "crc_byte (crc_byte (crc_byte (crc_byte l b0) b1) b2) b3 = (crc_bit ^^ 32) ?c"
    using feed_byte [of 0 l b0] feed_byte [of 8 _ b1] feed_byte [of 16 _ b2] feed_byte [of 24 _ b3]
    unfolding dec by (simp add: xor.assoc)
  moreover have "drop_bit 24 ?c = drop_bit 24 ?c AND 0xff"
    unfolding and_ff by (rule bit_eqI) (auto simp: bit_simps dest: bit_imp_le_length)
  ultimately show ?thesis
    using crc_bits_peel [of 24 ?c] crc_bits_peel [of 16 "drop_bit 8 ?c"] crc_bits_peel [of 8 "drop_bit 16 ?c"]
      table_low [of "drop_bit 24 ?c"]
    by (simp add: STEP4_def Let_def table_low drop_bit_drop_bit ac_simps)
qed

lemma steps1_fold: "steps1 l bs = foldl crc_byte l bs"
  by (induction l bs rule: steps1.induct) (simp_all add: STEP1_crc_byte)

lemma STEP4_fold: "4 \<le> length p \<Longrightarrow> foldl crc_byte (STEP4 l p) (drop 4 p) = foldl crc_byte l p"
  by (auto simp: STEP4_crc_byte Suc_le_length_iff eval_nat_numeral)

lemma steps4_fold: "foldl crc_byte l p = (case steps4 l p of (l', p') \<Rightarrow> foldl crc_byte l' p')"
proof (induction l p rule: steps4.induct)
  case (1 l p)
  then show ?case
    by (subst steps4.simps) (simp add: STEP4_fold)
qed

lemma steps16_fold: "foldl crc_byte l p = (case steps16 l p of (l', p') \<Rightarrow> foldl crc_byte l' p')"
proof (induction l p rule: steps16.induct)
  case (1 l p)
  show ?case
  proof (cases "16 \<le> length p")
    case True
    have "foldl crc_byte l p =
        foldl crc_byte (STEP4 (STEP4 (STEP4 (STEP4 l p) (drop 4 p)) (drop 8 p)) (drop 12 p)) (drop 16 p)"
      using True STEP4_fold [of p l] STEP4_fold [of "drop 4 p" "STEP4 l p"]
        STEP4_fold [of "drop 8 p" "STEP4 (STEP4 l p) (drop 4 p)"]
        STEP4_fold [of "drop 12 p" "STEP4 (STEP4 (STEP4 l p) (drop 4 p)) (drop 8 p)"]
      by simp
    with 1 [OF True refl refl refl refl] True show ?thesis
      by (subst steps16.simps) (simp add: Let_def)
  qed (subst steps16.simps, simp)
qed

lemma Extend_crc32c: "Extend pval crc buf = crc32c crc buf"
proof -
  let ?x = "(pval + 3) div 4 * 4 - pval" and ?l = "crc XOR 0xffffffff"
  obtain l p where lp: "(if ?x \<le> length buf then (steps1 ?l (take ?x buf), drop ?x buf) else (?l, buf)) = (l, p)"
    by fastforce
  obtain l1 p1 where 1: "steps16 l p = (l1, p1)"
    by fastforce
  obtain l2 p2 where 2: "steps4 l1 p1 = (l2, p2)"
    by fastforce
  have "foldl crc_byte ?l buf = foldl crc_byte l p"
    using lp by (auto simp: steps1_fold split: if_splits simp flip: foldl_append)
  also have "\<dots> = foldl crc_byte l2 p2"
    using steps16_fold [of l p] steps4_fold [of l1 p1] by (simp add: 1 2)
  finally show ?thesis
    by (simp add: Extend_def crc32c_def Let_def steps1_fold lp 1 2)
qed

lemma crc32c_append: "crc32c (crc32c crc a) b = crc32c crc (a @ b)"
  by (simp add: crc32c_def xor.assoc)

lemma Unmask_Mask: "Unmask (Mask crc) = crc"
  by (rule bit_eqI) (auto simp: Unmask_def Mask_def Let_def bit_simps, metis le_add_diff_inverse not_less)

section \<open>Properties\<close>

text \<open>(C27) The checksum is CRC-32C: whatever the alignment of the buffer, the table-driven
  \<^verbatim>\<open>Extend\<close> computes what the shift register of the polynomial computes one bit at a
  time, and extending the checksum of one string by another gives the checksum of
  their concatenation.\<close>

theorem crc_extend_is_bitwise:
  "Extend pval crc buf = crc32c crc buf \<and> Extend q (Extend p crc a) b = Extend r crc (a @ b)"
  by (simp add: Extend_crc32c crc32c_append)

text \<open>Masking is invertible: the stored form of a checksum determines it.\<close>

lemma mask_roundtrip: "Unmask (Mask crc) = crc \<and> Mask (Unmask crc) = crc"
proof
  show "Unmask (Mask crc) = crc"
    by (rule Unmask_Mask)
  have "drop_bit 15 (drop_bit 17 r OR push_bit 15 r) OR push_bit 17 (drop_bit 17 r OR push_bit 15 r) = r" for r :: uint32
    by (rule bit_eqI) (auto simp: bit_simps, metis le_add_diff_inverse not_less)
  then show "Mask (Unmask crc) = crc"
    by (simp add: Unmask_def Mask_def Let_def)
qed

end
