(* ===== verification/Log.thy ===== *)
theory Log
  imports Crc32c Status "HOL-Library.Monad_Syntax"
begin

text \<open>
  The log format (\<^verbatim>\<open>db/log_format.h\<close>), its writer (\<^verbatim>\<open>db/log_writer.cc\<close>) and its
  reader (\<^verbatim>\<open>db/log_reader.cc\<close>).  Files are given by the operations the code calls
  on them.  The reader loops over a file that may never end, so a read that does
  not return is \<open>None\<close>.  Checksums are computed as for an aligned buffer; the
  alignment does not change their value.
\<close>

unbundle bit_operations_syntax

section \<open>Definitions\<close>

definition kZeroType :: uint32 where "kZeroType = 0"
definition kFullType :: uint32 where "kFullType = 1"
definition kFirstType :: uint32 where "kFirstType = 2"
definition kMiddleType :: uint32 where "kMiddleType = 3"
definition kLastType :: uint32 where "kLastType = 4"
definition kEof :: uint32 where "kEof = kLastType + 1"
definition kBadRecord :: uint32 where "kBadRecord = kLastType + 2"

definition kLogBlockSize :: nat where "kLogBlockSize = 32768"
definition kHeaderSize :: nat where "kHeaderSize = 4 + 2 + 1"

subsection \<open>Writer\<close>

record 'f WritableFile =
  wf_Append :: "bytes \<Rightarrow> 'f \<Rightarrow> Status \<times> 'f"
  wf_Flush :: "'f \<Rightarrow> Status \<times> 'f"

record 'f Writer =
  dest :: 'f
  block_offset :: nat
  type_crc :: "uint32 list"

definition InitTypeCrc :: "uint32 list" where
  "InitTypeCrc = map (\<lambda>i. Value 0 [word_of_nat i]) [0..<5]"

definition new_Writer :: "'f \<Rightarrow> 'f Writer" where
  "new_Writer f = \<lparr> dest = f, block_offset = 0, type_crc = InitTypeCrc \<rparr>"

definition new_Writer_at :: "'f \<Rightarrow> uint64 \<Rightarrow> 'f Writer" where
  "new_Writer_at f dest_length =
     \<lparr> dest = f, block_offset = unat dest_length mod kLogBlockSize, type_crc = InitTypeCrc \<rparr>"

text \<open>The header of a physical record.\<close>

definition record_header :: "uint32 list \<Rightarrow> uint32 \<Rightarrow> bytes \<Rightarrow> bytes" where
  "record_header tcrc t ptr =
     (let n = length ptr; crc = Mask (Extend 0 (tcrc ! unat t) ptr) in
      EncodeFixed32 crc @ [word_of_nat n, word_of_nat (n div 256), ucast t])"

definition EmitPhysicalRecord :: "'f WritableFile \<Rightarrow> uint32 \<Rightarrow> bytes \<Rightarrow> 'f Writer \<Rightarrow> Status \<times> 'f Writer" where
  "EmitPhysicalRecord wfile t ptr w =
     (let (s, f) = wf_Append wfile (record_header (type_crc w) t ptr) (dest w);
          (s, f) = (if ok s then
                      let (s, f) = wf_Append wfile ptr f in
                      if ok s then wf_Flush wfile f else (s, f)
                    else (s, f))
      in (s, w\<lparr>dest := f, block_offset := block_offset w + (kHeaderSize + length ptr)\<rparr>))"

text \<open>The switch to a new block: a trailer too short for a header is filled with zeros.\<close>

definition SwitchBlock :: "'f WritableFile \<Rightarrow> 'f Writer \<Rightarrow> 'f Writer" where
  "SwitchBlock wfile w =
     (let leftover = kLogBlockSize - block_offset w in
      if leftover < kHeaderSize then
        w\<lparr>dest := (if leftover > 0 then snd (wf_Append wfile (replicate leftover 0) (dest w)) else dest w),
          block_offset := 0\<rparr>
      else w)"

definition fragment_type :: "bool \<Rightarrow> bool \<Rightarrow> uint32" where
  "fragment_type start fin =
     (if start \<and> fin then kFullType else if start then kFirstType else if fin then kLastType else kMiddleType)"

lemma SwitchBlock_offset:
  "block_offset (SwitchBlock wfile w) =
     (if kLogBlockSize - block_offset w < kHeaderSize then 0 else block_offset w)"
  by (simp add: SwitchBlock_def Let_def)

function AddRecord_loop :: "'f WritableFile \<Rightarrow> bool \<Rightarrow> bytes \<Rightarrow> 'f Writer \<Rightarrow> Status \<times> 'f Writer" where
  "AddRecord_loop wfile start ptr w =
     (let w = SwitchBlock wfile w;
          avail = kLogBlockSize - block_offset w - kHeaderSize;
          n = (if length ptr < avail then length ptr else avail);
          (s, w) = EmitPhysicalRecord wfile (fragment_type start (length ptr = n)) (take n ptr) w
      in
      if ok s \<and> length ptr - n > 0 then AddRecord_loop wfile False (drop n ptr) w else (s, w))"
  by auto

termination
proof (relation "measure (\<lambda>(wfile, start, ptr, w). 2 * length ptr +
    (if kLogBlockSize - block_offset w = kHeaderSize then 1 else 0))", goal_cases)
  case (2 wfile start ptr w w' avail n p s w'')
  have off: "block_offset w'' = block_offset w' + (kHeaderSize + length (take n ptr))"
    using 2(4,5) by (auto simp: EmitPhysicalRecord_def Let_def split: prod.splits if_splits)
  show ?case
  proof (cases "n = 0")
    case True
    with 2 have "avail = 0" "0 < length ptr"
      by (auto split: if_splits)
    then have "kLogBlockSize - block_offset w' \<le> kHeaderSize"
      using 2(2) by simp
    then have "kLogBlockSize - block_offset w = kHeaderSize" "block_offset w' = block_offset w"
      using 2(1) by (auto simp: SwitchBlock_offset kLogBlockSize_def kHeaderSize_def split: if_splits)
    with True off show ?thesis
      by (simp add: kLogBlockSize_def kHeaderSize_def)
  next
    case False
    with 2 show ?thesis
      by (auto split: if_splits)
  qed
qed simp

definition AddRecord :: "'f WritableFile \<Rightarrow> bytes \<Rightarrow> 'f Writer \<Rightarrow> Status \<times> 'f Writer" where
  "AddRecord wfile data w = AddRecord_loop wfile True data w"

declare AddRecord_loop.simps [simp del]

subsection \<open>Reader\<close>

record 'f SequentialFile =
  sf_Read :: "nat \<Rightarrow> 'f \<Rightarrow> Status \<times> bytes \<times> 'f"
  sf_Skip :: "uint64 \<Rightarrow> 'f \<Rightarrow> Status \<times> 'f"

text \<open>\<open>reports\<close> is what the reporter has been told.\<close>

record 'f Reader =
  log_file :: 'f
  checksum :: bool
  buffer :: bytes
  eof :: bool
  last_record_offset :: uint64
  end_of_buffer_offset :: uint64
  initial_offset :: uint64
  resyncing :: bool
  reports :: "(uint64 \<times> Status) list"

definition new_Reader :: "'f \<Rightarrow> bool \<Rightarrow> uint64 \<Rightarrow> 'f Reader" where
  "new_Reader f check offset =
     \<lparr> log_file = f, checksum = check, buffer = [], eof = False, last_record_offset = 0,
       end_of_buffer_offset = 0, initial_offset = offset, resyncing = (offset > 0), reports = [] \<rparr>"

definition ReportDrop :: "uint64 \<Rightarrow> Status \<Rightarrow> 'f Reader \<Rightarrow> 'f Reader" where
  "ReportDrop n reason r =
     (if end_of_buffer_offset r - word_of_nat (length (buffer r)) - n \<ge> initial_offset r
      then r\<lparr>reports := reports r @ [(n, reason)]\<rparr> else r)"

definition ReportCorruption :: "uint64 \<Rightarrow> string \<Rightarrow> 'f Reader \<Rightarrow> 'f Reader" where
  "ReportCorruption n reason r = ReportDrop n (Corruption (lit reason) []) r"

definition SkipToInitialBlock :: "'f SequentialFile \<Rightarrow> 'f Reader \<Rightarrow> bool \<times> 'f Reader" where
  "SkipToInitialBlock sf r =
     (let offset_in_block = initial_offset r mod 32768;
          block_start_location = initial_offset r - offset_in_block;
          block_start_location =
            (if offset_in_block > 32768 - 6 then block_start_location + 32768 else block_start_location);
          r = r\<lparr>end_of_buffer_offset := block_start_location\<rparr>
      in
      if block_start_location > 0 then
        let (s, f) = sf_Skip sf block_start_location (log_file r); r = r\<lparr>log_file := f\<rparr> in
        if \<not> ok s then (False, ReportDrop block_start_location s r) else (True, r)
      else (True, r))"

partial_function (option) ReadPhysicalRecord ::
    "'f SequentialFile \<Rightarrow> 'f Reader \<Rightarrow> (uint32 \<times> bytes \<times> 'f Reader) option" where
  "ReadPhysicalRecord sf r =
     (if length (buffer r) < kHeaderSize then
        if \<not> eof r then
          let (s, data, f) = sf_Read sf kLogBlockSize (log_file r);
              r = r\<lparr>buffer := data, log_file := f, end_of_buffer_offset := end_of_buffer_offset r + word_of_nat (length data)\<rparr>
          in
          if \<not> ok s then
            Some (kEof, [], ReportDrop 32768 s (r\<lparr>buffer := []\<rparr>)\<lparr>eof := True\<rparr>)
          else ReadPhysicalRecord sf (if length (buffer r) < kLogBlockSize then r\<lparr>eof := True\<rparr> else r)
        else Some (kEof, [], r\<lparr>buffer := []\<rparr>)
      else
        let header = buffer r;
            len = unat (header ! 4) + 256 * unat (header ! 5);
            type = scast (header ! 6) :: uint32
        in
        if kHeaderSize + len > length (buffer r) then
          let drop_size = word_of_nat (length (buffer r)); r = r\<lparr>buffer := []\<rparr> in
          if \<not> eof r then Some (kBadRecord, [], ReportCorruption drop_size ''bad record length'' r)
          else Some (kEof, [], r)
        else if type = kZeroType \<and> len = 0 then Some (kBadRecord, [], r\<lparr>buffer := []\<rparr>)
        else if checksum r \<and>
            Value 0 (take (1 + len) (drop 6 header)) \<noteq> Unmask (DecodeFixed32 header) then
          let drop_size = word_of_nat (length (buffer r)); r = r\<lparr>buffer := []\<rparr> in
          Some (kBadRecord, [], ReportCorruption drop_size ''checksum mismatch'' r)
        else
          let r = r\<lparr>buffer := drop (kHeaderSize + len) (buffer r)\<rparr> in
          if end_of_buffer_offset r - word_of_nat (length (buffer r)) - 7 - word_of_nat len < initial_offset r
          then Some (kBadRecord, [], r)
          else Some (type, take len (drop kHeaderSize header), r))"

declare ReadPhysicalRecord.simps [code]

text \<open>The loop of \<^verbatim>\<open>ReadRecord\<close>: \<open>scratch\<close> holds the fragments so far and \<open>frag\<close> says
  whether a record is open; the result is the record, or \<open>None\<close> at the end.\<close>

partial_function (option) ReadRecord_loop ::
    "'f SequentialFile \<Rightarrow> bool \<Rightarrow> bytes \<Rightarrow> uint64 \<Rightarrow> 'f Reader \<Rightarrow> (bytes option \<times> 'f Reader) option" where
  "ReadRecord_loop sf frag scratch offset r =
     do {
       let physical_record_offset = end_of_buffer_offset r - word_of_nat (length (buffer r));
       (type, fragment, r) \<leftarrow> ReadPhysicalRecord sf r;
       let skip = resyncing r \<and> (type = kMiddleType \<or> type = kLastType);
       let r = (if resyncing r \<and> type \<noteq> kMiddleType then r\<lparr>resyncing := False\<rparr> else r);
       if skip then ReadRecord_loop sf frag scratch offset r
       else if type = kFullType then
         let r = (if frag \<and> scratch \<noteq> []
                  then ReportCorruption (word_of_nat (length scratch)) ''partial record without end(1)'' r else r)
         in Some (Some fragment, r\<lparr>last_record_offset := physical_record_offset\<rparr>)
       else if type = kFirstType then
         let r = (if frag \<and> scratch \<noteq> []
                  then ReportCorruption (word_of_nat (length scratch)) ''partial record without end(2)'' r else r)
         in ReadRecord_loop sf True fragment physical_record_offset r
       else if type = kMiddleType then
         if \<not> frag then
           ReadRecord_loop sf frag scratch offset
             (ReportCorruption (word_of_nat (length fragment)) ''missing start of fragmented record(1)'' r)
         else ReadRecord_loop sf frag (scratch @ fragment) offset r
       else if type = kLastType then
         if \<not> frag then
           ReadRecord_loop sf frag scratch offset
             (ReportCorruption (word_of_nat (length fragment)) ''missing start of fragmented record(2)'' r)
         else Some (Some (scratch @ fragment), r\<lparr>last_record_offset := offset\<rparr>)
       else if type = kEof then Some (None, r)
       else if type = kBadRecord then
         if frag then
           ReadRecord_loop sf False [] offset
             (ReportCorruption (word_of_nat (length scratch)) ''error in middle of record'' r)
         else ReadRecord_loop sf frag scratch offset r
       else
         ReadRecord_loop sf False [] offset
           (ReportDrop (word_of_nat (length fragment + (if frag then length scratch else 0)))
              (Corruption (lit ''unknown record type '' @ decimal (unat type)) []) r)
     }"

declare ReadRecord_loop.simps [code]

definition ReadRecord :: "'f SequentialFile \<Rightarrow> 'f Reader \<Rightarrow> (bytes option \<times> 'f Reader) option" where
  "ReadRecord sf r =
     (let (go, r) = (if last_record_offset r < initial_offset r then SkipToInitialBlock sf r else (True, r)) in
      if \<not> go then Some (None, r) else ReadRecord_loop sf False [] 0 r)"

definition LastRecordOffset :: "'f Reader \<Rightarrow> uint64" where
  "LastRecordOffset r = last_record_offset r"

subsection \<open>Whole logs\<close>

text \<open>Adding records until one fails, and the loop \<^verbatim>\<open>while (reader.ReadRecord(...))\<close> of the
  recovery code.\<close>

fun AddRecords :: "'f WritableFile \<Rightarrow> bytes list \<Rightarrow> 'f Writer \<Rightarrow> Status \<times> 'f Writer" where
  "AddRecords wfile [] w = (OK, w)"
| "AddRecords wfile (d # ds) w =
     (let (s, w) = AddRecord wfile d w in if ok s then AddRecords wfile ds w else (s, w))"

partial_function (option) read_all ::
    "'f SequentialFile \<Rightarrow> 'f Reader \<Rightarrow> (bytes list \<times> 'f Reader) option" where
  "read_all sf r =
     do {
       (x, r) \<leftarrow> ReadRecord sf r;
       case x of
         None \<Rightarrow> Some ([], r)
       | Some d \<Rightarrow> do { (ds, r) \<leftarrow> read_all sf r; Some (d # ds, r) }
     }"

declare read_all.simps [code]

section \<open>The format\<close>

text \<open>A physical record; the block offset at which the next one starts; the stream of
  physical records written from a block offset on.\<close>

definition physical :: "uint32 \<Rightarrow> bytes \<Rightarrow> bytes" where
  "physical t d = record_header InitTypeCrc t d @ d"

definition frag_start :: "nat \<Rightarrow> nat" where
  "frag_start off = (if kLogBlockSize - off < kHeaderSize then 0 else off)"

definition trailer :: "nat \<Rightarrow> bytes" where
  "trailer off = (if kLogBlockSize - off < kHeaderSize then replicate (kLogBlockSize - off) 0 else [])"

fun layout :: "nat \<Rightarrow> (uint32 \<times> bytes) list \<Rightarrow> bytes" where
  "layout off [] = []"
| "layout off ((t, d) # xs) =
     trailer off @ physical t d @ layout (frag_start off + (kHeaderSize + length d)) xs"

fun end_off :: "nat \<Rightarrow> (uint32 \<times> bytes) list \<Rightarrow> nat" where
  "end_off off [] = off"
| "end_off off ((t, d) # xs) = end_off (frag_start off + (kHeaderSize + length d)) xs"

text \<open>How a record is cut into fragments, and the fragments of a log.\<close>

inductive cut :: "nat \<Rightarrow> bool \<Rightarrow> bytes \<Rightarrow> (uint32 \<times> bytes) list \<Rightarrow> bool" where
  cut_end: "length ptr \<le> kLogBlockSize - frag_start off - kHeaderSize \<Longrightarrow>
     cut off start ptr [(fragment_type start True, ptr)]"
| cut_step: "n = kLogBlockSize - frag_start off - kHeaderSize \<Longrightarrow> n < length ptr \<Longrightarrow>
     cut (frag_start off + (kHeaderSize + n)) False (drop n ptr) xs \<Longrightarrow>
     cut off start ptr ((fragment_type start False, take n ptr) # xs)"

inductive log_layout :: "nat \<Rightarrow> bytes list \<Rightarrow> (uint32 \<times> bytes) list \<Rightarrow> bool" where
  log_nil: "log_layout off [] []"
| log_rec: "cut off True d xs \<Longrightarrow> log_layout (end_off off xs) ds ys \<Longrightarrow> log_layout off (d # ds) (xs @ ys)"

lemmas log_sizes = kLogBlockSize_def kHeaderSize_def

lemma frag_start_fits: "off \<le> kLogBlockSize \<Longrightarrow> frag_start off + kHeaderSize \<le> kLogBlockSize"
  by (auto simp: frag_start_def log_sizes)

lemma layout_append: "layout off (xs @ ys) = layout off xs @ layout (end_off off xs) ys"
  by (induction off xs rule: layout.induct) auto

lemma end_off_append: "end_off off (xs @ ys) = end_off (end_off off xs) ys"
  by (induction off xs rule: end_off.induct) auto

lemma length_record_header [simp]: "length (record_header tcrc t d) = kHeaderSize"
  by (simp add: record_header_def Let_def kHeaderSize_def)

lemma length_physical [simp]: "length (physical t d) = kHeaderSize + length d"
  by (simp add: physical_def)

text \<open>A reader starts at the end of an empty block, a writer at the start of a full one.\<close>

lemma frag_start_block: "frag_start kLogBlockSize = frag_start 0" "trailer kLogBlockSize = trailer 0"
  by (simp_all add: frag_start_def trailer_def log_sizes)

lemma layout_start: "layout kLogBlockSize xs = layout 0 xs"
  by (cases xs) (auto simp: frag_start_block)

lemma cut_start: "cut 0 start d xs \<Longrightarrow> cut kLogBlockSize start d xs \<and> end_off kLogBlockSize xs = end_off 0 xs"
  by (erule cut.cases) (auto simp: frag_start_block intro: cut.intros)

lemma end_off_start: "xs \<noteq> [] \<Longrightarrow> end_off kLogBlockSize xs = end_off 0 xs"
  by (cases xs) (auto simp: frag_start_block)

lemma log_layout_start: "log_layout 0 ds xs \<Longrightarrow> log_layout kLogBlockSize ds xs"
  by (erule log_layout.cases) (use cut_start in \<open>fastforce intro: log_layout.intros\<close>)+

section \<open>The writer\<close>

locale log_sink =
  fixes wfile :: "'f WritableFile" and winv :: "'f \<Rightarrow> bool" and written :: "'f \<Rightarrow> bytes"
  assumes append_ok: "winv f \<Longrightarrow> wf_Append wfile d f = (s, f') \<Longrightarrow> ok s \<and> winv f' \<and> written f' = written f @ d"
    and flush_ok: "winv f \<Longrightarrow> wf_Flush wfile f = (s, f') \<Longrightarrow> ok s \<and> winv f' \<and> written f' = written f"
begin

definition wstate :: "'f Writer \<Rightarrow> bool" where
  "wstate w \<longleftrightarrow> winv (dest w) \<and> block_offset w \<le> kLogBlockSize \<and> type_crc w = InitTypeCrc"

lemma Emit_appends:
  assumes "wstate w" "EmitPhysicalRecord wfile t d w = (s, w')"
    "block_offset w + (kHeaderSize + length d) \<le> kLogBlockSize"
  shows "ok s \<and> wstate w' \<and> written (dest w') = written (dest w) @ physical t d \<and>
    block_offset w' = block_offset w + (kHeaderSize + length d)"
proof -
  obtain s1 f1 where 1: "wf_Append wfile (record_header (type_crc w) t d) (dest w) = (s1, f1)" by fastforce
  obtain s2 f2 where 2: "wf_Append wfile d f1 = (s2, f2)" by fastforce
  obtain s3 f3 where 3: "wf_Flush wfile f2 = (s3, f3)" by fastforce
  have i1: "ok s1" "winv f1" "written f1 = written (dest w) @ record_header InitTypeCrc t d"
    using append_ok [OF _ 1] assms(1) by (auto simp: wstate_def)
  have i2: "ok s2" "winv f2" "written f2 = written f1 @ d"
    using append_ok [OF i1(2) 2] by auto
  have i3: "ok s3" "winv f3" "written f3 = written f2"
    using flush_ok [OF i2(2) 3] by auto
  show ?thesis
    using assms 1 2 3 i1 i2 i3 by (auto simp: EmitPhysicalRecord_def wstate_def physical_def)
qed

lemma SwitchBlock_appends:
  assumes "wstate w"
  shows "wstate (SwitchBlock wfile w) \<and> block_offset (SwitchBlock wfile w) = frag_start (block_offset w) \<and>
    written (dest (SwitchBlock wfile w)) = written (dest w) @ trailer (block_offset w)"
proof -
  obtain s f where "wf_Append wfile (replicate (kLogBlockSize - block_offset w) 0) (dest w) = (s, f)" by fastforce
  with append_ok [OF _ this] assms show ?thesis
    by (auto simp: SwitchBlock_def wstate_def frag_start_def trailer_def Let_def)
qed

lemma AddRecord_loop_cuts:
  "wstate w \<Longrightarrow> AddRecord_loop wfile start ptr w = (s, w') \<Longrightarrow>
    \<exists>xs. ok s \<and> wstate w' \<and> cut (block_offset w) start ptr xs \<and>
      written (dest w') = written (dest w) @ layout (block_offset w) xs \<and>
      block_offset w' = end_off (block_offset w) xs"
proof (induction "2 * length ptr + (if kLogBlockSize - block_offset w = kHeaderSize then 1 else 0)"
    arbitrary: start ptr w rule: less_induct)
  case less
  let ?w = "SwitchBlock wfile w" and ?o = "frag_start (block_offset w)"
  let ?n = "min (length ptr) (kLogBlockSize - ?o - kHeaderSize)"
  note sw = SwitchBlock_appends [OF less.prems(1)]
  obtain s1 w1 where em: "EmitPhysicalRecord wfile (fragment_type start (length ptr = ?n)) (take ?n ptr) ?w = (s1, w1)"
    by fastforce
  have fits: "?o + kHeaderSize \<le> kLogBlockSize"
    using less.prems(1) by (auto simp: wstate_def intro: frag_start_fits)
  have e: "ok s1 \<and> wstate w1 \<and> written (dest w1) = written (dest ?w) @
      physical (fragment_type start (length ptr = ?n)) (take ?n ptr) \<and> block_offset w1 = ?o + (kHeaderSize + ?n)"
    using Emit_appends [OF _ em] sw fits by auto
  have n: "(if length ptr < kLogBlockSize - block_offset ?w - kHeaderSize then length ptr
      else kLogBlockSize - block_offset ?w - kHeaderSize) = ?n"
    using sw by auto
  have step: "(s, w') = (if length ptr - ?n > 0 then AddRecord_loop wfile False (drop ?n ptr) w1 else (s1, w1))"
    using less.prems(2) e unfolding AddRecord_loop.simps [of wfile start ptr w] Let_def n em by simp
  show ?case
  proof (cases "length ptr \<le> kLogBlockSize - ?o - kHeaderSize")
    case True
    then show ?thesis
      using step e sw cut_end [OF True, of start] by (intro exI [of _ "[(fragment_type start True, ptr)]"]) simp
  next
    case False
    let ?p = "kLogBlockSize - ?o - kHeaderSize"
    have lt: "2 * length (drop ?n ptr) + (if kLogBlockSize - block_offset w1 = kHeaderSize then 1 else 0)
        < 2 * length ptr + (if kLogBlockSize - block_offset w = kHeaderSize then (1::nat) else 0)"
      using False e fits by (auto simp: frag_start_def log_sizes split: if_splits)
    obtain xs where xs: "ok s" "wstate w'" "cut (block_offset w1) False (drop ?n ptr) xs"
        "written (dest w') = written (dest w1) @ layout (block_offset w1) xs"
        "block_offset w' = end_off (block_offset w1) xs"
      using less.hyps [OF lt, of False] step e False by auto
    have c: "cut (block_offset w) start ptr ((fragment_type start False, take ?p ptr) # xs)"
      using xs(3) e False by (intro cut_step) auto
    show ?thesis
      using c xs e sw False by (intro exI [of _ "(fragment_type start False, take ?p ptr) # xs"]) simp
  qed
qed

lemma AddRecords_cuts:
  "wstate w \<Longrightarrow> AddRecords wfile ds w = (s, w') \<Longrightarrow>
    \<exists>xs. ok s \<and> wstate w' \<and> log_layout (block_offset w) ds xs \<and>
      written (dest w') = written (dest w) @ layout (block_offset w) xs \<and>
      block_offset w' = end_off (block_offset w) xs"
proof (induction ds arbitrary: w)
  case Nil
  then show ?case
    by (auto simp: ok_def intro!: exI [of _ "[]"] log_nil)
next
  case (Cons d ds)
  obtain s1 w1 where a: "AddRecord_loop wfile True d w = (s1, w1)" by fastforce
  obtain xs where xs: "ok s1" "wstate w1" "cut (block_offset w) True d xs"
      "written (dest w1) = written (dest w) @ layout (block_offset w) xs"
      "block_offset w1 = end_off (block_offset w) xs"
    using AddRecord_loop_cuts [OF Cons.prems(1) a] by blast
  then have "AddRecords wfile ds w1 = (s, w')"
    using Cons.prems(2) a by (simp add: AddRecord_def)
  from Cons.IH [OF xs(2) this] obtain ys where ys: "ok s" "wstate w'"
      "log_layout (block_offset w1) ds ys" "written (dest w') = written (dest w1) @ layout (block_offset w1) ys"
      "block_offset w' = end_off (block_offset w1) ys" by blast
  have "end_off (block_offset w) (xs @ ys) = end_off (end_off (block_offset w) xs) ys"
    by (rule end_off_append)
  then show ?case
    using xs ys log_rec [OF xs(3), of ds ys] by (intro exI [of _ "xs @ ys"]) (simp add: layout_append)
qed

end

section \<open>The reader\<close>

lemma InitTypeCrc_nth: "t \<in> {1, 2, 3, 4} \<Longrightarrow> InitTypeCrc ! unat t = crc32c 0 [ucast (t :: uint32)]"
  by (auto simp: InitTypeCrc_def Value_def Extend_crc32c upt_rec)

lemma header_fields:
  assumes "length d < 65536" "t \<in> {1, 2, 3, 4}"
  shows "unat (physical t d ! 4) + 256 * unat (physical t d ! 5) = length d"
    "scast (physical t d ! 6) = t"
    "Unmask (DecodeFixed32 (physical t d @ rest)) = crc32c 0 (ucast t # d)"
    "take (Suc (length d)) (drop 6 (physical t d @ rest)) = ucast t # d"
proof -
  let ?c = "Mask (Extend 0 (InitTypeCrc ! unat t) d)"
  have p: "physical t d = EncodeFixed32 ?c @ [word_of_nat (length d), word_of_nat (length d div 256), ucast t] @ d"
    by (simp add: physical_def record_header_def Let_def)
  have n: "physical t d ! 4 = word_of_nat (length d)" "physical t d ! 5 = word_of_nat (length d div 256)"
      "physical t d ! 6 = ucast t"
    by (simp_all add: p nth_append)
  show "unat (physical t d ! 4) + 256 * unat (physical t d ! 5) = length d"
    using assms(1) by (simp add: n unat_of_nat take_bit_eq_mod)
  show "scast (physical t d ! 6) = t"
    using assms(2) by (auto simp: n)
  have "DecodeFixed32 (physical t d @ rest) = ?c"
    by (simp add: p)
  then show "Unmask (DecodeFixed32 (physical t d @ rest)) = crc32c 0 (ucast t # d)"
    using InitTypeCrc_nth [OF assms(2)] by (simp add: Unmask_Mask Extend_crc32c crc32c_append)
  show "take (Suc (length d)) (drop 6 (physical t d @ rest)) = ucast t # d"
    by (simp add: p)
qed

lemmas type_codes = kFullType_def kFirstType_def kMiddleType_def kLastType_def kEof_def kBadRecord_def

lemma ReadRecord_steps:
  assumes "\<not> resyncing r1"
  shows "ReadPhysicalRecord sf r = Some (kFullType, d, r1) \<Longrightarrow> ReadRecord_loop sf False scr o' r =
      Some (Some d, r1\<lparr>last_record_offset := end_of_buffer_offset r - word_of_nat (length (buffer r))\<rparr>)"
    and "ReadPhysicalRecord sf r = Some (kFirstType, d, r1) \<Longrightarrow> ReadRecord_loop sf False scr o' r =
      ReadRecord_loop sf True d (end_of_buffer_offset r - word_of_nat (length (buffer r))) r1"
    and "ReadPhysicalRecord sf r = Some (kMiddleType, d, r1) \<Longrightarrow>
      ReadRecord_loop sf True scr o' r = ReadRecord_loop sf True (scr @ d) o' r1"
    and "ReadPhysicalRecord sf r = Some (kLastType, d, r1) \<Longrightarrow>
      ReadRecord_loop sf True scr o' r = Some (Some (scr @ d), r1\<lparr>last_record_offset := o'\<rparr>)"
    and "ReadPhysicalRecord sf r = Some (kEof, d, r1) \<Longrightarrow> ReadRecord_loop sf frag scr o' r = Some (None, r1)"
  using assms by (simp_all add: type_codes ReadRecord_loop.simps [of sf _ _ _ r])

lemma le_take_length: "xs @ ys = take k zs \<Longrightarrow> length xs \<le> k"
  by (metis add_leD1 length_append length_take min.bounded_iff order_refl)

text \<open>What a reader of a log that was cut off at any point keeps.\<close>

definition quiet :: "'f Reader \<Rightarrow> bool" where
  "quiet r \<longleftrightarrow> initial_offset r = 0 \<and> \<not> resyncing r \<and> reports r = []"

lemma quiet_offset [simp]: "quiet (r\<lparr>last_record_offset := p\<rparr>) = quiet r"
  by (simp add: quiet_def)

lemma quiet_resyncing: "quiet r \<Longrightarrow> \<not> resyncing r"
  by (simp add: quiet_def)

locale log_source =
  fixes sf :: "'f SequentialFile" and rinv :: "'f \<Rightarrow> bool" and unread :: "'f \<Rightarrow> bytes"
  assumes read_ok: "rinv f \<Longrightarrow> sf_Read sf n f = (s, d, f') \<Longrightarrow>
    ok s \<and> d = take n (unread f) \<and> rinv f' \<and> unread f' = drop n (unread f)"
begin

definition at_pos :: "'f Reader \<Rightarrow> nat \<Rightarrow> bytes \<Rightarrow> bool" where
  "at_pos r off U \<longleftrightarrow> rinv (log_file r) \<and> buffer r @ unread (log_file r) = U \<and> off \<le> kLogBlockSize \<and>
     (if eof r then unread (log_file r) = [] \<and> off + length (buffer r) < kLogBlockSize
      else length (buffer r) = kLogBlockSize - off)"

lemma refill:
  assumes "at_pos r off U" "\<not> eof r" "length (buffer r) < kHeaderSize" "quiet r"
  obtains r' where "ReadPhysicalRecord sf r = ReadPhysicalRecord sf r'"
    "at_pos r' 0 (drop (kLogBlockSize - off) U)" "quiet r'" "eof r' \<or> length (buffer r') = kLogBlockSize"
proof -
  obtain s d f where rd: "sf_Read sf kLogBlockSize (log_file r) = (s, d, f)" by (metis prod_cases3)
  have k: "ok s" "d = take kLogBlockSize (unread (log_file r))" "rinv f" "unread f = drop kLogBlockSize (unread (log_file r))"
    using read_ok [OF _ rd] assms(1) by (auto simp: at_pos_def)
  let ?r1 = "r\<lparr>buffer := d, log_file := f, end_of_buffer_offset := end_of_buffer_offset r + word_of_nat (length d)\<rparr>"
  let ?r = "if length d < kLogBlockSize then ?r1\<lparr>eof := True\<rparr> else ?r1"
  show thesis
  proof (rule that)
    show "ReadPhysicalRecord sf r = ReadPhysicalRecord sf ?r"
      using assms k(1) by (subst ReadPhysicalRecord.simps) (simp add: rd)
    show "at_pos ?r 0 (drop (kLogBlockSize - off) U)"
      using assms k by (auto simp: at_pos_def)
    show "quiet ?r"
      using assms by (simp add: quiet_def)
    show "eof ?r \<or> length (buffer ?r) = kLogBlockSize"
      using k(2) by auto
  qed
qed

lemma at_eof:
  assumes "eof r" "length (buffer r) < kHeaderSize" "quiet r"
  shows "\<exists>r'. ReadPhysicalRecord sf r = Some (kEof, [], r') \<and> quiet r'"
  using assms by (subst ReadPhysicalRecord.simps) (simp add: quiet_def)

lemma parse_whole:
  assumes at: "at_pos r off (take k (physical t d @ L))" and q: "quiet r" and ge: "kHeaderSize \<le> length (buffer r)"
    and t: "t \<in> {1, 2, 3, 4}" and fits: "off + (kHeaderSize + length d) \<le> kLogBlockSize"
    and k: "kHeaderSize + length d \<le> k"
  shows "\<exists>r'. ReadPhysicalRecord sf r = Some (t, d, r') \<and> quiet r' \<and>
    at_pos r' (off + (kHeaderSize + length d)) (take (k - (kHeaderSize + length d)) L)"
proof -
  let ?n = "kHeaderSize + length d"
  have U: "buffer r @ unread (log_file r) = physical t d @ take (k - ?n) L"
    using at k by (simp add: at_pos_def)
  have len: "?n \<le> length (buffer r)"
  proof (cases "eof r")
    case True
    then have "buffer r = physical t d @ take (k - ?n) L"
      using at U by (simp add: at_pos_def)
    then show ?thesis by simp
  next
    case False
    then show ?thesis
      using at fits by (simp add: at_pos_def)
  qed
  let ?b = "drop ?n (buffer r)"
  have b: "buffer r = physical t d @ ?b"
    using arg_cong [OF U, of "take ?n"] len by (metis append_eq_conv_conj append_take_drop_id length_physical take_append take_all diff_is_0_eq take0 append_Nil2)
  have rest: "?b @ unread (log_file r) = take (k - ?n) L"
    using U b by (metis append.assoc same_append_eq)
  have d: "length d < 65536"
    using fits by (simp add: log_sizes)
  have n7: "7 \<le> length (physical t d)"
    by (simp add: kHeaderSize_def)
  have nth: "buffer r ! i = physical t d ! i" if "i < 7" for i
    using that n7 by (subst b) (simp add: nth_append)
  have tk: "take (length d) (drop kHeaderSize (buffer r)) = d"
    by (subst b) (simp add: physical_def)
  have crc: "Value 0 (take (Suc (length d)) (drop 6 (buffer r))) = Unmask (DecodeFixed32 (buffer r))"
    using header_fields(3,4) [OF d t, of ?b] b by (simp add: Value_def Extend_crc32c)
  have nz: "t \<noteq> kZeroType"
    using t by (auto simp: kZeroType_def)
  have "ReadPhysicalRecord sf r = Some (t, d, r\<lparr>buffer := ?b\<rparr>)"
    using ge len q nz header_fields(1,2) [OF d t]
    by (subst ReadPhysicalRecord.simps) (simp add: nth crc tk quiet_def)
  moreover have "at_pos (r\<lparr>buffer := ?b\<rparr>) (off + ?n) (take (k - ?n) L)"
    using at rest fits len by (auto simp: at_pos_def)
  moreover have "quiet (r\<lparr>buffer := ?b\<rparr>)"
    using q by (simp add: quiet_def)
  ultimately show ?thesis
    by blast
qed

lemma parse_cut:
  assumes at: "at_pos r off (take k (physical t d @ L))" and q: "quiet r" and ge: "kHeaderSize \<le> length (buffer r)"
    and t: "t \<in> {1, 2, 3, 4}" and fits: "off + (kHeaderSize + length d) \<le> kLogBlockSize"
    and k: "k < kHeaderSize + length d"
  shows "\<exists>r'. ReadPhysicalRecord sf r = Some (kEof, [], r') \<and> quiet r'"
proof -
  have U: "buffer r @ unread (log_file r) = take k (physical t d)"
    using at k by (simp add: at_pos_def)
  have lt: "length (buffer r) \<le> k"
    using arg_cong [OF U, of length] k by simp
  then have e: "eof r"
    using at fits k by (auto simp: at_pos_def split: if_splits)
  then have b: "buffer r = take k (physical t d)"
    using U at by (simp add: at_pos_def)
  have k7: "7 \<le> k"
    using ge lt by (simp add: kHeaderSize_def)
  have nth: "buffer r ! i = physical t d ! i" if "i < 7" for i
    using that k7 by (simp add: b)
  have d: "length d < 65536"
    using fits by (simp add: log_sizes)
  show ?thesis
    using ge lt k e q header_fields(1) [OF d t]
    by (subst ReadPhysicalRecord.simps) (simp add: nth quiet_def)
qed

text \<open>One physical record of a log of which the first \<open>k\<close> bytes are there.\<close>

lemma ReadPhysicalRecord_layout:
  assumes at: "at_pos r off (take k (layout off ((t, d) # xs)))" and q: "quiet r"
    and t: "t \<in> {1, 2, 3, 4}" and fits: "frag_start off + (kHeaderSize + length d) \<le> kLogBlockSize"
  defines "n \<equiv> length (trailer off) + (kHeaderSize + length d)"
    and "off' \<equiv> frag_start off + (kHeaderSize + length d)"
  shows "if n \<le> k
    then \<exists>r'. ReadPhysicalRecord sf r = Some (t, d, r') \<and> quiet r' \<and> at_pos r' off' (take (k - n) (layout off' xs))
    else \<exists>r'. ReadPhysicalRecord sf r = Some (kEof, [], r') \<and> quiet r'"
proof -
  let ?L = "layout off' xs"
  have here: ?thesis if a: "at_pos r1 (frag_start off) (take (k - length (trailer off)) (physical t d @ ?L))"
    and q1: "quiet r1" and eq: "ReadPhysicalRecord sf r = ReadPhysicalRecord sf r1" and le: "length (trailer off) \<le> k"
    and e: "kHeaderSize \<le> length (buffer r1) \<or> eof r1" for r1
  proof (cases "kHeaderSize \<le> length (buffer r1)")
    case True
    then show ?thesis
      using parse_whole [OF a q1 True t fits] parse_cut [OF a q1 True t fits] le eq
      by (simp add: n_def off'_def le_diff_conv2 diff_diff_left algebra_simps)
  next
    case False
    then have "eof r1" "length (buffer r1) < kHeaderSize" using e by auto
    moreover from this a have "k - length (trailer off) < kHeaderSize"
      by (auto simp: at_pos_def)
    ultimately show ?thesis
      using at_eof [OF _ _ q1] eq by (auto simp: n_def)
  qed
  show ?thesis
  proof (cases "kLogBlockSize - off < kHeaderSize")
    case False
    then have "frag_start off = off" "trailer off = []"
      by (simp_all add: frag_start_def trailer_def)
    then have "at_pos r (frag_start off) (take (k - length (trailer off)) (physical t d @ ?L))" "length (trailer off) \<le> k"
      using at by (simp_all add: off'_def)
    moreover have "kHeaderSize \<le> length (buffer r) \<or> eof r"
      using at False by (auto simp: at_pos_def)
    ultimately show ?thesis
      by (intro here [OF _ q refl])
  next
    case True
    then have fs: "frag_start off = 0" and tr: "length (trailer off) = kLogBlockSize - off"
      by (simp_all add: frag_start_def trailer_def)
    show ?thesis
    proof (cases "eof r")
      case e: True
      then have b: "buffer r = take k (layout off ((t, d) # xs))"
        using at unfolding at_pos_def by (metis append_Nil2)
      have o: "length (buffer r) < kLogBlockSize - off"
        using at e unfolding at_pos_def by simp linarith
      have "k < kLogBlockSize - off"
        using arg_cong [OF b, of length] o tr by simp
      then show ?thesis
        using at_eof [OF e _ q] o True tr by (auto simp: n_def)
    next
      case e: False
      have lb: "length (buffer r) = kLogBlockSize - off"
        using at e by (simp add: at_pos_def)
      have k: "kLogBlockSize - off \<le> k"
        using at lb le_take_length [of "buffer r" "unread (log_file r)" k "layout off ((t, d) # xs)"]
        by (simp add: at_pos_def)
      obtain r1 where r1: "ReadPhysicalRecord sf r = ReadPhysicalRecord sf r1"
        "at_pos r1 0 (drop (kLogBlockSize - off) (take k (layout off ((t, d) # xs))))"
        "quiet r1" "eof r1 \<or> length (buffer r1) = kLogBlockSize"
        using refill [OF at e _ q] lb True by metis
      have "drop (kLogBlockSize - off) (take k (layout off ((t, d) # xs))) =
          take (k - length (trailer off)) (physical t d @ ?L)"
        using tr by (simp add: drop_take off'_def del: take_append)
      then have "at_pos r1 (frag_start off) (take (k - length (trailer off)) (physical t d @ ?L))"
        using r1(2) fs by simp
      moreover have "kHeaderSize \<le> length (buffer r1) \<or> eof r1"
        using r1(4) by (auto simp: log_sizes)
      ultimately show ?thesis
        using k tr by (intro here [OF _ r1(3,1)]) simp_all
    qed
  qed
qed

lemma ReadPhysicalRecord_end:
  assumes at: "at_pos r off []" and q: "quiet r"
  shows "\<exists>r'. ReadPhysicalRecord sf r = Some (kEof, [], r') \<and> quiet r'"
proof (cases "eof r")
  case True
  then show ?thesis
    using at_eof [OF True _ q] at by (simp add: at_pos_def kHeaderSize_def)
next
  case False
  obtain r1 where r1: "ReadPhysicalRecord sf r = ReadPhysicalRecord sf r1" "at_pos r1 0 []" "quiet r1"
      "eof r1 \<or> length (buffer r1) = kLogBlockSize"
    using refill [OF at False _ q] at by (auto simp: at_pos_def kHeaderSize_def)
  then show ?thesis
    using at_eof [of r1] by (auto simp: at_pos_def log_sizes)
qed

text \<open>One record.\<close>

lemma fragment_type_range: "fragment_type start fin \<in> {1, 2, 3, 4}"
  by (simp add: fragment_type_def kFullType_def kFirstType_def kMiddleType_def kLastType_def)

lemma at_pos_offset [simp]: "at_pos (r\<lparr>last_record_offset := p\<rparr>) off U = at_pos r off U"
  by (simp add: at_pos_def)

lemma ReadRecord_cut:
  assumes "cut off start ptr xs" "at_pos r off (take k (layout off (xs @ ys)))" "quiet r" "start \<longleftrightarrow> \<not> frag"
    "start \<Longrightarrow> scr = []"
  shows "if length (layout off xs) \<le> k
    then \<exists>r'. ReadRecord_loop sf frag scr o' r = Some (Some (scr @ ptr), r') \<and> quiet r' \<and>
      at_pos r' (end_off off xs) (take (k - length (layout off xs)) (layout (end_off off xs) ys))
    else \<exists>r'. ReadRecord_loop sf frag scr o' r = Some (None, r') \<and> quiet r'"
  using assms
proof (induction arbitrary: r k frag scr o' rule: cut.induct)
  case (cut_end ptr off start)
  let ?t = "fragment_type start True" and ?n = "length (trailer off) + (kHeaderSize + length ptr)"
  have "frag_start off + (kHeaderSize + length ptr) \<le> kLogBlockSize"
    using cut_end.hyps cut_end.prems(1) frag_start_fits [of off] by (auto simp: at_pos_def)
  note phys = ReadPhysicalRecord_layout [OF _ cut_end.prems(2) fragment_type_range this, of k start True ys]
  show ?case
  proof (cases "?n \<le> k")
    case True
    then obtain r1 where r1: "ReadPhysicalRecord sf r = Some (?t, ptr, r1)" "quiet r1"
        "at_pos r1 (frag_start off + (kHeaderSize + length ptr))
          (take (k - ?n) (layout (frag_start off + (kHeaderSize + length ptr)) ys))"
      using phys cut_end.prems(1) by auto
    have "\<exists>p. ReadRecord_loop sf frag scr o' r = Some (Some (scr @ ptr), r1\<lparr>last_record_offset := p\<rparr>)"
      using ReadRecord_steps(1,4) [OF quiet_resyncing [OF r1(2)], of sf r ptr scr o'] r1(1) cut_end.prems(3,4)
      by (cases start) (auto simp: fragment_type_def)
    then obtain p where p: "ReadRecord_loop sf frag scr o' r = Some (Some (scr @ ptr), r1\<lparr>last_record_offset := p\<rparr>)" ..
    have "at_pos (r1\<lparr>last_record_offset := p\<rparr>) (frag_start off + (kHeaderSize + length ptr))
        (take (k - ?n) (layout (frag_start off + (kHeaderSize + length ptr)) ys))"
      using r1(3) by simp
    then show ?thesis
      using True r1(2) p by simp
  next
    case False
    then obtain r1 where r1: "ReadPhysicalRecord sf r = Some (kEof, [], r1)" "quiet r1"
      using phys cut_end.prems(1) by auto
    have "ReadRecord_loop sf frag scr o' r = Some (None, r1)"
      by (rule ReadRecord_steps(5) [OF quiet_resyncing [OF r1(2)] r1(1)])
    then show ?thesis
      using False r1(2) by auto
  qed
next
  case (cut_step n off ptr xs start)
  let ?t = "fragment_type start False" and ?d = "take n ptr"
  let ?n = "length (trailer off) + (kHeaderSize + length ?d)" and ?o = "frag_start off + (kHeaderSize + n)"
  have d: "length ?d = n"
    using cut_step.hyps(2) by simp
  have "frag_start off + (kHeaderSize + length ?d) \<le> kLogBlockSize"
    using cut_step.hyps(1) cut_step.prems(1) frag_start_fits [of off] by (auto simp: at_pos_def)
  note phys = ReadPhysicalRecord_layout [OF _ cut_step.prems(2) fragment_type_range this, of k start False "xs @ ys"]
  have at: "at_pos r off (take k (layout off ((?t, ?d) # xs @ ys)))"
    using cut_step.prems(1) by simp
  show ?case
  proof (cases "?n \<le> k")
    case True
    then obtain r1 where r1: "ReadPhysicalRecord sf r = Some (?t, ?d, r1)" "quiet r1"
        "at_pos r1 ?o (take (k - ?n) (layout ?o (xs @ ys)))"
      using phys [OF at] d by auto
    have "\<exists>p. ReadRecord_loop sf frag scr o' r = ReadRecord_loop sf True (scr @ ?d) p r1"
      using ReadRecord_steps(2,3) [OF quiet_resyncing [OF r1(2)], of sf r ?d scr o'] r1(1) cut_step.prems(3,4)
      by (cases start) (auto simp: fragment_type_def)
    then obtain p where p: "ReadRecord_loop sf frag scr o' r = ReadRecord_loop sf True (scr @ ?d) p r1" ..
    have len: "length (layout off ((?t, ?d) # xs)) = ?n + length (layout ?o xs)"
      using d by simp
    have end_o: "end_off off ((?t, ?d) # xs) = end_off ?o xs"
      using d by simp
    have app: "(scr @ ?d) @ drop n ptr = scr @ ptr"
      by simp
    have le: "?n + l \<le> k \<longleftrightarrow> l \<le> k - ?n" and sub: "k - (?n + l) = k - ?n - l" for l
      using True by linarith+
    show ?thesis
      using cut_step.IH [OF r1(3,2), of True "scr @ ?d" p] unfolding p len end_o app le sub by simp
  next
    case False
    then obtain r1 where r1: "ReadPhysicalRecord sf r = Some (kEof, [], r1)" "quiet r1"
      using phys [OF at] by auto
    have "ReadRecord_loop sf frag scr o' r = Some (None, r1)"
      by (rule ReadRecord_steps(5) [OF quiet_resyncing [OF r1(2)] r1(1)])
    then show ?thesis
      using False r1(2) by auto
  qed
qed

text \<open>A whole log.\<close>

lemma read_all_layout:
  assumes "log_layout off ds xs" "at_pos r off (take k (layout off xs))" "quiet r"
  shows "\<exists>j r'. read_all sf r = Some (take j ds, r') \<and> reports r' = [] \<and> (length (layout off xs) \<le> k \<longrightarrow> length ds \<le> j)"
  using assms
proof (induction arbitrary: r k rule: log_layout.induct)
  case (log_nil off)
  then obtain r1 where r1: "ReadPhysicalRecord sf r = Some (kEof, [], r1)" "quiet r1"
    using ReadPhysicalRecord_end by auto
  have "ReadRecord_loop sf False [] 0 r = Some (None, r1)"
    by (rule ReadRecord_steps(5) [OF quiet_resyncing [OF r1(2)] r1(1)])
  then show ?case
    using r1(2) log_nil.prems(2) by (subst read_all.simps) (simp add: ReadRecord_def quiet_def)
next
  case (log_rec off d xs ds ys)
  have rr: "ReadRecord sf r = ReadRecord_loop sf False [] 0 r"
    using log_rec.prems(2) by (simp add: ReadRecord_def quiet_def)
  note c = ReadRecord_cut [OF log_rec.hyps(1) log_rec.prems, of False "[]" 0]
  show ?case
  proof (cases "length (layout off xs) \<le> k")
    case True
    then obtain r1 where r1: "ReadRecord sf r = Some (Some d, r1)" "quiet r1"
      "at_pos r1 (end_off off xs) (take (k - length (layout off xs)) (layout (end_off off xs) ys))"
      using c rr by auto
    obtain j r2 where r2: "read_all sf r1 = Some (take j ds, r2)" "reports r2 = []"
      "length (layout (end_off off xs) ys) \<le> k - length (layout off xs) \<longrightarrow> length ds \<le> j"
      using log_rec.IH [OF r1(3,2)] by blast
    have "read_all sf r = Some (take (Suc j) (d # ds), r2)"
      using r1(1) r2(1) by (subst read_all.simps) simp
    then show ?thesis
      using r2(2,3) True by (intro exI [of _ "Suc j"] exI [of _ r2]) (simp add: layout_append)
  next
    case False
    then obtain r1 where "ReadRecord sf r = Some (None, r1)" "quiet r1"
      using c rr by auto
    then have "read_all sf r = Some (take 0 (d # ds), r1) \<and> reports r1 = []"
      by (subst read_all.simps) (simp add: quiet_def)
    then show ?thesis
      using False by (intro exI [of _ 0] exI [of _ r1]) (simp add: layout_append)
  qed
qed

text \<open>A log whose first records are all there.\<close>

lemma read_all_first:
  assumes "log_layout off ds xs" "log_layout (end_off off xs) es ys" "at_pos r off (take k (layout off (xs @ ys)))"
    "quiet r" "length (layout off xs) \<le> k"
  shows "\<exists>j r'. read_all sf r = Some (ds @ take j es, r') \<and> reports r' = [] \<and>
    (length (layout off (xs @ ys)) \<le> k \<longrightarrow> length es \<le> j)"
  using assms
proof (induction arbitrary: r k rule: log_layout.induct)
  case (log_nil off)
  then show ?case
    using read_all_layout [of off es ys r k] by simp
next
  case (log_rec off d xs ds zs)
  have rr: "ReadRecord sf r = ReadRecord_loop sf False [] 0 r"
    using log_rec.prems(3) by (simp add: ReadRecord_def quiet_def)
  have es: "log_layout (end_off (end_off off xs) zs) es ys"
    using log_rec.prems(1) by (simp only: end_off_append)
  have at: "at_pos r off (take k (layout off (xs @ zs @ ys)))"
    using log_rec.prems(2) by (simp only: append_assoc)
  have k: "length (layout off xs) \<le> k" "length (layout (end_off off xs) zs) \<le> k - length (layout off xs)"
    using log_rec.prems(4) by (simp_all add: layout_append)
  obtain r1 where r1: "ReadRecord sf r = Some (Some d, r1)" "quiet r1"
    "at_pos r1 (end_off off xs) (take (k - length (layout off xs)) (layout (end_off off xs) (zs @ ys)))"
    using ReadRecord_cut [OF log_rec.hyps(1) at log_rec.prems(3), of False "[]" 0] k(1) rr by auto
  obtain j r2 where r2: "read_all sf r1 = Some (ds @ take j es, r2)" "reports r2 = []"
    "length (layout (end_off off xs) (zs @ ys)) \<le> k - length (layout off xs) \<longrightarrow> length es \<le> j"
    using log_rec.IH [OF es r1(3,2) k(2)] by blast
  have "read_all sf r = Some ((d # ds) @ take j es, r2)"
    using r1(1) r2(1) by (subst read_all.simps) simp
  then show ?case
    using r2(2,3) k(1) by (intro exI [of _ j] exI [of _ r2]) (simp add: layout_append)
qed

lemma new_Reader_at:
  assumes "rinv f" "unread f = take k (layout 0 xs)"
  shows "at_pos (new_Reader f check 0) kLogBlockSize (take k (layout kLogBlockSize xs))" "quiet (new_Reader f check 0)"
  using assms by (cases xs; auto simp: at_pos_def new_Reader_def quiet_def trailer_def frag_start_def log_sizes)+

lemma read_back:
  assumes "log_layout 0 ds xs" "log_layout (end_off 0 xs) es ys" "rinv f" "unread f = take k (layout 0 (xs @ ys))"
    "length (layout 0 xs) \<le> k"
  shows "\<exists>j r'. read_all sf (new_Reader f check 0) = Some (ds @ take j es, r') \<and> reports r' = [] \<and>
    (length (layout 0 (xs @ ys)) \<le> k \<longrightarrow> length es \<le> j)"
proof -
  note r = new_Reader_at [OF assms(3,4), of check]
  show ?thesis
  proof (cases "xs = []")
    case True
    then have "ds = []"
      using assms(1) by (auto elim: log_layout.cases cut.cases)
    then show ?thesis
      using read_all_layout [OF log_layout_start, of es ys _ k] True assms(2) r by (simp add: layout_start)
  next
    case False
    have "length (layout kLogBlockSize xs) \<le> k" "log_layout (end_off kLogBlockSize xs) es ys"
      using assms(2,5) by (simp_all add: layout_start end_off_start [OF False])
    from read_all_first [OF log_layout_start [OF assms(1)] this(2) r this(1)] show ?thesis
      by (simp only: layout_start)
  qed
qed

end

end
