(* ===== verification/MemEnv.thy ===== *)
theory MemEnv
  imports Log Comparator
begin

text \<open>
  The in-memory file system (\<^verbatim>\<open>helpers/memenv/memenv.cc\<close>): file states held in blocks
  and counted references, the wrappers that read and write them, and the
  environment that names them.  File states live on a heap, so that two names
  or handles can share one; following a NULL or freed pointer is \<open>None\<close>.  Sizes
  are those of memory and are kept as natural numbers.  The bytes of a new block
  are whatever the allocator leaves there, a parameter \<open>raw\<close>.
\<close>

section \<open>Definitions\<close>

subsection \<open>File states\<close>

definition kMemBlockSize :: nat where "kMemBlockSize = 8 * 1024"

record FileState =
  refs :: int
  blocks :: "bytes list"
  fs_size :: nat

definition new_FileState :: FileState where
  "new_FileState = \<lparr> refs = 0, blocks = [], fs_size = 0 \<rparr>"

definition Size :: "FileState \<Rightarrow> nat" where
  "Size fs = fs_size fs"

text \<open>The copy loop over the blocks from the current one on.\<close>

fun read_blocks :: "nat \<Rightarrow> nat \<Rightarrow> bytes list \<Rightarrow> bytes" where
  "read_blocks bytes_to_copy off [] = []"
| "read_blocks bytes_to_copy off (b # bs) =
     (if bytes_to_copy > 0 then
        let avail = min (kMemBlockSize - off) bytes_to_copy
        in take avail (drop off b) @ read_blocks (bytes_to_copy - avail) 0 bs
      else [])"

definition FileState_Read :: "nat \<Rightarrow> nat \<Rightarrow> FileState \<Rightarrow> Status \<times> bytes" where
  "FileState_Read offset n fs =
     (if offset > fs_size fs then (IOError (lit ''Offset greater than file size.'') [], [])
      else
        let available = fs_size fs - offset;
            n = (if n > available then available else n)
        in
        if n = 0 then (OK, [])
        else
          let block = offset div kMemBlockSize; off = offset mod kMemBlockSize in
          if n \<le> kMemBlockSize - off then
            (OK, (case drop block (blocks fs) of [] \<Rightarrow> [] | b # bs \<Rightarrow> take n (drop off b)))
          else (OK, read_blocks n off (drop block (blocks fs))))"

definition memcpy_at :: "bytes \<Rightarrow> nat \<Rightarrow> bytes \<Rightarrow> bytes" where
  "memcpy_at b off src = take off b @ src @ drop (off + length src) b"

lemma mem_offset_less: "x mod kMemBlockSize < kMemBlockSize"
  by (simp add: kMemBlockSize_def)

function FileState_Append :: "(nat \<Rightarrow> byte) \<Rightarrow> bytes \<Rightarrow> FileState \<Rightarrow> Status \<times> FileState" where
  "FileState_Append raw src fs =
     (if length src > 0 then
        let off = fs_size fs mod kMemBlockSize;
            bs = (if off \<noteq> 0 then blocks fs else blocks fs @ [map raw [0..<kMemBlockSize]]);
            avail = (if off \<noteq> 0 then kMemBlockSize - off else kMemBlockSize);
            avail = (if avail > length src then length src else avail);
            bs = butlast bs @ [memcpy_at (last bs) off (take avail src)]
        in FileState_Append raw (drop avail src) (fs\<lparr>blocks := bs, fs_size := fs_size fs + avail\<rparr>)
      else (OK, fs))"
  by auto

termination
  by (relation "measure (\<lambda>(raw, src, fs). length src)")
    (use mem_offset_less in \<open>auto simp: Let_def kMemBlockSize_def\<close>)

declare FileState_Append.simps [simp del]

text \<open>The bytes a file holds.\<close>

definition contents :: "FileState \<Rightarrow> bytes" where
  "contents fs = take (fs_size fs) (concat (blocks fs))"

definition fs_ok :: "FileState \<Rightarrow> bool" where
  "fs_ok fs \<longleftrightarrow> (\<forall>b\<in>set (blocks fs). length b = kMemBlockSize) \<and>
     length (blocks fs) = (fs_size fs + (kMemBlockSize - 1)) div kMemBlockSize"

subsection \<open>Wrappers\<close>

text \<open>A wrapper reads and writes the state it points to; here it is given that state.\<close>

definition SequentialFile_Read :: "nat \<Rightarrow> FileState \<times> nat \<Rightarrow> Status \<times> bytes \<times> FileState \<times> nat" where
  "SequentialFile_Read n f =
     (case f of (fs, pos) \<Rightarrow>
        let (s, result) = FileState_Read pos n fs
        in (s, result, fs, if ok s then pos + length result else pos))"

definition SequentialFile_Skip :: "uint64 \<Rightarrow> FileState \<times> nat \<Rightarrow> Status \<times> FileState \<times> nat" where
  "SequentialFile_Skip n f =
     (case f of (fs, pos) \<Rightarrow>
        if pos > Size fs then (IOError (lit ''pos_ > file_->Size()'') [], fs, pos)
        else
          let available = Size fs - pos;
              n = (if unat n > available then available else unat n)
          in (OK, fs, pos + n))"

definition RandomAccessFile_Read :: "nat \<Rightarrow> nat \<Rightarrow> FileState \<Rightarrow> Status \<times> bytes" where
  "RandomAccessFile_Read offset n fs = FileState_Read offset n fs"

definition WritableFile_Append :: "(nat \<Rightarrow> byte) \<Rightarrow> bytes \<Rightarrow> FileState \<Rightarrow> Status \<times> FileState" where
  "WritableFile_Append raw data fs = FileState_Append raw data fs"

definition WritableFile_Flush :: "FileState \<Rightarrow> Status \<times> FileState" where
  "WritableFile_Flush fs = (OK, fs)"

definition mem_writable :: "(nat \<Rightarrow> byte) \<Rightarrow> FileState WritableFile" where
  "mem_writable raw = \<lparr> wf_Append = WritableFile_Append raw, wf_Flush = WritableFile_Flush \<rparr>"

definition mem_sequential :: "(FileState \<times> nat) SequentialFile" where
  "mem_sequential = \<lparr> sf_Read = SequentialFile_Read, sf_Skip = SequentialFile_Skip \<rparr>"

section \<open>File states hold byte strings\<close>

lemma concat_blocks:
  "\<forall>b\<in>set bs. length b = kMemBlockSize \<Longrightarrow> length (concat bs) = kMemBlockSize * length bs"
  by (induction bs) auto

lemma block_count:
  "s mod kMemBlockSize = 0 \<Longrightarrow> kMemBlockSize * ((s + (kMemBlockSize - 1)) div kMemBlockSize) = s"
  "s mod kMemBlockSize \<noteq> 0 \<Longrightarrow> (s + (kMemBlockSize - 1)) div kMemBlockSize = Suc (s div kMemBlockSize)"
  "s \<le> kMemBlockSize * ((s + (kMemBlockSize - 1)) div kMemBlockSize)"
proof -
  let ?q = "s div kMemBlockSize" and ?r = "s mod kMemBlockSize"
  have k: "0 < kMemBlockSize" and s: "s = kMemBlockSize * ?q + ?r" and r: "?r < kMemBlockSize"
    by (simp_all add: kMemBlockSize_def)
  have d: "(kMemBlockSize * q + x) div kMemBlockSize = q" if "x < kMemBlockSize" for q x
    using that by simp
  show 1: "kMemBlockSize * ((s + (kMemBlockSize - 1)) div kMemBlockSize) = s" if "?r = 0"
    using d [of "kMemBlockSize - 1" ?q] s that k by simp
  show 2: "(s + (kMemBlockSize - 1)) div kMemBlockSize = Suc ?q" if "?r \<noteq> 0"
  proof -
    have "s + (kMemBlockSize - 1) = kMemBlockSize * Suc ?q + (?r - 1)"
      using s that k unfolding mult_Suc_right by linarith
    then show ?thesis
      using d [of "?r - 1" "Suc ?q"] r by simp
  qed
  show "s \<le> kMemBlockSize * ((s + (kMemBlockSize - 1)) div kMemBlockSize)"
  proof (cases "?r = 0")
    case False
    then show ?thesis
      using s r unfolding 2 [OF False] mult_Suc_right by linarith
  qed (simp only: 1)
qed

lemma fs_ok_room:
  assumes "fs_ok fs"
  shows "fs_size fs \<le> length (concat (blocks fs))"
    and "length (contents fs) = fs_size fs"
    and "fs_size fs mod kMemBlockSize = 0 \<Longrightarrow> contents fs = concat (blocks fs)"
proof -
  have l: "length (concat (blocks fs)) = kMemBlockSize * ((fs_size fs + (kMemBlockSize - 1)) div kMemBlockSize)"
    using assms concat_blocks [of "blocks fs"] by (simp add: fs_ok_def)
  show 1: "fs_size fs \<le> length (concat (blocks fs))"
    unfolding l by (rule block_count)
  show "length (contents fs) = fs_size fs"
    using 1 by (simp add: contents_def)
  show "contents fs = concat (blocks fs)" if "fs_size fs mod kMemBlockSize = 0"
  proof -
    have "length (concat (blocks fs)) = fs_size fs"
      unfolding l using that by (rule block_count)
    then show ?thesis by (simp add: contents_def)
  qed
qed

lemma read_blocks_concat:
  "\<forall>b\<in>set bs. length b = kMemBlockSize \<Longrightarrow> off < kMemBlockSize \<Longrightarrow>
    read_blocks n off bs = take n (drop off (concat bs))"
  by (induction bs arbitrary: n off) (auto simp: Let_def min_def kMemBlockSize_def)

lemma drop_concat:
  "\<forall>b\<in>set bs. length b = kMemBlockSize \<Longrightarrow> drop (k * kMemBlockSize) (concat bs) = concat (drop k bs)"
proof (induction bs arbitrary: k)
  case (Cons b bs)
  then show ?case by (cases k) simp_all
qed simp

lemma FileState_Read_contents:
  assumes "fs_ok fs"
  shows "FileState_Read offset n fs =
    (if offset > fs_size fs then (IOError (lit ''Offset greater than file size.'') [], [])
     else (OK, take n (drop offset (contents fs))))"
proof (cases "offset > fs_size fs")
  case False
  let ?m = "min n (fs_size fs - offset)" and ?k = "offset div kMemBlockSize" and ?o = "offset mod kMemBlockSize"
  let ?bs = "drop ?k (blocks fs)"
  have bs: "\<forall>b\<in>set ?bs. length b = kMemBlockSize" and o: "?o < kMemBlockSize"
    using assms by (auto simp: fs_ok_def mem_offset_less dest: in_set_dropD)
  have "drop offset (concat (blocks fs)) = drop ?o (drop (?k * kMemBlockSize) (concat (blocks fs)))"
    by (simp add: mod_div_mult_eq)
  also have "\<dots> = drop ?o (concat ?bs)"
    using assms drop_concat [of "blocks fs"] by (simp add: fs_ok_def)
  finally have d: "drop offset (concat (blocks fs)) = drop ?o (concat ?bs)" .
  have t: "take n (drop offset (contents fs)) = take ?m (drop ?o (concat ?bs))"
    by (simp add: contents_def drop_take d)
  have one: "(case ?bs of [] \<Rightarrow> [] | b # bs \<Rightarrow> take ?m (drop ?o b)) = take ?m (drop ?o (concat ?bs))"
    if "?m \<le> kMemBlockSize - ?o"
    using that bs o by (cases ?bs) auto
  have m: "(if n > fs_size fs - offset then fs_size fs - offset else n) = ?m"
    by simp
  show ?thesis
    unfolding FileState_Read_def t Let_def m using False one read_blocks_concat [OF bs o, of ?m] by simp
qed (simp add: FileState_Read_def)

text \<open>The block a write goes to.\<close>

definition tail_block :: "(nat \<Rightarrow> byte) \<Rightarrow> FileState \<Rightarrow> bytes list \<times> bytes" where
  "tail_block raw fs =
     (if fs_size fs mod kMemBlockSize \<noteq> 0 then (butlast (blocks fs), last (blocks fs))
      else (blocks fs, map raw [0..<kMemBlockSize]))"

lemma tail_block_ok:
  assumes "fs_ok fs" "tail_block raw fs = (init, l)"
  shows "\<forall>b\<in>set init. length b = kMemBlockSize" "length l = kMemBlockSize"
    "fs_size fs = kMemBlockSize * length init + fs_size fs mod kMemBlockSize"
    "contents fs = concat init @ take (fs_size fs mod kMemBlockSize) l"
proof -
  let ?o = "fs_size fs mod kMemBlockSize"
  have all: "\<forall>b\<in>set (blocks fs). length b = kMemBlockSize"
    and len: "length (blocks fs) = (fs_size fs + (kMemBlockSize - 1)) div kMemBlockSize"
    using assms(1) by (simp_all add: fs_ok_def)
  have "(\<forall>b\<in>set init. length b = kMemBlockSize) \<and> length l = kMemBlockSize \<and>
      fs_size fs = kMemBlockSize * length init + ?o \<and> contents fs = concat init @ take ?o l"
  proof (cases "?o = 0")
    case True
    then have "fs_size fs = kMemBlockSize * length (blocks fs)"
      unfolding len by (rule block_count(1) [symmetric])
    then show ?thesis
      using True assms all fs_ok_room(3) [OF assms(1)] by (auto simp: tail_block_def)
  next
    case False
    then have "Suc (fs_size fs div kMemBlockSize) = length (blocks fs)"
      unfolding len by (rule block_count(2) [symmetric])
    then obtain i b where b: "blocks fs = i @ [b]" and i: "length i = fs_size fs div kMemBlockSize"
      by (metis append_butlast_last_id length_append_singleton list.size(3) nat.distinct(1) nat.inject)
    have c: "length (concat i) = kMemBlockSize * length i"
      using all b by (intro concat_blocks) simp
    have s: "fs_size fs = kMemBlockSize * length i + ?o"
      using i by simp
    then have "contents fs = concat i @ take ?o b"
      using c by (simp add: contents_def b) (metis add_diff_cancel_left')
    then show ?thesis
      using False assms(2) all b s by (auto simp: tail_block_def)
  qed
  then show "\<forall>b\<in>set init. length b = kMemBlockSize" "length l = kMemBlockSize"
    "fs_size fs = kMemBlockSize * length init + ?o" "contents fs = concat init @ take ?o l"
    by blast+
qed

lemma append_block:
  assumes fs: "fs_ok fs" "tail_block raw fs = (init, l)" and d: "d \<noteq> []"
    "fs_size fs mod kMemBlockSize + length d \<le> kMemBlockSize"
  defines "fs1 \<equiv> fs\<lparr>blocks := init @ [memcpy_at l (fs_size fs mod kMemBlockSize) d], fs_size := fs_size fs + length d\<rparr>"
  shows "fs_ok fs1 \<and> contents fs1 = contents fs @ d"
proof -
  let ?o = "fs_size fs mod kMemBlockSize"
  note t = tail_block_ok [OF fs]
  have i: "length (concat init) = kMemBlockSize * length init"
    using t(1) by (rule concat_blocks)
  have m: "length (memcpy_at l ?o d) = kMemBlockSize" "take (?o + length d) (memcpy_at l ?o d) = take ?o l @ d"
    using t(2) d(2) by (auto simp: memcpy_at_def)
  have "contents fs1 = concat init @ take (fs_size fs + length d - kMemBlockSize * length init) (memcpy_at l ?o d)"
    using i t(3) by (simp add: contents_def fs1_def)
  also have "fs_size fs + length d - kMemBlockSize * length init = ?o + length d"
    using t(3) by linarith
  finally have "contents fs1 = contents fs @ d"
    by (simp add: m t(4))
  moreover have "Suc (length init) = (fs_size fs + length d + (kMemBlockSize - 1)) div kMemBlockSize"
  proof -
    have "0 < length d" using d(1) by simp
    then have "fs_size fs + length d + (kMemBlockSize - 1) = (?o + length d - 1) + kMemBlockSize * Suc (length init)"
      using t(3) mem_offset_less [of "fs_size fs"] unfolding mult_Suc_right by linarith
    moreover have "(?o + length d - 1) div kMemBlockSize = 0"
      using d(2) \<open>0 < length d\<close> by (intro div_less) linarith
    ultimately show ?thesis
      using mem_offset_less [of "fs_size fs"] by (simp only: div_mult_self2)
  qed
  ultimately show ?thesis
    using t(1) m(1) by (simp add: fs_ok_def fs1_def)
qed

lemma FileState_Append_contents:
  "fs_ok fs \<Longrightarrow> FileState_Append raw src fs = (s, fs') \<Longrightarrow>
    ok s \<and> fs_ok fs' \<and> contents fs' = contents fs @ src \<and> refs fs' = refs fs"
proof (induction "length src" arbitrary: src fs rule: less_induct)
  case less
  let ?o = "fs_size fs mod kMemBlockSize"
  show ?case
  proof (cases "src = []")
    case True
    then show ?thesis
      using less.prems FileState_Append.simps [of raw src fs] by (auto simp: ok_def)
  next
    case False
    obtain init l where tb: "tail_block raw fs = (init, l)" by fastforce
    let ?a = "min (kMemBlockSize - ?o) (length src)"
    let ?fs = "fs\<lparr>blocks := init @ [memcpy_at l ?o (take ?a src)], fs_size := fs_size fs + ?a\<rparr>"
    have o: "?o < kMemBlockSize" by (rule mem_offset_less)
    have step: "FileState_Append raw src fs = FileState_Append raw (drop ?a src) ?fs"
      using False tb o unfolding FileState_Append.simps [of raw src fs]
      by (cases "?o = 0") (simp_all add: tail_block_def min_def Let_def)
    have "fs_ok ?fs \<and> contents ?fs = contents fs @ take ?a src"
      using append_block [OF less.prems(1) tb, of "take ?a src"] False o by (simp add: min_absorb2)
    then show ?thesis
      using less.hyps [of "drop ?a src" ?fs] less.prems(2) False o unfolding step by auto
  qed
qed

section \<open>Logs in memory files\<close>

definition seq_ok :: "FileState \<times> nat \<Rightarrow> bool" where
  "seq_ok f \<longleftrightarrow> fs_ok (fst f) \<and> snd f \<le> fs_size (fst f)"

definition seq_rest :: "FileState \<times> nat \<Rightarrow> bytes" where
  "seq_rest f = drop (snd f) (contents (fst f))"

lemma new_FileState_ok [simp]: "fs_ok new_FileState" "contents new_FileState = []" "fs_size new_FileState = 0"
  by (simp_all add: fs_ok_def new_FileState_def contents_def kMemBlockSize_def)

interpretation mem_sink: log_sink "mem_writable raw" fs_ok contents for raw
proof
  show "ok s \<and> fs_ok f' \<and> contents f' = contents f @ d" if "fs_ok f" "wf_Append (mem_writable raw) d f = (s, f')" for f d s f'
    using that FileState_Append_contents [of f raw d s f'] by (simp add: mem_writable_def WritableFile_Append_def)
  show "ok s \<and> fs_ok f' \<and> contents f' = contents f" if "fs_ok f" "wf_Flush (mem_writable raw) f = (s, f')" for f s f'
    using that by (auto simp: mem_writable_def WritableFile_Flush_def ok_def)
qed

interpretation mem_source: log_source mem_sequential seq_ok seq_rest
proof
  fix f n s d f'
  assume ok: "seq_ok f" and r: "sf_Read mem_sequential n f = (s, d, f')"
  obtain fs pos where f: "f = (fs, pos)" by fastforce
  have "fs_ok fs" "pos \<le> fs_size fs"
    using ok f by (simp_all add: seq_ok_def)
  note rd = FileState_Read_contents [OF this(1), of pos n] fs_ok_room(2) [OF this(1)]
  have "s = OK \<and> d = take n (drop pos (contents fs)) \<and> f' = (fs, pos + length d)"
    using r f rd \<open>pos \<le> fs_size fs\<close> by (auto simp: mem_sequential_def SequentialFile_Read_def ok_def)
  moreover have "pos + length d \<le> fs_size fs"
    using calculation rd(2) \<open>pos \<le> fs_size fs\<close> by simp
  moreover have "drop (pos + length d) (contents fs) = drop n (drop pos (contents fs))"
    using calculation(1) by (auto simp: min_def add.commute)
  ultimately show "ok s \<and> d = take n (seq_rest f) \<and> seq_ok f' \<and> seq_rest f' = drop n (seq_rest f)"
    using \<open>fs_ok fs\<close> f by (simp add: seq_ok_def seq_rest_def ok_def)
qed

lemma new_Writer_ok: "mem_sink.wstate (new_Writer new_FileState)"
  by (simp add: mem_sink.wstate_def new_Writer_def)

text \<open>The file that holds a given byte string.\<close>

definition file_of :: "(nat \<Rightarrow> byte) \<Rightarrow> bytes \<Rightarrow> FileState" where
  "file_of raw d = snd (FileState_Append raw d new_FileState)"

lemma file_of_ok: "fs_ok (file_of raw d)" "contents (file_of raw d) = d"
  using FileState_Append_contents [of new_FileState raw d "fst (FileState_Append raw d new_FileState)" "file_of raw d"]
  by (simp_all add: file_of_def)

lemma log_read_back:
  assumes w: "AddRecords (mem_writable raw) ds (new_Writer new_FileState) = (s, w)"
    "AddRecords (mem_writable raw) es w = (s', w')"
  shows "ok s" "ok s'" "fs_ok (dest w')"
    and "fs_ok f \<Longrightarrow> contents f = take k (contents (dest w')) \<Longrightarrow> length (contents (dest w)) \<le> k \<Longrightarrow>
      \<exists>j r. read_all mem_sequential (new_Reader (f, 0) check 0) = Some (ds @ take j es, r) \<and> reports r = [] \<and>
        (length (contents (dest w')) \<le> k \<longrightarrow> length es \<le> j)"
proof -
  obtain xs where xs: "ok s" "log_layout 0 ds xs" "contents (dest w) = layout 0 xs" "mem_sink.wstate w"
      "block_offset w = end_off 0 xs"
    using mem_sink.AddRecords_cuts [OF new_Writer_ok w(1)] by (auto simp: new_Writer_def)
  obtain ys where ys: "ok s'" "log_layout (end_off 0 xs) es ys" "contents (dest w') = layout 0 (xs @ ys)" "mem_sink.wstate w'"
    using mem_sink.AddRecords_cuts [OF xs(4) w(2)] xs(3,5) by (auto simp: layout_append)
  show "ok s" "ok s'" "fs_ok (dest w')"
    using xs(1) ys(1,4) by (simp_all add: mem_sink.wstate_def)
  assume f: "fs_ok f" "contents f = take k (contents (dest w'))" and k: "length (contents (dest w)) \<le> k"
  then have "seq_ok (f, 0)" "seq_rest (f, 0) = take k (layout 0 (xs @ ys))"
    by (simp_all add: seq_ok_def seq_rest_def ys(3))
  from mem_source.read_back [OF xs(2) ys(2) this, of check] k xs(3) ys(3)
  show "\<exists>j r. read_all mem_sequential (new_Reader (f, 0) check 0) = Some (ds @ take j es, r) \<and> reports r = [] \<and>
        (length (contents (dest w')) \<le> k \<longrightarrow> length es \<le> j)"
    by simp
qed

text \<open>(C7) A log written to a memory file and read back gives the records that were
  written, in order and with no report, whatever their number and length.\<close>

theorem log_roundtrip:
  "case AddRecords (mem_writable raw) ds (new_Writer new_FileState) of (s, w) \<Rightarrow>
     ok s \<and> (\<exists>r. read_all mem_sequential (new_Reader (dest w, 0) True 0) = Some (ds, r) \<and> reports r = [])"
proof (cases "AddRecords (mem_writable raw) ds (new_Writer new_FileState)")
  case (Pair s w)
  have "AddRecords (mem_writable raw) [] w = (OK, w)" by simp
  note rb = log_read_back [OF Pair this]
  show ?thesis
    using rb(1) rb(4) [of "dest w" "length (contents (dest w))" True] rb(3) Pair by auto
qed

text \<open>(C2) A crash in the middle of a write loses the end of the log and nothing else.
  Of a log of which the records \<open>ds\<close> were written and then only \<open>m\<close> of the bytes that
  hold \<open>es\<close>, the reader returns all of \<open>ds\<close> and a prefix of \<open>es\<close>, and it reports no
  corruption.\<close>

theorem log_crash_prefix:
  "case AddRecords (mem_writable raw) ds (new_Writer new_FileState) of (s, w) \<Rightarrow>
     (case AddRecords (mem_writable raw) es w of (s', w') \<Rightarrow>
        let f = file_of raw' (take (length (contents (dest w)) + m) (contents (dest w')))
        in \<exists>j r. read_all mem_sequential (new_Reader (f, 0) True 0) = Some (ds @ take j es, r) \<and> reports r = [])"
proof (cases "AddRecords (mem_writable raw) ds (new_Writer new_FileState)")
  case w: (Pair s w)
  show ?thesis
  proof (cases "AddRecords (mem_writable raw) es w")
    case (Pair s' w')
    show ?thesis
      using log_read_back(4) [OF w Pair, of "file_of raw' (take (length (contents (dest w)) + m) (contents (dest w')))"
          "length (contents (dest w)) + m" True]
      by (simp only: file_of_ok w Pair prod.case Let_def) auto
  qed
qed

text \<open>(C28) A memory file holds the bytes that were appended to it: the blocks and
  the copying loops are a byte string, and a read at any offset gives that part of it.\<close>

theorem memory_file_refines_bytes:
  assumes "fs_ok fs" "offset \<le> length (contents fs) + length d"
  shows "case FileState_Append raw d fs of (s, fs') \<Rightarrow>
    ok s \<and> fs_ok fs' \<and> Size fs' = length (contents fs) + length d \<and>
    FileState_Read offset n fs' = (OK, take n (drop offset (contents fs @ d)))"
proof (cases "FileState_Append raw d fs")
  case (Pair s fs')
  note a = FileState_Append_contents [OF assms(1) Pair]
  then have "fs_size fs' = length (contents fs) + length d"
    using fs_ok_room(2) [of fs'] by simp
  then show ?thesis
    using a Pair assms(2) FileState_Read_contents [of fs' offset n] by (simp add: Size_def)
qed

theorem memory_file_refines_bytes_witness:
  "case FileState_Append (\<lambda>i. 0) [1, 2, 3] new_FileState of (s, fs') \<Rightarrow> FileState_Read 1 5 fs' = (OK, [2, 3])"
  using memory_file_refines_bytes [of new_FileState 1 "[1, 2, 3]" 5 "\<lambda>i. 0"] by (auto split: prod.splits)

end
