(* ===== verification/MemFiles.thy ===== *)
theory MemFiles
  imports MemEnv "HOL-Library.Multiset"
begin

text \<open>
  The names of the in-memory file system (class \<^verbatim>\<open>InMemoryEnv\<close> of
  \<^verbatim>\<open>helpers/memenv/memenv.cc\<close>).  File states are on a heap; the map from names to file
  states is kept in key order, as \<^verbatim>\<open>std::map\<close> does; \<open>handles\<close> are the file states that the
  wrappers in use point to.  Each operation that a client can call is one value of
  \<open>env_op\<close>, and the states that sequences of them reach keep the reference counts right.
\<close>

section \<open>Definitions\<close>

type_synonym file_ptr = int

record InMemoryEnv =
  heap :: "file_ptr \<Rightarrow> FileState option"
  file_map :: "(bytes \<times> file_ptr) list"
  next_file :: file_ptr
  handles :: "file_ptr list"

definition new_InMemoryEnv :: InMemoryEnv where
  "new_InMemoryEnv = \<lparr> heap = (\<lambda>p. None), file_map = [], next_file = 1, handles = [] \<rparr>"

fun map_put :: "bytes \<Rightarrow> file_ptr \<Rightarrow> (bytes \<times> file_ptr) list \<Rightarrow> (bytes \<times> file_ptr) list" where
  "map_put k v [] = [(k, v)]"
| "map_put k v ((k', v') # m) =
     (if slice_compare k k' < 0 then (k, v) # (k', v') # m
      else if k = k' then (k, v) # m
      else (k', v') # map_put k v m)"

definition map_erase :: "bytes \<Rightarrow> (bytes \<times> file_ptr) list \<Rightarrow> (bytes \<times> file_ptr) list" where
  "map_erase k m = filter (\<lambda>(k', v). k' \<noteq> k) m"

definition Ref :: "file_ptr \<Rightarrow> InMemoryEnv \<Rightarrow> InMemoryEnv option" where
  "Ref p env =
     (case heap env p of None \<Rightarrow> None
      | Some fs \<Rightarrow> Some (env\<lparr>heap := (heap env)(p \<mapsto> fs\<lparr>refs := refs fs + 1\<rparr>)\<rparr>))"

definition Unref :: "file_ptr \<Rightarrow> InMemoryEnv \<Rightarrow> InMemoryEnv option" where
  "Unref p env =
     (case heap env p of None \<Rightarrow> None
      | Some fs \<Rightarrow>
          let fs = fs\<lparr>refs := refs fs - 1\<rparr>
          in Some (env\<lparr>heap := (heap env)(p := if refs fs \<le> 0 then None else Some fs)\<rparr>))"

text \<open>A wrapper holds a reference from its constructor to its destructor.\<close>

definition new_wrapper :: "file_ptr \<Rightarrow> InMemoryEnv \<Rightarrow> InMemoryEnv option" where
  "new_wrapper p env = do { env \<leftarrow> Ref p env; Some (env\<lparr>handles := p # handles env\<rparr>) }"

definition delete_wrapper :: "file_ptr \<Rightarrow> InMemoryEnv \<Rightarrow> InMemoryEnv option" where
  "delete_wrapper p env = do { env \<leftarrow> Unref p env; Some (env\<lparr>handles := remove1 p (handles env)\<rparr>) }"

definition NewSequentialFile :: "bytes \<Rightarrow> InMemoryEnv \<Rightarrow> (Status \<times> InMemoryEnv) option" where
  "NewSequentialFile fname env =
     (case map_of (file_map env) fname of
        None \<Rightarrow> Some (IOError fname (lit ''File not found''), env)
      | Some p \<Rightarrow> do { env \<leftarrow> new_wrapper p env; Some (OK, env) })"

definition NewRandomAccessFile :: "bytes \<Rightarrow> InMemoryEnv \<Rightarrow> (Status \<times> InMemoryEnv) option" where
  "NewRandomAccessFile fname env =
     (case map_of (file_map env) fname of
        None \<Rightarrow> Some (IOError fname (lit ''File not found''), env)
      | Some p \<Rightarrow> do { env \<leftarrow> new_wrapper p env; Some (OK, env) })"

definition DeleteFileInternal :: "bytes \<Rightarrow> InMemoryEnv \<Rightarrow> InMemoryEnv option" where
  "DeleteFileInternal fname env =
     (case map_of (file_map env) fname of
        None \<Rightarrow> Some env
      | Some p \<Rightarrow> do { env \<leftarrow> Unref p env; Some (env\<lparr>file_map := map_erase fname (file_map env)\<rparr>) })"

definition alloc_FileState :: "InMemoryEnv \<Rightarrow> file_ptr \<times> InMemoryEnv" where
  "alloc_FileState env =
     (next_file env,
      env\<lparr>heap := (heap env)(next_file env \<mapsto> new_FileState), next_file := next_file env + 1\<rparr>)"

definition NewWritableFile :: "bytes \<Rightarrow> InMemoryEnv \<Rightarrow> (Status \<times> InMemoryEnv) option" where
  "NewWritableFile fname env =
     do {
       env \<leftarrow> (if map_of (file_map env) fname \<noteq> None then DeleteFileInternal fname env else Some env);
       let (p, env) = alloc_FileState env;
       env \<leftarrow> Ref p env;
       let env = env\<lparr>file_map := map_put fname p (file_map env)\<rparr>;
       env \<leftarrow> new_wrapper p env;
       Some (OK, env)
     }"

text \<open>\<^verbatim>\<open>file_map_[fname]\<close> adds a NULL entry for a new name, and the file state made for it is
  not stored there.\<close>

definition NewAppendableFile :: "bytes \<Rightarrow> InMemoryEnv \<Rightarrow> (Status \<times> InMemoryEnv) option" where
  "NewAppendableFile fname env =
     do {
       let env = (if map_of (file_map env) fname = None
                  then env\<lparr>file_map := map_put fname 0 (file_map env)\<rparr> else env);
       let file = the (map_of (file_map env) fname);
       (file, env) \<leftarrow> (if file = 0 then
                        let (p, env) = alloc_FileState env in do { env \<leftarrow> Ref p env; Some (p, env) }
                      else Some (file, env));
       env \<leftarrow> new_wrapper file env;
       Some (OK, env)
     }"

definition FileExists :: "bytes \<Rightarrow> InMemoryEnv \<Rightarrow> bool" where
  "FileExists fname env \<longleftrightarrow> map_of (file_map env) fname \<noteq> None"

definition GetChildren :: "bytes \<Rightarrow> InMemoryEnv \<Rightarrow> Status \<times> bytes list" where
  "GetChildren dir env =
     (OK, map (\<lambda>(filename, p). drop (length dir + 1) filename)
            (filter (\<lambda>(filename, p). length filename \<ge> length dir + 1 \<and> filename ! length dir = 47 \<and>
                        starts_with filename dir) (file_map env)))"

definition DeleteFile :: "bytes \<Rightarrow> InMemoryEnv \<Rightarrow> (Status \<times> InMemoryEnv) option" where
  "DeleteFile fname env =
     (if map_of (file_map env) fname = None then Some (IOError fname (lit ''File not found''), env)
      else do { env \<leftarrow> DeleteFileInternal fname env; Some (OK, env) })"

definition GetFileSize :: "bytes \<Rightarrow> InMemoryEnv \<Rightarrow> (Status \<times> nat option) option" where
  "GetFileSize fname env =
     (case map_of (file_map env) fname of
        None \<Rightarrow> Some (IOError fname (lit ''File not found''), None)
      | Some p \<Rightarrow> do { fs \<leftarrow> heap env p; Some (OK, Some (Size fs)) })"

definition RenameFile :: "bytes \<Rightarrow> bytes \<Rightarrow> InMemoryEnv \<Rightarrow> (Status \<times> InMemoryEnv) option" where
  "RenameFile source target env =
     (if map_of (file_map env) source = None then Some (IOError source (lit ''File not found''), env)
      else
        do {
          env \<leftarrow> DeleteFileInternal target env;
          let p = (case map_of (file_map env) source of None \<Rightarrow> 0 | Some p \<Rightarrow> p);
          Some (OK, env\<lparr>file_map := map_erase source (map_put target p (file_map env))\<rparr>)
        })"

fun unref_all :: "(bytes \<times> file_ptr) list \<Rightarrow> InMemoryEnv \<Rightarrow> InMemoryEnv option" where
  "unref_all [] env = Some env"
| "unref_all ((k, p) # m) env = do { env \<leftarrow> Unref p env; unref_all m env }"

definition delete_InMemoryEnv :: "InMemoryEnv \<Rightarrow> InMemoryEnv option" where
  "delete_InMemoryEnv env = unref_all (file_map env) env"

text \<open>Reading and appending through a wrapper.\<close>

definition handle_append :: "(nat \<Rightarrow> byte) \<Rightarrow> file_ptr \<Rightarrow> bytes \<Rightarrow> InMemoryEnv \<Rightarrow> (Status \<times> InMemoryEnv) option" where
  "handle_append raw p data env =
     do {
       fs \<leftarrow> heap env p;
       let (s, fs) = WritableFile_Append raw data fs;
       Some (s, env\<lparr>heap := (heap env)(p \<mapsto> fs)\<rparr>)
     }"

datatype env_op =
    OpenSequential bytes
  | OpenRandomAccess bytes
  | OpenWritable bytes
  | OpenAppendable bytes
  | Remove bytes
  | Rename bytes bytes
  | Close file_ptr
  | Append file_ptr bytes

fun exec :: "(nat \<Rightarrow> byte) \<Rightarrow> env_op \<Rightarrow> InMemoryEnv \<Rightarrow> InMemoryEnv option" where
  "exec raw (OpenSequential f) env = map_option snd (NewSequentialFile f env)"
| "exec raw (OpenRandomAccess f) env = map_option snd (NewRandomAccessFile f env)"
| "exec raw (OpenWritable f) env = map_option snd (NewWritableFile f env)"
| "exec raw (OpenAppendable f) env = map_option snd (NewAppendableFile f env)"
| "exec raw (Remove f) env = map_option snd (DeleteFile f env)"
| "exec raw (Rename f g) env = map_option snd (RenameFile f g env)"
| "exec raw (Close p) env = delete_wrapper p env"
| "exec raw (Append p d) env = map_option snd (handle_append raw p d env)"

text \<open>The calls that keep the file system sound: a file is opened for appending only when
  it is there, it is not renamed to itself, and a wrapper is used while it is in use.\<close>

fun allowed :: "env_op \<Rightarrow> InMemoryEnv \<Rightarrow> bool" where
  "allowed (OpenAppendable f) env = FileExists f env"
| "allowed (Rename f g) env = (f \<noteq> g)"
| "allowed (Close p) env = (p \<in> set (handles env))"
| "allowed (Append p d) env = (p \<in> set (handles env))"
| "allowed _ env = True"

inductive reach :: "(nat \<Rightarrow> byte) \<Rightarrow> InMemoryEnv \<Rightarrow> bool" for raw where
  reach_new: "reach raw new_InMemoryEnv"
| reach_step: "reach raw env \<Longrightarrow> allowed a env \<Longrightarrow> exec raw a env = Some env' \<Longrightarrow> reach raw env'"

text \<open>The pointers to a file state, and the invariant.\<close>

definition links :: "file_ptr \<Rightarrow> InMemoryEnv \<Rightarrow> nat" where
  "links p env = count_list (map snd (file_map env)) p + count_list (handles env) p"

definition refs_are :: "nat \<Rightarrow> FileState option \<Rightarrow> bool" where
  "refs_are k v \<longleftrightarrow> (case v of None \<Rightarrow> k = 0 | Some fs \<Rightarrow> refs fs = int k \<and> 0 < k \<and> fs_ok fs)"

definition counted :: "(file_ptr \<Rightarrow> FileState option) \<Rightarrow> (file_ptr \<Rightarrow> nat) \<Rightarrow> bool" where
  "counted h n \<longleftrightarrow> (\<forall>p. refs_are (n p) (h p))"

definition env_ok :: "InMemoryEnv \<Rightarrow> bool" where
  "env_ok env \<longleftrightarrow> counted (heap env) (\<lambda>p. links p env) \<and> distinct (map fst (file_map env)) \<and>
     0 < next_file env \<and> heap env 0 = None \<and> (\<forall>p \<ge> next_file env. heap env p = None)"

section \<open>The reference counts\<close>

lemma counted_live: "counted h n \<Longrightarrow> 0 < n p \<Longrightarrow> \<exists>fs. h p = Some fs \<and> refs fs = int (n p) \<and> fs_ok fs"
  unfolding counted_def refs_are_def by (erule allE [of _ p]) (auto split: option.splits)

lemma links_pos:
  "map_of (file_map env) f = Some p \<Longrightarrow> 0 < links p env"
  "p \<in> set (handles env) \<Longrightarrow> 0 < links p env"
  by (auto simp: links_def zero_less_iff_neq_zero count_list_0_iff dest!: map_of_SomeD) force

lemma counted_upd:
  "counted h n \<Longrightarrow> refs_are k v \<Longrightarrow> counted (h(p := v)) (n(p := k))"
  by (simp add: counted_def)

lemma fs_ok_refs [simp]: "fs_ok (fs\<lparr>refs := r\<rparr>) = fs_ok fs"
  by (simp add: fs_ok_def)

lemma counted_Ref:
  assumes "counted (heap env) n" "0 < n p"
  obtains h where "Ref p env = Some (env\<lparr>heap := h\<rparr>)" "counted h (n(p := n p + 1))"
    "\<forall>q. heap env q = None \<longrightarrow> h q = None"
proof -
  obtain fs where fs: "heap env p = Some fs" "refs fs = int (n p)" "fs_ok fs"
    using counted_live [OF assms] by blast
  show thesis
    by (rule that [of "(heap env)(p \<mapsto> fs\<lparr>refs := refs fs + 1\<rparr>)"])
      (use fs in \<open>auto simp: Ref_def refs_are_def intro!: counted_upd [OF assms(1)]\<close>)
qed

lemma counted_Unref:
  assumes "counted (heap env) n" "0 < n p"
  obtains h where "Unref p env = Some (env\<lparr>heap := h\<rparr>)" "counted h (n(p := n p - 1))"
    "\<forall>q. heap env q = None \<longrightarrow> h q = None"
proof -
  obtain fs where fs: "heap env p = Some fs" "refs fs = int (n p)" "fs_ok fs"
    using counted_live [OF assms] by blast
  show thesis
    by (rule that [of "(heap env)(p := if refs fs - 1 \<le> 0 then None else Some (fs\<lparr>refs := refs fs - 1\<rparr>))"])
      (use fs assms(2) in \<open>auto simp: Unref_def Let_def refs_are_def intro!: counted_upd [OF assms(1)]\<close>)
qed

lemma map_put_new:
  "f \<notin> fst ` set m \<Longrightarrow> mset (map_put f p m) = add_mset (f, p) (mset m)"
  by (induction f p m rule: map_put.induct) auto

lemma map_erase_mset:
  "distinct (map fst m) \<Longrightarrow> map_of m f = Some p \<Longrightarrow> mset m = add_mset (f, p) (mset (map_erase f m))"
proof (induction m)
  case (Cons x m)
  show ?case
  proof (cases "fst x = f")
    case True
    then have "map_erase f m = m"
      using Cons.prems(1) by (force simp: map_erase_def filter_id_conv image_iff)
    then show ?thesis
      using True Cons.prems(2) by (cases x) (simp add: map_erase_def)
  next
    case False
    then show ?thesis
      using Cons by (cases x) (simp add: map_erase_def)
  qed
qed simp

lemma map_erase_keys: "fst ` set (map_erase f m) = fst ` set m - {f}" "distinct (map fst m) \<Longrightarrow> distinct (map fst (map_erase f m))"
  by (auto simp: map_erase_def distinct_map_filter)

lemma count_values:
  "mset m' = add_mset (f, p) (mset m) \<Longrightarrow> count_list (map snd m') q = count_list (map snd m) q + (if q = p then 1 else 0)"
proof -
  assume "mset m' = add_mset (f, p) (mset m)"
  then have "mset (map snd m') = add_mset p (mset (map snd m))"
    by simp
  then have "count (mset (map snd m')) q = count (mset (map snd m)) q + (if q = p then 1 else 0)"
    by (simp only: count_add_mset) simp
  then show ?thesis
    by (simp only: count_mset)
qed

lemma map_put_keys:
  "f \<notin> fst ` set m \<Longrightarrow> fst ` set (map_put f p m) = insert f (fst ` set m)"
  "f \<notin> fst ` set m \<Longrightarrow> distinct (map fst m) \<Longrightarrow> distinct (map fst (map_put f p m))"
  by (induction f p m rule: map_put.induct) auto

lemma map_of_absent: "map_of m f = None \<longleftrightarrow> f \<notin> fst ` set m"
  by (simp add: map_of_eq_None_iff)

lemma map_of_put: "f \<noteq> g \<Longrightarrow> map_of (map_put g p m) f = map_of m f"
  by (induction g p m rule: map_put.induct) auto

lemma map_of_erase: "f \<noteq> g \<Longrightarrow> map_of (map_erase g m) f = map_of m f"
  by (induction m) (auto simp: map_erase_def)

lemma env_okI:
  assumes "counted h n" "heap env = h" "\<And>p. n p = links p env" "distinct (map fst (file_map env))"
    "0 < next_file env" "heap env 0 = None" "\<forall>p \<ge> next_file env. heap env p = None"
  shows "env_ok env"
proof -
  have "n = (\<lambda>p. links p env)"
    using assms(3) by blast
  then show ?thesis
    using assms by (simp add: env_ok_def)
qed

lemma new_wrapper_ok:
  assumes "env_ok env" "0 < links p env"
  shows "\<exists>h. new_wrapper p env = Some (env\<lparr>heap := h, handles := p # handles env\<rparr>) \<and>
    env_ok (env\<lparr>heap := h, handles := p # handles env\<rparr>)"
proof -
  have c: "counted (heap env) (\<lambda>p. links p env)"
    using assms(1) by (simp add: env_ok_def)
  obtain h where h: "Ref p env = Some (env\<lparr>heap := h\<rparr>)"
      "counted h ((\<lambda>p. links p env)(p := links p env + 1))" "\<forall>q. heap env q = None \<longrightarrow> h q = None"
    using counted_Ref [OF c assms(2)] by metis
  have "env_ok (env\<lparr>heap := h, handles := p # handles env\<rparr>)"
    by (rule env_okI [OF h(2)]) (use h(3) assms(1) in \<open>auto simp: env_ok_def links_def\<close>)
  then show ?thesis
    using h(1) by (intro exI [of _ h]) (simp add: new_wrapper_def)
qed

lemma delete_wrapper_ok:
  assumes "env_ok env" "p \<in> set (handles env)"
  shows "\<exists>env'. delete_wrapper p env = Some env' \<and> env_ok env'"
proof -
  have c: "counted (heap env) (\<lambda>p. links p env)"
    using assms(1) by (simp add: env_ok_def)
  obtain h where h: "Unref p env = Some (env\<lparr>heap := h\<rparr>)"
      "counted h ((\<lambda>p. links p env)(p := links p env - 1))" "\<forall>q. heap env q = None \<longrightarrow> h q = None"
    using counted_Unref [OF c links_pos(2) [OF assms(2)]] by metis
  have "0 < count_list (handles env) p"
    using assms(2) by (simp add: zero_less_iff_neq_zero count_list_0_iff)
  then have "env_ok (env\<lparr>heap := h, handles := remove1 p (handles env)\<rparr>)"
    by (intro env_okI [OF h(2)]) (use h(3) assms in \<open>auto simp: env_ok_def links_def count_list_remove1\<close>)
  then show ?thesis
    using h(1) by (simp add: delete_wrapper_def)
qed

lemma DeleteFileInternal_ok:
  assumes "env_ok env"
  shows "\<exists>h. DeleteFileInternal f env = Some (env\<lparr>heap := h, file_map := map_erase f (file_map env)\<rparr>) \<and>
    env_ok (env\<lparr>heap := h, file_map := map_erase f (file_map env)\<rparr>)"
proof (cases "map_of (file_map env) f")
  case None
  then have "map_erase f (file_map env) = file_map env"
    by (force simp: map_erase_def filter_id_conv map_of_absent)
  then show ?thesis
    using None assms by (intro exI [of _ "heap env"]) (simp add: DeleteFileInternal_def)
next
  case (Some p)
  have c: "counted (heap env) (\<lambda>p. links p env)" and d: "distinct (map fst (file_map env))"
    using assms(1) by (simp_all add: env_ok_def)
  obtain h where h: "Unref p env = Some (env\<lparr>heap := h\<rparr>)"
      "counted h ((\<lambda>p. links p env)(p := links p env - 1))" "\<forall>q. heap env q = None \<longrightarrow> h q = None"
    using counted_Unref [OF c links_pos(1) [OF Some]] by metis
  have "env_ok (env\<lparr>heap := h, file_map := map_erase f (file_map env)\<rparr>)"
    by (rule env_okI [OF h(2)])
      (use h(3) assms count_values [OF map_erase_mset [OF d Some]] in \<open>auto simp: env_ok_def links_def map_erase_keys\<close>)
  then show ?thesis
    using h(1) Some by (intro exI [of _ h]) (simp add: DeleteFileInternal_def)
qed

lemma create_ok:
  assumes "env_ok env" "f \<notin> fst ` set (file_map env)"
  shows "env_ok (env\<lparr>heap := (heap env)(next_file env \<mapsto> new_FileState\<lparr>refs := 1\<rparr>), next_file := next_file env + 1,
    file_map := map_put f (next_file env) (file_map env)\<rparr>)" (is "env_ok ?e")
proof -
  let ?p = "next_file env"
  have c: "counted (heap env) (\<lambda>p. links p env)" and n: "heap env ?p = None"
    using assms(1) by (simp_all add: env_ok_def)
  have z: "links ?p env = 0"
    using c n by (auto simp: counted_def refs_are_def dest!: spec [of _ ?p])
  have r: "refs_are 1 (Some (new_FileState\<lparr>refs := 1\<rparr>))"
    by (simp add: refs_are_def)
  show ?thesis
  proof (rule env_okI [OF counted_upd [OF c r]])
    show "((\<lambda>p. links p env)(?p := 1)) q = links q ?e" for q
      using z count_values [of "map_put f ?p (file_map env)" f ?p "file_map env"] map_put_new [OF assms(2)]
      by (simp add: links_def)
  qed (use assms in \<open>auto simp: env_ok_def map_put_keys\<close>)
qed

lemma NewWritableFile_ok:
  assumes "env_ok env"
  shows "\<exists>env'. NewWritableFile f env = Some (OK, env') \<and> env_ok env'"
proof -
  let ?m = "map_erase f (file_map env)"
  obtain h where h: "DeleteFileInternal f env = Some (env\<lparr>heap := h, file_map := ?m\<rparr>)"
      "env_ok (env\<lparr>heap := h, file_map := ?m\<rparr>)"
    using DeleteFileInternal_ok [OF assms] by blast
  let ?e = "env\<lparr>heap := h, file_map := ?m\<rparr>"
  let ?e2 = "?e\<lparr>heap := h(next_file env \<mapsto> new_FileState\<lparr>refs := 1\<rparr>), next_file := next_file env + 1,
    file_map := map_put f (next_file env) ?m\<rparr>"
  have ok2: "env_ok ?e2"
    using create_ok [OF h(2), of f] by (simp add: map_erase_keys)
  have "0 < links (next_file env) ?e2"
    using count_values [OF map_put_new, of f ?m "next_file env" "next_file env"] by (simp add: links_def map_erase_keys)
  from new_wrapper_ok [OF ok2 this] obtain e3 where e3: "new_wrapper (next_file env) ?e2 = Some e3" "env_ok e3"
    by blast
  have del: "(if map_of (file_map env) f \<noteq> None then DeleteFileInternal f env else Some env) = DeleteFileInternal f env"
    by (simp add: DeleteFileInternal_def)
  have "NewWritableFile f env = Some (OK, e3)"
    unfolding NewWritableFile_def del unfolding h(1) using e3(1) by (cases env) (simp add: alloc_FileState_def Ref_def new_FileState_def)
  then show ?thesis
    using e3(2) by blast
qed

lemma RenameFile_ok:
  assumes "env_ok env" "f \<noteq> g"
  shows "\<exists>s env'. RenameFile f g env = Some (s, env') \<and> env_ok env'"
proof (cases "map_of (file_map env) f")
  case None
  then show ?thesis
    using assms(1) by (simp add: RenameFile_def)
next
  case (Some p)
  let ?m = "map_erase g (file_map env)"
  obtain h where h: "DeleteFileInternal g env = Some (env\<lparr>heap := h, file_map := ?m\<rparr>)"
      "env_ok (env\<lparr>heap := h, file_map := ?m\<rparr>)"
    using DeleteFileInternal_ok [OF assms(1)] by blast
  have g: "g \<notin> fst ` set ?m" and mf: "map_of ?m f = Some p" and d: "distinct (map fst ?m)"
    using Some assms by (simp_all add: map_erase_keys map_of_erase env_ok_def)
  let ?m2 = "map_put g p ?m"
  have d2: "distinct (map fst ?m2)" and mf2: "map_of ?m2 f = Some p"
    using g d mf assms(2) by (simp_all add: map_put_keys map_of_put)
  have cnt: "count_list (map snd (map_erase f ?m2)) q = count_list (map snd ?m) q" for q
    using count_values [OF map_erase_mset [OF d2 mf2], of q] count_values [of ?m2 g p ?m q] map_put_new [OF g, of p] by simp
  have "env_ok (env\<lparr>heap := h, file_map := map_erase f ?m2\<rparr>)"
    using h(2) d2 by (simp add: env_ok_def links_def cnt map_erase_keys)
  then show ?thesis
    using Some h(1) mf by (simp add: RenameFile_def)
qed

lemma handle_append_ok:
  assumes "env_ok env" "p \<in> set (handles env)"
  shows "\<exists>s env'. handle_append raw p d env = Some (s, env') \<and> env_ok env'"
proof -
  have c: "counted (heap env) (\<lambda>p. links p env)"
    using assms(1) by (simp add: env_ok_def)
  obtain fs where fs: "heap env p = Some fs" "refs fs = int (links p env)" "fs_ok fs"
    using counted_live [OF c links_pos(2) [OF assms(2)]] by blast
  obtain s fs' where a: "FileState_Append raw d fs = (s, fs')" by fastforce
  have r: "refs_are (links p env) (Some fs')"
    using FileState_Append_contents [OF fs(3) a] fs(2) links_pos(2) [OF assms(2)] by (simp add: refs_are_def)
  have "env_ok (env\<lparr>heap := (heap env)(p \<mapsto> fs')\<rparr>)"
    by (rule env_okI [OF counted_upd [OF c r]]) (use assms(1) fs(1) in \<open>auto simp: env_ok_def links_def\<close>)
  then show ?thesis
    using fs(1) a by (simp add: handle_append_def WritableFile_Append_def)
qed

lemma open_ok:
  assumes "env_ok env"
  shows "\<exists>s env'. NewSequentialFile f env = Some (s, env') \<and> env_ok env'"
    "\<exists>s env'. NewRandomAccessFile f env = Some (s, env') \<and> env_ok env'"
    "FileExists f env \<Longrightarrow> \<exists>s env'. NewAppendableFile f env = Some (s, env') \<and> env_ok env'"
proof -
  have w: "\<exists>env'. new_wrapper p env = Some env' \<and> env_ok env'" if "map_of (file_map env) f = Some p" for p
    using new_wrapper_ok [OF assms links_pos(1) [OF that]] by blast
  show "\<exists>s env'. NewSequentialFile f env = Some (s, env') \<and> env_ok env'"
    "\<exists>s env'. NewRandomAccessFile f env = Some (s, env') \<and> env_ok env'"
    using w assms by (auto simp: NewSequentialFile_def NewRandomAccessFile_def split: option.splits)
  assume "FileExists f env"
  then obtain p where p: "map_of (file_map env) f = Some p"
    by (auto simp: FileExists_def)
  have c: "counted (heap env) (\<lambda>p. links p env)" and z: "heap env 0 = None"
    using assms by (simp_all add: env_ok_def)
  have "p \<noteq> 0"
    using counted_live [OF c links_pos(1) [OF p]] z by auto
  then show "\<exists>s env'. NewAppendableFile f env = Some (s, env') \<and> env_ok env'"
    using w [OF p] p by (auto simp: NewAppendableFile_def)
qed

lemma snd_some: "\<exists>s e. x = Some (s, e) \<and> P e \<Longrightarrow> \<exists>e. map_option snd x = Some e \<and> P e"
  by auto

lemma exec_ok:
  assumes "env_ok env" "allowed a env"
  shows "\<exists>env'. exec raw a env = Some env' \<and> env_ok env'"
proof (cases a)
  case (OpenSequential f)
  show ?thesis using snd_some [OF open_ok(1) [OF assms(1)]] unfolding OpenSequential exec.simps .
next
  case (OpenRandomAccess f)
  show ?thesis using snd_some [OF open_ok(2) [OF assms(1)]] unfolding OpenRandomAccess exec.simps .
next
  case (OpenWritable f)
  show ?thesis using NewWritableFile_ok [OF assms(1), of f] unfolding OpenWritable by auto
next
  case (OpenAppendable f)
  then have "FileExists f env" using assms(2) by simp
  from snd_some [OF open_ok(3) [OF assms(1) this]] show ?thesis unfolding OpenAppendable exec.simps .
next
  case (Remove f)
  then show ?thesis
    using DeleteFileInternal_ok [OF assms(1), of f] assms(1) by (auto simp: DeleteFile_def)
next
  case (Rename f g)
  then have "f \<noteq> g" using assms(2) by simp
  from snd_some [OF RenameFile_ok [OF assms(1) this]] show ?thesis unfolding Rename exec.simps .
next
  case (Close p)
  then have "p \<in> set (handles env)" using assms(2) by simp
  from delete_wrapper_ok [OF assms(1) this] show ?thesis unfolding Close exec.simps .
next
  case (Append p d)
  then have "p \<in> set (handles env)" using assms(2) by simp
  from snd_some [OF handle_append_ok [OF assms(1) this]] show ?thesis unfolding Append exec.simps .
qed

lemma new_InMemoryEnv_ok: "env_ok new_InMemoryEnv"
  by (simp add: env_ok_def new_InMemoryEnv_def counted_def refs_are_def links_def)

lemma reach_ok: "reach raw env \<Longrightarrow> env_ok env"
proof (induction rule: reach.induct)
  case (reach_step env a env')
  then show ?case
    using exec_ok [of env a raw] by auto
qed (rule new_InMemoryEnv_ok)

lemma map_of_put_new: "f \<notin> fst ` set m \<Longrightarrow> map_of (map_put f p m) f = Some p"
  by (induction f p m rule: map_put.induct) auto

section \<open>Properties\<close>

text \<open>(C29) In every state that opening, creating, deleting, renaming, closing and
  appending reach, the count of every file state is the number of names and wrappers
  that point to it, and no such call follows a pointer to a file state that is gone.\<close>

theorem memenv_counts:
  assumes "reach raw env" "allowed a env"
  shows "(\<forall>p fs. heap env p = Some fs \<longrightarrow> refs fs = int (links p env)) \<and> exec raw a env \<noteq> None"
proof -
  have ok: "env_ok env"
    by (rule reach_ok [OF assms(1)])
  then have "refs fs = int (links p env)" if "heap env p = Some fs" for p fs
    using that by (auto simp: env_ok_def counted_def refs_are_def dest!: spec [of _ p])
  then show ?thesis
    using exec_ok [OF ok assms(2), of raw] by auto
qed

definition one_file_env :: InMemoryEnv where
  "one_file_env = the (exec (\<lambda>i. 0) (OpenWritable (lit ''f'')) new_InMemoryEnv)"

lemma one_file_env_reach:
  "exec (\<lambda>i. 0) (OpenWritable (lit ''f'')) new_InMemoryEnv = Some one_file_env"
  using NewWritableFile_ok [OF new_InMemoryEnv_ok, of "lit ''f''"] by (auto simp: one_file_env_def)

lemma one_file_env_there: "FileExists (lit ''f'') one_file_env" "env_ok one_file_env"
proof -
  show "FileExists (lit ''f'') one_file_env"
    by (simp add: FileExists_def one_file_env_def NewWritableFile_def new_InMemoryEnv_def alloc_FileState_def Ref_def
        new_wrapper_def lit_def)
  show "env_ok one_file_env"
    using NewWritableFile_ok [OF new_InMemoryEnv_ok, of "lit ''f''"] one_file_env_reach by auto
qed

theorem memenv_counts_witness:
  "exec (\<lambda>i. 0) (OpenAppendable (lit ''f'')) one_file_env \<noteq> None"
  using memenv_counts [OF reach_step [OF reach_new _ one_file_env_reach], of "OpenAppendable (lit ''f'')"]
    one_file_env_there by simp

text \<open>(C30) Opening for appending a file that is not there leaves a NULL under its name:
  the call succeeds, and the next call that opens the file reads through that NULL.\<close>

theorem appendable_leaves_null:
  assumes "env_ok env" "\<not> FileExists f env"
  shows "\<exists>env'. NewAppendableFile f env = Some (OK, env') \<and> FileExists f env' \<and> NewSequentialFile f env' = None"
proof -
  have f: "f \<notin> fst ` set (file_map env)" and z: "heap env 0 = None" "next_file env \<noteq> 0"
    using assms by (auto simp: FileExists_def map_of_absent env_ok_def)
  show ?thesis
    using f z map_of_put_new [OF f, of 0] map_put_keys(1) [OF f, of 0]
    by (simp add: NewAppendableFile_def map_of_absent alloc_FileState_def Ref_def new_wrapper_def FileExists_def
        NewSequentialFile_def)
qed

theorem appendable_leaves_null_witness:
  "\<exists>env'. NewAppendableFile (lit ''f'') new_InMemoryEnv = Some (OK, env') \<and> NewSequentialFile (lit ''f'') env' = None"
  using appendable_leaves_null [OF new_InMemoryEnv_ok, of "lit ''f''"] by (auto simp: FileExists_def new_InMemoryEnv_def)

text \<open>(C31) Renaming a file to its own name deletes it, and reports success.\<close>

theorem rename_to_itself_deletes:
  assumes "env_ok env" "FileExists f env"
  shows "\<exists>env'. RenameFile f f env = Some (OK, env') \<and> \<not> FileExists f env'"
proof -
  obtain h where "DeleteFileInternal f env = Some (env\<lparr>heap := h, file_map := map_erase f (file_map env)\<rparr>)"
    using DeleteFileInternal_ok [OF assms(1)] by blast
  then show ?thesis
    using assms(2) by (auto simp: RenameFile_def FileExists_def map_of_absent map_erase_keys)
qed

theorem rename_to_itself_deletes_witness:
  "FileExists (lit ''f'') one_file_env \<and>
    (\<exists>env'. RenameFile (lit ''f'') (lit ''f'') one_file_env = Some (OK, env') \<and> \<not> FileExists (lit ''f'') env')"
  using rename_to_itself_deletes [OF one_file_env_there(2,1)] one_file_env_there by blast

end
