(* ===== verification/FilterBlock.thy ===== *)
theory FilterBlock
  imports DbFormat
begin

text \<open>
  The hash function (\<^verbatim>\<open>util/hash.cc\<close>), the Bloom filter (\<^verbatim>\<open>util/bloom.cc\<close>), the policy that
  strips internal keys (\<^verbatim>\<open>db/dbformat.cc\<close>) and the filter block of a table
  (\<^verbatim>\<open>table/filter_block.cc\<close>).  The number of probes is computed by the code in floating
  point; for the values below the cap of 30 the product with 0.69 is at least one
  hundredth away from the next integer unless it is zero, so that the integer quotient
  is the same number.
\<close>

unbundle bit_operations_syntax

section \<open>Definitions\<close>

subsection \<open>Hash\<close>

definition hash_m :: uint32 where "hash_m = 0xc6a4a793"

fun Hash_loop :: "uint32 \<Rightarrow> bytes \<Rightarrow> uint32" where
  "Hash_loop h (a # b # c # d # data) =
     (let h = (h + DecodeFixed32 [a, b, c, d]) * hash_m in Hash_loop (h XOR drop_bit 16 h) data)"
| "Hash_loop h [a, b, c] =
     (let h = (h + push_bit 16 (ucast c) + push_bit 8 (ucast b) + ucast a) * hash_m in h XOR drop_bit 24 h)"
| "Hash_loop h [a, b] =
     (let h = (h + push_bit 8 (ucast b) + ucast a) * hash_m in h XOR drop_bit 24 h)"
| "Hash_loop h [a] = (let h = (h + ucast a) * hash_m in h XOR drop_bit 24 h)"
| "Hash_loop h [] = h"

definition Hash :: "bytes \<Rightarrow> uint32 \<Rightarrow> uint32" where
  "Hash data seed = Hash_loop (seed XOR (word_of_nat (length data) * hash_m)) data"

subsection \<open>Filter policies\<close>

record FilterPolicy =
  policy_Name :: bytes
  CreateFilter :: "bytes list \<Rightarrow> bytes \<Rightarrow> bytes"
  policy_KeyMayMatch :: "bytes \<Rightarrow> bytes \<Rightarrow> bool"

definition BloomHash :: "bytes \<Rightarrow> uint32" where
  "BloomHash key = Hash key 0xbc9f1d34"

text \<open>The number of probes.  The code multiplies with the double 0.69 and truncates; the
  integer quotient is the same number for every argument below 44, and from there on
  both are at least 30, the largest number of probes.\<close>

definition bloom_k :: "nat \<Rightarrow> nat" where
  "bloom_k bits_per_key =
     (let k = bits_per_key * 69 div 100; k = (if k < 1 then 1 else k) in if k > 30 then 30 else k)"

definition bloom_delta :: "uint32 \<Rightarrow> uint32" where
  "bloom_delta h = drop_bit 17 h OR push_bit 15 h"

fun set_probes :: "nat \<Rightarrow> uint32 \<Rightarrow> uint32 \<Rightarrow> nat \<Rightarrow> bytes \<Rightarrow> bytes" where
  "set_probes 0 h delta bits array = array"
| "set_probes (Suc j) h delta bits array =
     (let bitpos = unat h mod bits
      in set_probes j (h + delta) delta bits
           (array[bitpos div 8 := (array ! (bitpos div 8)) OR push_bit (bitpos mod 8) 1]))"

text \<open>The body of the loop over the keys.\<close>

definition bloom_add :: "nat \<Rightarrow> nat \<Rightarrow> bytes \<Rightarrow> bytes \<Rightarrow> bytes" where
  "bloom_add k bits key array = (let h = BloomHash key in set_probes k h (bloom_delta h) bits array)"

definition bloom_CreateFilter :: "nat \<Rightarrow> bytes list \<Rightarrow> bytes \<Rightarrow> bytes" where
  "bloom_CreateFilter bits_per_key keys dst =
     (let bits = length keys * bits_per_key;
          bits = (if bits < 64 then 64 else bits);
          nbytes = (bits + 7) div 8;
          bits = nbytes * 8;
          array = fold (bloom_add (bloom_k bits_per_key) bits) keys (replicate nbytes 0)
      in dst @ array @ [word_of_nat (bloom_k bits_per_key)])"

fun check_probes :: "nat \<Rightarrow> uint32 \<Rightarrow> uint32 \<Rightarrow> nat \<Rightarrow> bytes \<Rightarrow> bool" where
  "check_probes 0 h delta bits array = True"
| "check_probes (Suc j) h delta bits array =
     (let bitpos = unat h mod bits in
      if (array ! (bitpos div 8)) AND push_bit (bitpos mod 8) 1 = 0 then False
      else check_probes j (h + delta) delta bits array)"

definition bloom_KeyMayMatch :: "bytes \<Rightarrow> bytes \<Rightarrow> bool" where
  "bloom_KeyMayMatch key bloom_filter =
     (let len = length bloom_filter in
      if len < 2 then False
      else
        let bits = (len - 1) * 8; k = (scast (bloom_filter ! (len - 1)) :: uint64) in
        if k > 30 then True
        else let h = BloomHash key in check_probes (unat k) h (bloom_delta h) bits bloom_filter)"

definition NewBloomFilterPolicy :: "nat \<Rightarrow> FilterPolicy" where
  "NewBloomFilterPolicy bits_per_key =
     \<lparr> policy_Name = lit ''leveldb.BuiltinBloomFilter2'', CreateFilter = bloom_CreateFilter bits_per_key,
       policy_KeyMayMatch = bloom_KeyMayMatch \<rparr>"

definition InternalFilterPolicy :: "FilterPolicy \<Rightarrow> FilterPolicy" where
  "InternalFilterPolicy user_policy =
     \<lparr> policy_Name = policy_Name user_policy,
       CreateFilter = (\<lambda>keys dst. CreateFilter user_policy (map ExtractUserKey keys) dst),
       policy_KeyMayMatch = (\<lambda>key f. policy_KeyMayMatch user_policy (ExtractUserKey key) f) \<rparr>"

subsection \<open>Filter blocks\<close>

definition kFilterBaseLg :: nat where "kFilterBaseLg = 11"
definition kFilterBase :: nat where "kFilterBase = 2 ^ kFilterBaseLg"

record FilterBlockBuilder =
  fb_keys :: bytes
  fb_start :: "nat list"
  fb_result :: bytes
  filter_offsets :: "uint32 list"

definition new_FilterBlockBuilder :: FilterBlockBuilder where
  "new_FilterBlockBuilder = \<lparr> fb_keys = [], fb_start = [], fb_result = [], filter_offsets = [] \<rparr>"

definition GenerateFilter :: "FilterPolicy \<Rightarrow> FilterBlockBuilder \<Rightarrow> FilterBlockBuilder" where
  "GenerateFilter policy fb =
     (let num_keys = length (fb_start fb) in
      if num_keys = 0 then fb\<lparr>filter_offsets := filter_offsets fb @ [word_of_nat (length (fb_result fb))]\<rparr>
      else
        let start = fb_start fb @ [length (fb_keys fb)];
            tmp_keys = map (\<lambda>i. take (start ! (i + 1) - start ! i) (drop (start ! i) (fb_keys fb))) [0..<num_keys]
        in fb\<lparr>filter_offsets := filter_offsets fb @ [word_of_nat (length (fb_result fb))],
              fb_result := CreateFilter policy tmp_keys (fb_result fb), fb_keys := [], fb_start := []\<rparr>)"

function StartBlock_loop :: "FilterPolicy \<Rightarrow> nat \<Rightarrow> FilterBlockBuilder \<Rightarrow> FilterBlockBuilder" where
  "StartBlock_loop policy filter_index fb =
     (if filter_index > length (filter_offsets fb) then StartBlock_loop policy filter_index (GenerateFilter policy fb)
      else fb)"
  by auto
termination
  by (relation "measure (\<lambda>(policy, filter_index, fb). filter_index - length (filter_offsets fb))")
    (auto simp: GenerateFilter_def Let_def)

declare StartBlock_loop.simps [simp del]

definition StartBlock :: "FilterPolicy \<Rightarrow> uint64 \<Rightarrow> FilterBlockBuilder \<Rightarrow> FilterBlockBuilder" where
  "StartBlock policy block_offset fb = StartBlock_loop policy (unat block_offset div kFilterBase) fb"

definition AddKey :: "bytes \<Rightarrow> FilterBlockBuilder \<Rightarrow> FilterBlockBuilder" where
  "AddKey key fb = fb\<lparr>fb_start := fb_start fb @ [length (fb_keys fb)], fb_keys := fb_keys fb @ key\<rparr>"

definition FilterBlock_Finish :: "FilterPolicy \<Rightarrow> FilterBlockBuilder \<Rightarrow> bytes" where
  "FilterBlock_Finish policy fb =
     (let fb = (if fb_start fb \<noteq> [] then GenerateFilter policy fb else fb);
          array_offset = word_of_nat (length (fb_result fb)) :: uint32
      in fb_result fb @ concat (map EncodeFixed32 (filter_offsets fb)) @ EncodeFixed32 array_offset @
         [word_of_nat kFilterBaseLg])"

text \<open>The calls a table builder makes: \<^verbatim>\<open>(StartBlock AddKey*)* Finish\<close>.\<close>

definition filter_block :: "FilterPolicy \<Rightarrow> (uint64 \<times> bytes list) list \<Rightarrow> FilterBlockBuilder" where
  "filter_block policy blks =
     fold (\<lambda>(block_offset, keys) fb. fold AddKey keys (StartBlock policy block_offset fb)) blks new_FilterBlockBuilder"

text \<open>The reader: the block and the offset of the array in it when the block is well
  formed (\<open>data\<close> is NULL otherwise).\<close>

record FilterBlockReader =
  fr_data :: bytes
  fr_offset :: nat
  fr_num :: nat
  base_lg :: uint64

definition new_FilterBlockReader :: "bytes \<Rightarrow> FilterBlockReader" where
  "new_FilterBlockReader contents =
     (let n = length contents in
      if n < 5 then \<lparr> fr_data = [], fr_offset = 0, fr_num = 0, base_lg = 0 \<rparr>
      else
        let lg = scast (contents ! (n - 1)); last_word = unat (DecodeFixed32 (drop (n - 5) contents)) in
        if last_word > n - 5 then \<lparr> fr_data = [], fr_offset = 0, fr_num = 0, base_lg = lg \<rparr>
        else \<lparr> fr_data = contents, fr_offset = last_word, fr_num = (n - 5 - last_word) div 4, base_lg = lg \<rparr>)"

definition FilterBlock_KeyMayMatch :: "FilterPolicy \<Rightarrow> FilterBlockReader \<Rightarrow> uint64 \<Rightarrow> bytes \<Rightarrow> bool" where
  "FilterBlock_KeyMayMatch policy fr block_offset key =
     (let index = unat (drop_bit (unat (base_lg fr)) block_offset) in
      if index < fr_num fr then
        let start = unat (DecodeFixed32 (drop (fr_offset fr + index * 4) (fr_data fr)));
            limit = unat (DecodeFixed32 (drop (fr_offset fr + index * 4 + 4) (fr_data fr)))
        in
        if start \<le> limit \<and> limit \<le> fr_offset fr then
          policy_KeyMayMatch policy key (take (limit - start) (drop start (fr_data fr)))
        else if start = limit then False
        else True
      else True)"

section \<open>Policies have no false negatives\<close>

text \<open>What the rest of the code relies on: a policy appends to the string it is given, and
  a filter matches every key it was created from.\<close>

locale filter_policy =
  fixes policy :: FilterPolicy
  assumes creates_after: "CreateFilter policy keys dst = dst @ CreateFilter policy keys []"
    and matches: "key \<in> set keys \<Longrightarrow> policy_KeyMayMatch policy key (CreateFilter policy keys [])"

subsection \<open>Bloom filters\<close>

definition has_bit :: "bytes \<Rightarrow> nat \<Rightarrow> bool" where
  "has_bit array p \<longleftrightarrow> bit (array ! (p div 8)) (p mod 8)"

fun probes :: "nat \<Rightarrow> uint32 \<Rightarrow> uint32 \<Rightarrow> nat \<Rightarrow> nat set" where
  "probes 0 h delta bits = {}"
| "probes (Suc j) h delta bits = insert (unat h mod bits) (probes j (h + delta) delta bits)"

lemma probes_less: "0 < bits \<Longrightarrow> p \<in> probes j h delta bits \<Longrightarrow> p < bits"
  by (induction j h delta bits rule: probes.induct) auto

lemma length_set_probes [simp]: "length (set_probes j h delta bits array) = length array"
  by (induction j h delta bits array rule: set_probes.induct) (simp_all add: Let_def)

lemma same_bit: "p div 8 = q div 8 \<Longrightarrow> p mod 8 = q mod 8 \<Longrightarrow> p = (q :: nat)"
  by (metis div_mult_mod_eq)

lemma has_bit_update:
  assumes "q < 8 * length array"
  shows "has_bit (array[q div 8 := (array ! (q div 8)) OR push_bit (q mod 8) 1]) p \<longleftrightarrow> has_bit array p \<or> p = q"
proof -
  have "q div 8 < length array" using assms by linarith
  then show ?thesis
    by (auto simp: has_bit_def nth_list_update bit_simps dest: same_bit)
qed

lemma has_bit_set_probes:
  "0 < bits \<Longrightarrow> bits \<le> 8 * length array \<Longrightarrow>
    has_bit (set_probes j h delta bits array) p \<longleftrightarrow> has_bit array p \<or> p \<in> probes j h delta bits"
proof (induction j h delta bits array rule: set_probes.induct)
  case (2 j h delta bits array)
  have "unat h mod bits < 8 * length array"
    using 2(2,3) by (meson less_le_trans mod_less_divisor)
  with 2 show ?case
    by (auto simp: Let_def has_bit_update simp del: push_bit_of_1)
qed simp

lemma check_probes_iff: "check_probes j h delta bits array \<longleftrightarrow> (\<forall>p \<in> probes j h delta bits. has_bit array p)"
  by (induction j h delta bits array rule: check_probes.induct)
    (simp_all add: Let_def has_bit_def bit_iff_and_push_bit_not_eq_0)

lemma bloom_k_range: "1 \<le> bloom_k b" "bloom_k b \<le> 30"
  by (simp_all add: bloom_k_def Let_def)

lemma encoded_k: "unat (scast (word_of_nat (bloom_k b) :: byte) :: uint64) = bloom_k b"
proof -
  have "\<forall>k \<in> set [0..<31]. unat (scast (word_of_nat k :: byte) :: uint64) = k"
    by code_simp
  moreover have "bloom_k b \<in> set [0..<31]"
    using bloom_k_range(2) [of b] by simp
  ultimately show ?thesis by blast
qed

lemma bloom_fold:
  assumes "0 < bits" "bits \<le> 8 * length array"
  shows "length (fold (bloom_add k bits) keys array) = length array \<and>
    (has_bit (fold (bloom_add k bits) keys array) p \<longleftrightarrow>
      has_bit array p \<or> (\<exists>key \<in> set keys. p \<in> probes k (BloomHash key) (bloom_delta (BloomHash key)) bits))"
  using assms(2)
proof (induction keys arbitrary: array)
  case (Cons key keys)
  have "bits \<le> 8 * length (bloom_add k bits key array)"
    using Cons.prems by (simp add: bloom_add_def Let_def)
  from Cons.IH [OF this] show ?case
    using has_bit_set_probes [OF assms(1) Cons.prems] by (auto simp: bloom_add_def Let_def)
qed simp

lemma bloom_matches:
  assumes "key \<in> set keys"
  shows "bloom_KeyMayMatch key (bloom_CreateFilter b keys [])"
proof -
  define bits where "bits = (if length keys * b < 64 then 64 else length keys * b)"
  define n where "n = (bits + 7) div 8"
  let ?k = "bloom_k b" and ?h = "BloomHash key"
  let ?a = "fold (bloom_add ?k (n * 8)) keys (replicate n 0)"
  have "64 \<le> bits" by (simp add: bits_def)
  then have n: "1 < n"
    using div_le_mono [of "64 + 7" "bits + 7" 8] by (simp add: n_def)
  have c: "bloom_CreateFilter b keys [] = ?a @ [word_of_nat ?k]"
    unfolding bloom_CreateFilter_def Let_def bits_def [symmetric] n_def [symmetric] by simp
  have fo: "length ?a = n" "\<And>p. p \<in> probes ?k ?h (bloom_delta ?h) (n * 8) \<Longrightarrow> has_bit ?a p"
    using bloom_fold [of "n * 8" "replicate n 0" ?k keys] n assms by auto
  have "check_probes ?k ?h (bloom_delta ?h) (n * 8) (?a @ [word_of_nat ?k])"
    unfolding check_probes_iff
  proof
    fix p assume p: "p \<in> probes ?k ?h (bloom_delta ?h) (n * 8)"
    have "p < n * 8" using n by (intro probes_less [OF _ p]) simp
    then have "p div 8 < length ?a" using fo(1) by linarith
    then show "has_bit (?a @ [word_of_nat ?k]) p"
      using fo(2) [OF p] by (simp add: has_bit_def nth_append)
  qed
  moreover have "\<not> (scast (word_of_nat ?k :: byte) :: uint64) > 30"
    using encoded_k [of b] bloom_k_range(2) [of b] by (simp add: word_less_nat_alt)
  ultimately show ?thesis
    using n fo(1) encoded_k [of b] by (simp add: bloom_KeyMayMatch_def c Let_def nth_append)
qed

interpretation bloom_policy: filter_policy "NewBloomFilterPolicy b" for b
proof
  show "CreateFilter (NewBloomFilterPolicy b) keys dst = dst @ CreateFilter (NewBloomFilterPolicy b) keys []" for keys dst
    by (simp add: NewBloomFilterPolicy_def bloom_CreateFilter_def Let_def)
  show "policy_KeyMayMatch (NewBloomFilterPolicy b) key (CreateFilter (NewBloomFilterPolicy b) keys [])"
    if "key \<in> set keys" for key keys
    using bloom_matches [OF that] by (simp add: NewBloomFilterPolicy_def)
qed

subsection \<open>Policies on internal keys\<close>

lemma internal_filter_policy:
  assumes "filter_policy policy"
  shows "filter_policy (InternalFilterPolicy policy)"
proof
  note creates_after = filter_policy.creates_after [OF assms] and matches = filter_policy.matches [OF assms]
  show "CreateFilter (InternalFilterPolicy policy) keys dst = dst @ CreateFilter (InternalFilterPolicy policy) keys []" for keys dst
    using creates_after [of "map ExtractUserKey keys" dst] by (simp add: InternalFilterPolicy_def)
  show "policy_KeyMayMatch (InternalFilterPolicy policy) key (CreateFilter (InternalFilterPolicy policy) keys [])"
    if "key \<in> set keys" for key keys
    using matches [of "ExtractUserKey key" "map ExtractUserKey keys"] that by (simp add: InternalFilterPolicy_def)
qed

interpretation internal_bloom: filter_policy "InternalFilterPolicy (NewBloomFilterPolicy b)" for b
  by (rule internal_filter_policy) (rule bloom_policy.filter_policy_axioms)

section \<open>Filter blocks\<close>

text \<open>The keys waiting in a builder, and what the builder has written for the keys of each
  filter so far.\<close>

fun key_starts :: "nat \<Rightarrow> bytes list \<Rightarrow> nat list" where
  "key_starts n [] = []"
| "key_starts n (k # ks) = n # key_starts (n + length k) ks"

definition filter_of :: "FilterPolicy \<Rightarrow> bytes list \<Rightarrow> bytes" where
  "filter_of policy ks = (if ks = [] then [] else CreateFilter policy ks [])"

definition fb_holds :: "FilterPolicy \<Rightarrow> FilterBlockBuilder \<Rightarrow> bytes list list \<Rightarrow> bytes list \<Rightarrow> bool" where
  "fb_holds policy fb gens pend \<longleftrightarrow>
     fb_keys fb = concat pend \<and> fb_start fb = key_starts 0 pend \<and>
     fb_result fb = concat (map (filter_of policy) gens) \<and>
     filter_offsets fb = map word_of_nat (key_starts 0 (map (filter_of policy) gens))"

lemma length_key_starts [simp]: "length (key_starts n ks) = length ks"
  by (induction n ks rule: key_starts.induct) simp_all

lemma key_starts_append: "key_starts n (ks @ ls) = key_starts n ks @ key_starts (n + length (concat ks)) ls"
  by (induction n ks rule: key_starts.induct) (simp_all add: add.assoc)

lemma nth_key_starts: "i \<le> length ks \<Longrightarrow> (key_starts n ks @ [n + length (concat ks)]) ! i = n + length (concat (take i ks))"
  by (induction n ks arbitrary: i rule: key_starts.induct) (auto simp: nth_Cons add.assoc split: nat.split)

lemma take_concat_le: "length (concat (take j ks)) \<le> length (concat ks)"
  by (metis append_take_drop_id concat_append le_add1 length_append)

lemma slice_key:
  "i < length ks \<Longrightarrow> take (length (concat (take (Suc i) ks)) - length (concat (take i ks)))
     (drop (length (concat (take i ks))) (concat ks @ rest)) = ks ! i"
proof (induction ks arbitrary: i)
  case (Cons k ks)
  then show ?case by (cases i) (simp_all add: add.commute)
qed simp

lemma tmp_keys_eq:
  "map (\<lambda>i. take ((key_starts 0 ks @ [length (concat ks)]) ! (i + 1) - (key_starts 0 ks @ [length (concat ks)]) ! i)
     (drop ((key_starts 0 ks @ [length (concat ks)]) ! i) (concat ks))) [0..<length ks] = ks"
proof (rule nth_equalityI)
  fix i assume "i < length (map (\<lambda>i. take ((key_starts 0 ks @ [length (concat ks)]) ! (i + 1) -
    (key_starts 0 ks @ [length (concat ks)]) ! i) (drop ((key_starts 0 ks @ [length (concat ks)]) ! i) (concat ks))) [0..<length ks])"
  then have i: "i < length ks" by simp
  show "map (\<lambda>i. take ((key_starts 0 ks @ [length (concat ks)]) ! (i + 1) - (key_starts 0 ks @ [length (concat ks)]) ! i)
     (drop ((key_starts 0 ks @ [length (concat ks)]) ! i) (concat ks))) [0..<length ks] ! i = ks ! i"
    using i slice_key [OF i, of "[]"] nth_key_starts [of i ks 0] nth_key_starts [of "Suc i" ks 0] by simp
qed simp

context filter_policy
begin

lemma GenerateFilter_holds:
  assumes "fb_holds policy fb gens pend"
  shows "fb_holds policy (GenerateFilter policy fb) (gens @ [pend]) []"
proof (cases "pend = []")
  case True
  then show ?thesis
    using assms by (simp add: fb_holds_def GenerateFilter_def key_starts_append filter_of_def)
next
  case False
  have "fb_start fb = key_starts 0 pend" "fb_keys fb = concat pend"
    using assms by (simp_all add: fb_holds_def)
  then have g: "GenerateFilter policy fb = fb\<lparr>filter_offsets := filter_offsets fb @ [word_of_nat (length (fb_result fb))],
      fb_result := CreateFilter policy pend (fb_result fb), fb_keys := [], fb_start := []\<rparr>"
    using False tmp_keys_eq [of pend] unfolding GenerateFilter_def Let_def by simp
  show ?thesis
    unfolding g using assms False creates_after [of pend "fb_result fb"]
    by (simp add: fb_holds_def key_starts_append filter_of_def)
qed

lemma StartBlock_holds:
  "fb_holds policy fb gens pend \<Longrightarrow> length gens \<le> idx \<Longrightarrow>
    \<exists>gens2 pend'. fb_holds policy (StartBlock_loop policy idx fb) (gens @ gens2) pend' \<and> length (gens @ gens2) = idx \<and>
      (if length gens = idx then gens2 = [] \<and> pend' = pend else pend' = [] \<and> gens2 \<noteq> [] \<and> hd gens2 = pend)"
proof (induction "idx - length gens" arbitrary: fb gens pend)
  case 0
  then have "StartBlock_loop policy idx fb = fb"
    by (subst StartBlock_loop.simps) (simp add: fb_holds_def)
  with 0 show ?case by (intro exI [of _ "[]"] exI [of _ pend]) simp
next
  case (Suc d)
  let ?fb = "GenerateFilter policy fb"
  have l: "StartBlock_loop policy idx fb = StartBlock_loop policy idx ?fb"
    using Suc.hyps(2) Suc.prems(1) by (subst StartBlock_loop.simps) (simp add: fb_holds_def)
  have d: "d = idx - length (gens @ [pend])" and le: "length (gens @ [pend]) \<le> idx"
    using Suc.hyps(2) Suc.prems(2) by simp_all
  obtain gens2 pend' where m: "fb_holds policy (StartBlock_loop policy idx ?fb) ((gens @ [pend]) @ gens2) pend'"
      "length ((gens @ [pend]) @ gens2) = idx"
      "if length (gens @ [pend]) = idx then gens2 = [] \<and> pend' = [] else pend' = [] \<and> gens2 \<noteq> [] \<and> hd gens2 = []"
    using Suc.hyps(1) [OF d GenerateFilter_holds [OF Suc.prems(1)] le] by blast
  show ?case
    unfolding l using m Suc.hyps(2) by (intro exI [of _ "pend # gens2"] exI [of _ pend']) (auto split: if_splits)
qed

lemma AddKeys_holds:
  "fb_holds policy fb gens pend \<Longrightarrow> fb_holds policy (fold AddKey keys fb) gens (pend @ keys)"
proof (induction keys arbitrary: fb pend)
  case (Cons k keys)
  have "fb_holds policy (AddKey k fb) gens (pend @ [k])"
    using Cons.prems by (simp add: fb_holds_def AddKey_def key_starts_append)
  from Cons.IH [OF this] show ?case by simp
qed simp

text \<open>Where the keys of the blocks so far are.\<close>

definition placed :: "(uint64 \<times> bytes list) list \<Rightarrow> bytes list list \<Rightarrow> bytes list \<Rightarrow> bool" where
  "placed blks gens pend \<longleftrightarrow> (\<forall>(off, keys) \<in> set blks. unat off div kFilterBase \<le> length gens \<and>
     (\<forall>k \<in> set keys. k \<in> set ((gens @ [pend]) ! (unat off div kFilterBase))))"

lemma placed_mono:
  assumes "placed blks gens pend" "set pend \<subseteq> set ((gens2 @ [pend']) ! 0)"
  shows "placed blks (gens @ gens2) pend'"
proof -
  have "set ((gens @ [pend]) ! i) \<subseteq> set ((gens @ gens2 @ [pend']) ! i)" if "i \<le> length gens" for i
    using that assms(2) by (cases "i = length gens") (auto simp: nth_append)
  then show ?thesis
    using assms(1) unfolding placed_def by fastforce
qed

lemma filter_block_holds:
  assumes "sorted (map (\<lambda>b. unat (fst b)) blks)"
  shows "\<exists>gens pend. fb_holds policy (filter_block policy blks) gens pend \<and> placed blks gens pend \<and>
    (blks \<noteq> [] \<longrightarrow> length gens \<le> unat (fst (last blks)) div kFilterBase) \<and> (blks = [] \<longrightarrow> gens = [])"
  using assms
proof (induction blks rule: rev_induct)
  case Nil
  then show ?case
    by (intro exI [of _ "[]"] exI [of _ "[]"]) (simp add: filter_block_def fb_holds_def new_FilterBlockBuilder_def placed_def)
next
  case (snoc b blks)
  obtain off keys where b: "b = (off, keys)" by fastforce
  let ?i = "unat off div kFilterBase"
  obtain gens pend where g: "fb_holds policy (filter_block policy blks) gens pend" "placed blks gens pend"
      "blks = [] \<longrightarrow> gens = []" "blks \<noteq> [] \<longrightarrow> length gens \<le> unat (fst (last blks)) div kFilterBase"
    using snoc.IH snoc.prems by (auto simp: sorted_append)
  have le: "length gens \<le> ?i"
  proof (cases "blks = []")
    case False
    then have "unat (fst (last blks)) \<le> unat off" "length gens \<le> unat (fst (last blks)) div kFilterBase"
      using snoc.prems g(4) b False last_in_set [OF False] by (simp_all add: sorted_append)
    then show ?thesis
      by (meson div_le_mono order_trans)
  qed (use g(3) in simp)
  obtain gens2 pend' where m: "fb_holds policy (StartBlock_loop policy ?i (filter_block policy blks)) (gens @ gens2) pend'"
      "length (gens @ gens2) = ?i"
      "if length gens = ?i then gens2 = [] \<and> pend' = pend else pend' = [] \<and> gens2 \<noteq> [] \<and> hd gens2 = pend"
    using StartBlock_holds [OF g(1) le] by blast
  have h: "fb_holds policy (filter_block policy (blks @ [b])) (gens @ gens2) (pend' @ keys)"
    using AddKeys_holds [OF m(1), of keys] by (simp add: filter_block_def b StartBlock_def)
  have "set pend \<subseteq> set ((gens2 @ [pend' @ keys]) ! 0)"
    using m(3) by (cases gens2) (auto split: if_splits)
  from placed_mono [OF g(2) this] have "placed blks (gens @ gens2) (pend' @ keys)" .
  then have "placed (blks @ [b]) (gens @ gens2) (pend' @ keys)"
    using m(2) b by (auto simp: placed_def nth_append)
  then show ?case
    using h m(2) b by (intro exI [of _ "gens @ gens2"] exI [of _ "pend' @ keys"]) simp
qed

lemma Finish_holds:
  assumes "fb_holds policy fb gens pend" "placed blks gens pend"
  obtains gens' where "FilterBlock_Finish policy fb =
      concat (map (filter_of policy) gens') @ concat (map EncodeFixed32 (map word_of_nat (key_starts 0 (map (filter_of policy) gens')))) @
      EncodeFixed32 (word_of_nat (length (concat (map (filter_of policy) gens')))) @ [word_of_nat kFilterBaseLg]"
    "\<And>off keys k. (off, keys) \<in> set blks \<Longrightarrow> k \<in> set keys \<Longrightarrow>
      unat off div kFilterBase < length gens' \<and> k \<in> set (gens' ! (unat off div kFilterBase))"
proof -
  let ?fb = "if fb_start fb \<noteq> [] then GenerateFilter policy fb else fb"
  let ?gens = "if pend \<noteq> [] then gens @ [pend] else gens"
  have p: "fb_start fb = [] \<longleftrightarrow> pend = []"
    using assms(1) by (cases pend) (simp_all add: fb_holds_def)
  have "\<exists>pend'. fb_holds policy ?fb ?gens pend'"
    using assms(1) GenerateFilter_holds [OF assms(1)] p by auto
  then obtain pend' where h: "fb_holds policy ?fb ?gens pend'" ..
  show thesis
  proof (rule that [of ?gens])
    show "FilterBlock_Finish policy fb = concat (map (filter_of policy) ?gens) @
      concat (map EncodeFixed32 (map word_of_nat (key_starts 0 (map (filter_of policy) ?gens)))) @
      EncodeFixed32 (word_of_nat (length (concat (map (filter_of policy) ?gens)))) @ [word_of_nat kFilterBaseLg]"
      using h unfolding FilterBlock_Finish_def Let_def fb_holds_def by simp
    fix off keys k assume k: "(off, keys) \<in> set blks" "k \<in> set keys"
    then have "unat off div kFilterBase \<le> length gens" "k \<in> set ((gens @ [pend]) ! (unat off div kFilterBase))"
      using assms(2) by (auto simp: placed_def)
    then show "unat off div kFilterBase < length ?gens \<and> k \<in> set (?gens ! (unat off div kFilterBase))"
      by (cases "unat off div kFilterBase = length gens") (auto simp: nth_append)
  qed
qed

lemma decode_nth_word:
  "i < length ws \<Longrightarrow> DecodeFixed32 (drop (i * 4) (concat (map EncodeFixed32 ws) @ rest)) = ws ! i"
proof (induction ws arbitrary: i)
  case (Cons w ws)
  then show ?case by (cases i) simp_all
qed simp

lemma filter_block_matches:
  assumes blk: "sorted (map (\<lambda>b. unat (fst b)) blks)" "(off, keys) \<in> set blks" "k \<in> set keys"
    and fits: "length (FilterBlock_Finish policy (filter_block policy blks)) < 2 ^ 32"
  shows "FilterBlock_KeyMayMatch policy
    (new_FilterBlockReader (FilterBlock_Finish policy (filter_block policy blks))) off k"
proof -
  let ?F = "FilterBlock_Finish policy (filter_block policy blks)" and ?i = "unat off div kFilterBase"
  obtain gens0 pend where g: "fb_holds policy (filter_block policy blks) gens0 pend" "placed blks gens0 pend"
    using filter_block_holds [OF blk(1)] by blast
  obtain gens where F: "?F = concat (map (filter_of policy) gens) @
      concat (map EncodeFixed32 (map word_of_nat (key_starts 0 (map (filter_of policy) gens)))) @
      EncodeFixed32 (word_of_nat (length (concat (map (filter_of policy) gens)))) @ [word_of_nat kFilterBaseLg]"
    and i: "?i < length gens" "k \<in> set (gens ! ?i)"
    using Finish_holds [OF g] blk(2,3) by metis
  let ?fs = "map (filter_of policy) gens" and ?R = "length (concat (map (filter_of policy) gens))"
  define ws where "ws = (map word_of_nat (key_starts 0 ?fs @ [?R]) :: uint32 list)"
  have F': "?F = concat ?fs @ concat (map EncodeFixed32 ws) @ [11]"
    unfolding F ws_def by (simp add: kFilterBaseLg_def)
  have lw: "length ws = length gens + 1"
    by (simp add: ws_def)
  have lF: "length ?F = ?R + 4 * length gens + 5"
    unfolding F' using lw by (simp add: length_concat comp_def sum_list_triv)
  have w: "unat (ws ! j) = length (concat (take j ?fs))" if "j \<le> length gens" for j
  proof -
    have "ws ! j = word_of_nat (length (concat (take j ?fs)))"
      using that nth_key_starts [of j ?fs 0] unfolding ws_def by (subst nth_map) (simp_all del: length_concat)
    moreover have "length (concat (take j ?fs)) \<le> ?R"
      by (rule take_concat_le)
    ultimately show ?thesis
      using fits lF by (simp add: unat_of_nat del: length_concat)
  qed
  have dec: "unat (DecodeFixed32 (drop (?R + j * 4) ?F)) = length (concat (take j ?fs))" if "j \<le> length gens" for j
    using decode_nth_word [of j ws "[11]"] that w [OF that] lw unfolding F' by (simp del: length_concat)
  have lastw: "unat (DecodeFixed32 (drop (length ?F - 5) ?F)) = ?R"
    using dec [of "length gens"] lF by (simp add: mult.commute del: length_concat)
  have lg: "?F ! (length ?F - 1) = 11"
    unfolding F' by (simp add: nth_append)
  let ?r = "new_FilterBlockReader ?F"
  have r: "?r = \<lparr> fr_data = ?F, fr_offset = ?R, fr_num = length gens, base_lg = 11 \<rparr>"
    unfolding new_FilterBlockReader_def Let_def lastw lg using lF by (simp del: length_concat)
  have idx: "unat (drop_bit (unat (11 :: uint64)) off) = ?i"
    by (simp add: unat_drop_bit kFilterBase_def kFilterBaseLg_def)
  have slice: "take (length (concat (take (Suc ?i) ?fs)) - length (concat (take ?i ?fs)))
      (drop (length (concat (take ?i ?fs))) ?F) = CreateFilter policy (gens ! ?i) []"
  proof -
    have "take (length (concat (take (Suc ?i) ?fs)) - length (concat (take ?i ?fs)))
        (drop (length (concat (take ?i ?fs))) ?F) = ?fs ! ?i"
      unfolding F' by (rule slice_key) (use i(1) in simp)
    also have "\<dots> = CreateFilter policy (gens ! ?i) []"
      using i by (auto simp: filter_of_def)
    finally show ?thesis .
  qed
  have le: "length (concat (take ?i ?fs)) \<le> length (concat (take (Suc ?i) ?fs))"
    using take_concat_le [of ?i "take (Suc ?i) ?fs"] by simp
  have d2: "unat (DecodeFixed32 (drop (?R + ?i * 4 + 4) ?F)) = length (concat (take (Suc ?i) ?fs))"
  proof -
    have "?R + ?i * 4 + 4 = ?R + Suc ?i * 4" by simp
    then show ?thesis using dec [of "Suc ?i"] i(1) by (simp only: Suc_le_eq)
  qed
  have d1: "unat (DecodeFixed32 (drop (?R + ?i * 4) ?F)) = length (concat (take ?i ?fs))"
    using i(1) by (intro dec) simp
  show ?thesis
    unfolding FilterBlock_KeyMayMatch_def Let_def r FilterBlockReader.simps idx d1 d2 slice
    using i(1) le take_concat_le [of "Suc ?i" ?fs] matches [OF i(2)] by simp
qed

end

text \<open>(C32) A filter block has no false negatives: of a table whose blocks are added in
  the order of their offsets, with a Bloom filter of any density, the block finished from
  their keys answers that a key may be in its block for every key of that block.\<close>

theorem filter_block_no_false_negatives:
  assumes "sorted (map (\<lambda>b. unat (fst b)) blks)" "(off, keys) \<in> set blks" "k \<in> set keys"
    and "length (FilterBlock_Finish (InternalFilterPolicy (NewBloomFilterPolicy b))
      (filter_block (InternalFilterPolicy (NewBloomFilterPolicy b)) blks)) < 2 ^ 32"
  shows "FilterBlock_KeyMayMatch (InternalFilterPolicy (NewBloomFilterPolicy b))
    (new_FilterBlockReader (FilterBlock_Finish (InternalFilterPolicy (NewBloomFilterPolicy b))
      (filter_block (InternalFilterPolicy (NewBloomFilterPolicy b)) blks))) off k"
  using assms by (rule internal_bloom.filter_block_matches)

lemma length_bloom_add: "length (bloom_add k bits key array) = length array"
  by (simp add: bloom_add_def Let_def)

theorem filter_block_no_false_negatives_witness:
  "let p = InternalFilterPolicy (NewBloomFilterPolicy 10);
       k = [97, 1, 0, 0, 0, 0, 0, 0, 0];
       f = FilterBlock_Finish p (filter_block p [(0, [k])])
   in length f = 18 \<and> FilterBlock_KeyMayMatch p (new_FilterBlockReader f) 0 k"
proof -
  let ?p = "InternalFilterPolicy (NewBloomFilterPolicy 10)" and ?k = "[97, 1, 0, 0, 0, 0, 0, 0, 0] :: bytes"
  have l: "length (FilterBlock_Finish ?p (filter_block ?p [(0, [?k])])) = 18"
    by (simp add: FilterBlock_Finish_def filter_block_def new_FilterBlockBuilder_def StartBlock_def AddKey_def
        StartBlock_loop.simps [of _ 0] GenerateFilter_def InternalFilterPolicy_def NewBloomFilterPolicy_def
        bloom_CreateFilter_def length_bloom_add Let_def)
  show ?thesis
    unfolding Let_def using l filter_block_no_false_negatives [of "[(0, [?k])]" 0 "[?k]" ?k 10] by simp
qed

end
