(* ===== verification/VersionEdit.thy ===== *)
theory VersionEdit
  imports DbFormat Status "HOL-Library.Monad_Syntax"
begin

text \<open>
  Version edits (\<^verbatim>\<open>db/version_edit.h\<close>, \<^verbatim>\<open>db/version_edit.cc\<close>): the record of what a
  manifest entry changes, its encoding and its parser.  Internal keys are the byte
  strings that represent them, levels are natural numbers, and the set of deleted
  files is the list of its elements in the order of \<^verbatim>\<open>std::set\<close>.
\<close>

section \<open>Definitions\<close>

record FileMetaData =
  fm_refs :: int
  allowed_seeks :: int
  number :: uint64
  file_size :: uint64
  smallest :: bytes
  largest :: bytes

definition new_FileMetaData :: "uint64 \<Rightarrow> uint64 \<Rightarrow> bytes \<Rightarrow> bytes \<Rightarrow> FileMetaData" where
  "new_FileMetaData file fsize small large =
     \<lparr> fm_refs = 0, allowed_seeks = 2 ^ 30, number = file, file_size = fsize, smallest = small, largest = large \<rparr>"

record VersionEdit =
  ve_comparator :: bytes
  ve_log_number :: uint64
  ve_map_number :: uint64
  ve_prev_log_number :: uint64
  ve_next_file_number :: uint64
  ve_last_sequence :: uint64
  has_comparator :: bool
  has_log_number :: bool
  has_map_number :: bool
  has_prev_log_number :: bool
  has_next_file_number :: bool
  has_last_sequence :: bool
  compact_pointers :: "(nat \<times> bytes) list"
  deleted_files :: "(nat \<times> uint64) list"
  new_files :: "(nat \<times> FileMetaData) list"

definition Clear :: "VersionEdit \<Rightarrow> VersionEdit" where
  "Clear e =
     e\<lparr>ve_comparator := [], ve_log_number := 0, ve_map_number := 0, ve_prev_log_number := 0, ve_last_sequence := 0,
       ve_next_file_number := 0, has_comparator := False, has_log_number := False, has_map_number := False,
       has_prev_log_number := False, has_next_file_number := False, has_last_sequence := False,
       deleted_files := [], new_files := []\<rparr>"

definition new_VersionEdit :: VersionEdit where
  "new_VersionEdit =
     \<lparr> ve_comparator = [], ve_log_number = 0, ve_map_number = 0, ve_prev_log_number = 0, ve_next_file_number = 0,
       ve_last_sequence = 0, has_comparator = False, has_log_number = False, has_map_number = False,
       has_prev_log_number = False, has_next_file_number = False, has_last_sequence = False,
       compact_pointers = [], deleted_files = [], new_files = [] \<rparr>"

definition SetComparatorName :: "bytes \<Rightarrow> VersionEdit \<Rightarrow> VersionEdit" where
  "SetComparatorName name e = e\<lparr>has_comparator := True, ve_comparator := name\<rparr>"

definition SetLogNumber :: "uint64 \<Rightarrow> VersionEdit \<Rightarrow> VersionEdit" where
  "SetLogNumber num e = e\<lparr>has_log_number := True, ve_log_number := num\<rparr>"

definition SetMapNumber :: "uint64 \<Rightarrow> VersionEdit \<Rightarrow> VersionEdit" where
  "SetMapNumber num e = e\<lparr>has_map_number := True, ve_map_number := num\<rparr>"

definition SetPrevLogNumber :: "uint64 \<Rightarrow> VersionEdit \<Rightarrow> VersionEdit" where
  "SetPrevLogNumber num e = e\<lparr>has_prev_log_number := True, ve_prev_log_number := num\<rparr>"

definition SetNextFile :: "uint64 \<Rightarrow> VersionEdit \<Rightarrow> VersionEdit" where
  "SetNextFile num e = e\<lparr>has_next_file_number := True, ve_next_file_number := num\<rparr>"

definition SetLastSequence :: "uint64 \<Rightarrow> VersionEdit \<Rightarrow> VersionEdit" where
  "SetLastSequence seq e = e\<lparr>has_last_sequence := True, ve_last_sequence := seq\<rparr>"

definition SetCompactPointer :: "nat \<Rightarrow> bytes \<Rightarrow> VersionEdit \<Rightarrow> VersionEdit" where
  "SetCompactPointer level key e = e\<lparr>compact_pointers := compact_pointers e @ [(level, key)]\<rparr>"

definition AddFile :: "nat \<Rightarrow> uint64 \<Rightarrow> uint64 \<Rightarrow> bytes \<Rightarrow> bytes \<Rightarrow> VersionEdit \<Rightarrow> VersionEdit" where
  "AddFile level file fsize small large e =
     e\<lparr>new_files := new_files e @ [(level, new_FileMetaData file fsize small large)]\<rparr>"

text \<open>Insertion into the set of deleted files.\<close>

definition del_less :: "nat \<times> uint64 \<Rightarrow> nat \<times> uint64 \<Rightarrow> bool" where
  "del_less a b \<longleftrightarrow> fst a < fst b \<or> fst a = fst b \<and> snd a < snd b"

fun del_insert :: "nat \<times> uint64 \<Rightarrow> (nat \<times> uint64) list \<Rightarrow> (nat \<times> uint64) list" where
  "del_insert a [] = [a]"
| "del_insert a (b # s) = (if del_less a b then a # b # s else if a = b then b # s else b # del_insert a s)"

definition ve_DeleteFile :: "nat \<Rightarrow> uint64 \<Rightarrow> VersionEdit \<Rightarrow> VersionEdit" where
  "ve_DeleteFile level file e = e\<lparr>deleted_files := del_insert (level, file) (deleted_files e)\<rparr>"

subsection \<open>Encoding\<close>

definition kComparator :: uint32 where "kComparator = 1"
definition kLogNumber :: uint32 where "kLogNumber = 2"
definition kNextFileNumber :: uint32 where "kNextFileNumber = 3"
definition kLastSequence :: uint32 where "kLastSequence = 4"
definition kCompactPointer :: uint32 where "kCompactPointer = 5"
definition kDeletedFile :: uint32 where "kDeletedFile = 6"
definition kNewFile :: uint32 where "kNewFile = 7"
definition kMapNumber :: uint32 where "kMapNumber = 8"
definition kPrevLogNumber :: uint32 where "kPrevLogNumber = 9"

lemmas tag_defs = kComparator_def kLogNumber_def kNextFileNumber_def kLastSequence_def kCompactPointer_def
  kDeletedFile_def kNewFile_def kMapNumber_def kPrevLogNumber_def

definition put_number :: "bool \<Rightarrow> uint32 \<Rightarrow> uint64 \<Rightarrow> bytes \<Rightarrow> bytes" where
  "put_number has tag num dst = (if has then PutVarint64 (PutVarint32 dst tag) num else dst)"

definition put_compact_pointer :: "nat \<times> bytes \<Rightarrow> bytes \<Rightarrow> bytes" where
  "put_compact_pointer p dst =
     PutLengthPrefixedSlice (PutVarint32 (PutVarint32 dst kCompactPointer) (word_of_nat (fst p))) (snd p)"

definition put_deleted_file :: "nat \<times> uint64 \<Rightarrow> bytes \<Rightarrow> bytes" where
  "put_deleted_file p dst =
     PutVarint64 (PutVarint32 (PutVarint32 dst kDeletedFile) (word_of_nat (fst p))) (snd p)"

definition put_new_file :: "nat \<times> FileMetaData \<Rightarrow> bytes \<Rightarrow> bytes" where
  "put_new_file p dst =
     (let f = snd p;
          dst = PutVarint32 dst kNewFile;
          dst = PutVarint32 dst (word_of_nat (fst p));
          dst = PutVarint64 dst (number f);
          dst = PutVarint64 dst (file_size f);
          dst = PutLengthPrefixedSlice dst (smallest f)
      in PutLengthPrefixedSlice dst (largest f))"

definition EncodeTo :: "VersionEdit \<Rightarrow> bytes \<Rightarrow> bytes" where
  "EncodeTo e dst =
     (let dst = (if has_comparator e
                 then PutLengthPrefixedSlice (PutVarint32 dst kComparator) (ve_comparator e) else dst);
          dst = put_number (has_log_number e) kLogNumber (ve_log_number e) dst;
          dst = put_number (has_prev_log_number e) kPrevLogNumber (ve_prev_log_number e) dst;
          dst = put_number (has_next_file_number e) kNextFileNumber (ve_next_file_number e) dst;
          dst = put_number (has_last_sequence e) kLastSequence (ve_last_sequence e) dst;
          dst = put_number (has_map_number e) kMapNumber (ve_map_number e) dst;
          dst = fold put_compact_pointer (compact_pointers e) dst;
          dst = fold put_deleted_file (deleted_files e) dst
      in fold put_new_file (new_files e) dst)"

subsection \<open>Parsing\<close>

definition GetInternalKey :: "bytes \<Rightarrow> (bytes \<times> bytes) option" where
  "GetInternalKey input = GetLengthPrefixedSlice input"

definition GetLevel :: "bytes \<Rightarrow> (nat \<times> bytes) option" where
  "GetLevel input =
     (case GetVarint32 input of
        Some (v, input) \<Rightarrow> if v < word_of_nat kNumLevels then Some (unat v, input) else None
      | None \<Rightarrow> None)"

text \<open>One turn of the parser's loop, after the tag: the message of a failure, or the rest of
  the input and the edit.\<close>

definition need :: "string \<Rightarrow> ('a \<times> bytes) option \<Rightarrow> ('a \<Rightarrow> VersionEdit) \<Rightarrow> string + bytes \<times> VersionEdit" where
  "need msg r f = (case r of None \<Rightarrow> Inl msg | Some (x, input) \<Rightarrow> Inr (input, f x))"

definition DecodeEntry :: "uint32 \<Rightarrow> bytes \<Rightarrow> VersionEdit \<Rightarrow> string + bytes \<times> VersionEdit" where
  "DecodeEntry tag input e =
     (if tag = kComparator then
        need ''comparator name'' (GetLengthPrefixedSlice input) (\<lambda>str. e\<lparr>ve_comparator := str, has_comparator := True\<rparr>)
      else if tag = kLogNumber then
        need ''log number'' (GetVarint64 input) (\<lambda>n. e\<lparr>ve_log_number := n, has_log_number := True\<rparr>)
      else if tag = kMapNumber then
        need ''map number'' (GetVarint64 input) (\<lambda>n. e\<lparr>ve_map_number := n, has_map_number := True\<rparr>)
      else if tag = kPrevLogNumber then
        need ''previous log number'' (GetVarint64 input) (\<lambda>n. e\<lparr>ve_prev_log_number := n, has_prev_log_number := True\<rparr>)
      else if tag = kNextFileNumber then
        need ''next file number'' (GetVarint64 input) (\<lambda>n. e\<lparr>ve_next_file_number := n, has_next_file_number := True\<rparr>)
      else if tag = kLastSequence then
        need ''last sequence number'' (GetVarint64 input) (\<lambda>n. e\<lparr>ve_last_sequence := n, has_last_sequence := True\<rparr>)
      else if tag = kCompactPointer then
        need ''compaction pointer''
          (do { (level, input) \<leftarrow> GetLevel input; (key, input) \<leftarrow> GetInternalKey input; Some ((level, key), input) })
          (\<lambda>p. e\<lparr>compact_pointers := compact_pointers e @ [p]\<rparr>)
      else if tag = kDeletedFile then
        need ''deleted file''
          (do { (level, input) \<leftarrow> GetLevel input; (num, input) \<leftarrow> GetVarint64 input; Some ((level, num), input) })
          (\<lambda>p. e\<lparr>deleted_files := del_insert p (deleted_files e)\<rparr>)
      else if tag = kNewFile then
        need ''new-file entry''
          (do {
             (level, input) \<leftarrow> GetLevel input;
             (num, input) \<leftarrow> GetVarint64 input;
             (fsize, input) \<leftarrow> GetVarint64 input;
             (small, input) \<leftarrow> GetInternalKey input;
             (large, input) \<leftarrow> GetInternalKey input;
             Some ((level, new_FileMetaData num fsize small large), input)
           })
          (\<lambda>p. e\<lparr>new_files := new_files e @ [p]\<rparr>)
      else Inl ''unknown tag'')"

lemma GetVarint64_shorter: "GetVarint64 p = Some (v, q) \<Longrightarrow> length q < length p"
proof -
  have "GetVarint64Loop k r p = Some (v, q) \<Longrightarrow> length q < length p" for k r
    by (induction k r p rule: GetVarint64Loop.induct) (fastforce simp: Let_def split: if_splits)+
  then show "GetVarint64 p = Some (v, q) \<Longrightarrow> length q < length p"
    by (simp add: GetVarint64_def GetVarint64Ptr_def)
qed

lemma DecodeEntry_shorter: "DecodeEntry tag input e = Inr (rest, e') \<Longrightarrow> length rest \<le> length input"
  unfolding DecodeEntry_def need_def GetLevel_def GetInternalKey_def
  by (auto simp: Let_def split: if_splits option.splits bind_splits
      dest!: GetVarint32_shorter GetVarint64_shorter GetLengthPrefixedSlice_shorter)

function DecodeLoop :: "bytes \<Rightarrow> VersionEdit \<Rightarrow> string option \<times> VersionEdit" where
  "DecodeLoop input e =
     (case GetVarint32 input of
        None \<Rightarrow> (if input \<noteq> [] then Some ''invalid tag'' else None, e)
      | Some (tag, input) \<Rightarrow>
          (case DecodeEntry tag input e of
             Inl msg \<Rightarrow> (Some msg, e)
           | Inr (input, e) \<Rightarrow> DecodeLoop input e))"
  by auto
termination
  by (relation "measure (\<lambda>(input, e). length input)")
    (auto dest!: GetVarint32_shorter DecodeEntry_shorter)

declare DecodeLoop.simps [simp del]

definition DecodeFrom :: "bytes \<Rightarrow> VersionEdit \<Rightarrow> Status \<times> VersionEdit" where
  "DecodeFrom src e =
     (case DecodeLoop src (Clear e) of
        (None, e) \<Rightarrow> (OK, e)
      | (Some msg, e) \<Rightarrow> (Corruption (lit ''VersionEdit'') (lit msg), e))"

section \<open>Encoding and parsing\<close>

text \<open>An edit as the sequence of its items.\<close>

datatype edit_item =
    Number uint32 uint64
  | Name bytes
  | Pointer "nat \<times> bytes"
  | Deleted "nat \<times> uint64"
  | New "nat \<times> FileMetaData"

fun enc_item :: "edit_item \<Rightarrow> bytes" where
  "enc_item (Number tag n) = EncodeVarint32 tag @ EncodeVarint64 n"
| "enc_item (Name name) = EncodeVarint32 kComparator @ PutLengthPrefixedSlice [] name"
| "enc_item (Pointer p) = put_compact_pointer p []"
| "enc_item (Deleted p) = put_deleted_file p []"
| "enc_item (New p) = put_new_file p []"

fun run_item :: "edit_item \<Rightarrow> VersionEdit \<Rightarrow> VersionEdit" where
  "run_item (Number tag n) e =
     (if tag = kLogNumber then e\<lparr>ve_log_number := n, has_log_number := True\<rparr>
      else if tag = kPrevLogNumber then e\<lparr>ve_prev_log_number := n, has_prev_log_number := True\<rparr>
      else if tag = kNextFileNumber then e\<lparr>ve_next_file_number := n, has_next_file_number := True\<rparr>
      else if tag = kLastSequence then e\<lparr>ve_last_sequence := n, has_last_sequence := True\<rparr>
      else e\<lparr>ve_map_number := n, has_map_number := True\<rparr>)"
| "run_item (Name name) e = e\<lparr>ve_comparator := name, has_comparator := True\<rparr>"
| "run_item (Pointer p) e = e\<lparr>compact_pointers := compact_pointers e @ [p]\<rparr>"
| "run_item (Deleted p) e = e\<lparr>deleted_files := del_insert p (deleted_files e)\<rparr>"
| "run_item (New p) e = e\<lparr>new_files := new_files e @ [p]\<rparr>"

fun item_ok :: "edit_item \<Rightarrow> bool" where
  "item_ok (Number tag n) = (tag \<in> {kLogNumber, kPrevLogNumber, kNextFileNumber, kLastSequence, kMapNumber})"
| "item_ok (Name name) = (length name < 2 ^ 32)"
| "item_ok (Pointer p) = (fst p < kNumLevels \<and> length (snd p) < 2 ^ 32)"
| "item_ok (Deleted p) = (fst p < kNumLevels)"
| "item_ok (New p) = (fst p < kNumLevels \<and> length (smallest (snd p)) < 2 ^ 32 \<and> length (largest (snd p)) < 2 ^ 32 \<and>
     fm_refs (snd p) = 0 \<and> allowed_seeks (snd p) = 2 ^ 30)"

definition opt_item :: "bool \<Rightarrow> edit_item \<Rightarrow> edit_item list" where
  "opt_item b x = (if b then [x] else [])"

definition edit_items :: "VersionEdit \<Rightarrow> edit_item list" where
  "edit_items e =
     opt_item (has_comparator e) (Name (ve_comparator e)) @ opt_item (has_log_number e) (Number kLogNumber (ve_log_number e)) @
     opt_item (has_prev_log_number e) (Number kPrevLogNumber (ve_prev_log_number e)) @
     opt_item (has_next_file_number e) (Number kNextFileNumber (ve_next_file_number e)) @
     opt_item (has_last_sequence e) (Number kLastSequence (ve_last_sequence e)) @
     opt_item (has_map_number e) (Number kMapNumber (ve_map_number e)) @
     map Pointer (compact_pointers e) @ map Deleted (deleted_files e) @ map New (new_files e)"

lemma put_appends:
  "put_compact_pointer p dst = dst @ put_compact_pointer p []" "put_deleted_file q dst = dst @ put_deleted_file q []"
  "put_new_file f dst = dst @ put_new_file f []" "put_number b t n dst = dst @ concat (map enc_item (opt_item b (Number t n)))"
  by (simp_all add: put_compact_pointer_def put_deleted_file_def put_new_file_def put_number_def opt_item_def Let_def
      PutVarint32_def PutVarint64_def PutLengthPrefixedSlice_def)

lemma fold_put:
  "(\<And>x dst. x \<in> set xs \<Longrightarrow> f x dst = dst @ g x) \<Longrightarrow> fold f xs dst = dst @ concat (map g xs)"
  by (induction xs arbitrary: dst) simp_all

lemma EncodeTo_items: "EncodeTo e dst = dst @ concat (map enc_item (edit_items e))"
proof -
  have "fold put_compact_pointer (compact_pointers e) d = d @ concat (map (enc_item \<circ> Pointer) (compact_pointers e))"
    "fold put_deleted_file (deleted_files e) d = d @ concat (map (enc_item \<circ> Deleted) (deleted_files e))"
    "fold put_new_file (new_files e) d = d @ concat (map (enc_item \<circ> New) (new_files e))" for d
    by (rule fold_put, simp, rule put_appends)+
  then show ?thesis
    unfolding EncodeTo_def Let_def edit_items_def
    by (subst (1 2 3 4 5) put_appends(4))
      (simp add: opt_item_def PutVarint32_def PutLengthPrefixedSlice_def)
qed

lemma GetLevel_Encode [simp]: "l < kNumLevels \<Longrightarrow> GetLevel (EncodeVarint32 (word_of_nat l) @ rest) = Some (l, rest)"
  by (simp add: GetLevel_def kNumLevels_def word_less_nat_alt)

lemma DecodeLoop_step:
  assumes "item_ok x"
  shows "DecodeLoop (enc_item x @ rest) e = DecodeLoop rest (run_item x e)"
proof (cases x)
  case (Number tag n)
  then show ?thesis
    using assms by (subst DecodeLoop.simps) (auto simp: DecodeEntry_def need_def tag_defs)
next
  case (Name name)
  then show ?thesis
    using assms by (subst DecodeLoop.simps) (simp add: DecodeEntry_def need_def)
next
  case (Pointer p)
  then show ?thesis
    using assms GetLengthPrefixedSlice_Put [of "snd p" rest]
    by (subst DecodeLoop.simps) (simp add: DecodeEntry_def need_def tag_defs put_compact_pointer_def PutVarint32_def
        PutLengthPrefixedSlice_def GetInternalKey_def)
next
  case (Deleted p)
  then show ?thesis
    using assms by (subst DecodeLoop.simps) (simp add: DecodeEntry_def need_def tag_defs put_deleted_file_def PutVarint32_def
        PutVarint64_def)
next
  case (New p)
  then obtain l r a n fs sm la where p: "p = (l, \<lparr>fm_refs = r, allowed_seeks = a, number = n, file_size = fs, smallest = sm, largest = la\<rparr>)"
    by (metis FileMetaData.cases old.unit.exhaust surj_pair)
  then show ?thesis
    using assms New GetLengthPrefixedSlice_Put [of sm "PutLengthPrefixedSlice [] la @ rest"] GetLengthPrefixedSlice_Put [of la rest]
    by (subst DecodeLoop.simps) (simp add: DecodeEntry_def need_def tag_defs put_new_file_def PutVarint32_def Let_def
        PutVarint64_def PutLengthPrefixedSlice_def GetInternalKey_def new_FileMetaData_def)
qed

lemma DecodeLoop_items:
  "\<forall>x \<in> set xs. item_ok x \<Longrightarrow> DecodeLoop (concat (map enc_item xs)) e = (None, fold run_item xs e)"
proof (induction xs arbitrary: e)
  case Nil
  show ?case
    by (subst DecodeLoop.simps) (simp add: GetVarint32_def GetVarint32Ptr_def)
qed (simp add: DecodeLoop_step)

text \<open>The edits the setters build: unset fields have their initial values.\<close>

definition edit_ok :: "VersionEdit \<Rightarrow> bool" where
  "edit_ok e \<longleftrightarrow>
     (\<forall>x \<in> set (edit_items e). item_ok x) \<and> sorted_wrt del_less (deleted_files e) \<and>
     (\<not> has_comparator e \<longrightarrow> ve_comparator e = []) \<and> (\<not> has_log_number e \<longrightarrow> ve_log_number e = 0) \<and>
     (\<not> has_map_number e \<longrightarrow> ve_map_number e = 0) \<and> (\<not> has_prev_log_number e \<longrightarrow> ve_prev_log_number e = 0) \<and>
     (\<not> has_next_file_number e \<longrightarrow> ve_next_file_number e = 0) \<and> (\<not> has_last_sequence e \<longrightarrow> ve_last_sequence e = 0)"

lemma del_insert_last: "\<forall>b \<in> set s. del_less b a \<Longrightarrow> del_insert a s = s @ [a]"
  by (induction s) (auto simp: del_less_def)

lemma fold_del_insert: "sorted_wrt del_less (s @ ds) \<Longrightarrow> fold del_insert ds s = s @ ds"
proof (induction ds arbitrary: s)
  case (Cons d ds)
  then have "del_insert d s = s @ [d]"
    by (intro del_insert_last) (simp add: sorted_wrt_append)
  with Cons show ?case by simp
qed simp

lemma fold_run_lists:
  "fold run_item (map Pointer ps) e = e\<lparr>compact_pointers := compact_pointers e @ ps\<rparr>"
  "fold run_item (map Deleted ds) e = e\<lparr>deleted_files := fold del_insert ds (deleted_files e)\<rparr>"
  "fold run_item (map New fs) e = e\<lparr>new_files := new_files e @ fs\<rparr>"
proof -
  show "fold run_item (map Pointer ps) e = e\<lparr>compact_pointers := compact_pointers e @ ps\<rparr>"
    by (induction ps arbitrary: e) simp_all
  show "fold run_item (map Deleted ds) e = e\<lparr>deleted_files := fold del_insert ds (deleted_files e)\<rparr>"
    by (induction ds arbitrary: e) simp_all
  show "fold run_item (map New fs) e = e\<lparr>new_files := new_files e @ fs\<rparr>"
    by (induction fs arbitrary: e) simp_all
qed

lemma fold_run_items:
  assumes "edit_ok e"
  shows "fold run_item (edit_items e) (Clear e0) = e\<lparr>compact_pointers := compact_pointers e0 @ compact_pointers e\<rparr>"
proof -
  have d: "fold del_insert (deleted_files e) [] = deleted_files e"
    using fold_del_insert [of "[]"] assms by (simp add: edit_ok_def)
  have u: "\<not> has_comparator e \<longrightarrow> ve_comparator e = []" "\<not> has_log_number e \<longrightarrow> ve_log_number e = 0"
    "\<not> has_map_number e \<longrightarrow> ve_map_number e = 0" "\<not> has_prev_log_number e \<longrightarrow> ve_prev_log_number e = 0"
    "\<not> has_next_file_number e \<longrightarrow> ve_next_file_number e = 0" "\<not> has_last_sequence e \<longrightarrow> ve_last_sequence e = 0"
    using assms by (simp_all add: edit_ok_def)
  show ?thesis
    unfolding edit_items_def fold_append comp_def fold_run_lists Clear_def opt_item_def
    using u d by (cases e) (simp add: tag_defs)
qed

section \<open>Properties\<close>

text \<open>(C33) A version edit survives its encoding: parsing the encoding of an edit into any
  edit object succeeds and gives the same edit, except that the compaction pointers the
  object already had stay in front, because \<^verbatim>\<open>Clear\<close> does not clear them.\<close>

theorem version_edit_roundtrip:
  assumes "edit_ok e"
  shows "DecodeFrom (EncodeTo e []) e0 = (OK, e\<lparr>compact_pointers := compact_pointers e0 @ compact_pointers e\<rparr>)"
  using assms DecodeLoop_items [of "edit_items e" "Clear e0"] fold_run_items [OF assms, of e0]
  by (simp add: DecodeFrom_def EncodeTo_items edit_ok_def)

theorem version_edit_roundtrip_witness:
  "let e = AddFile 1 7 100 [97, 1, 0, 0, 0, 0, 0, 0, 0] [98, 1, 0, 0, 0, 0, 0, 0, 0]
         (ve_DeleteFile 2 5 (ve_DeleteFile 0 6 (SetCompactPointer 1 [99] (SetLogNumber 4 new_VersionEdit))))
   in DecodeFrom (EncodeTo e []) e = (OK, e\<lparr>compact_pointers := [(1, [99]), (1, [99])]\<rparr>)"
proof -
  let ?e = "AddFile 1 7 100 [97, 1, 0, 0, 0, 0, 0, 0, 0] [98, 1, 0, 0, 0, 0, 0, 0, 0]
    (ve_DeleteFile 2 5 (ve_DeleteFile 0 6 (SetCompactPointer 1 [99] (SetLogNumber 4 new_VersionEdit))))"
  have "edit_ok ?e"
    by (simp add: edit_ok_def edit_items_def opt_item_def AddFile_def ve_DeleteFile_def SetCompactPointer_def SetLogNumber_def
        new_VersionEdit_def new_FileMetaData_def del_less_def kNumLevels_def)
  from version_edit_roundtrip [OF this, of ?e] show ?thesis
    by (simp add: Let_def AddFile_def ve_DeleteFile_def SetCompactPointer_def SetLogNumber_def new_VersionEdit_def)
qed

end
