(* ===== verification/FileLevels.thy ===== *)
theory FileLevels
  imports VersionEdit Entries Complex_Main
begin

text \<open>
  The files of a version (class \<^verbatim>\<open>Version\<close> of \<^verbatim>\<open>db/version_set.cc\<close>): the binary search over the
  files of a level, the overlap tests, the lookup through the levels and the seek
  statistics.  Files are values, not pointers: the reference counts of files and
  versions are not modelled, and an operation that changes a file returns the new
  one.  File counts are far below the range of the indices and kept as natural
  numbers.  What the table cache finds in a file is a parameter \<open>table_get\<close>: for the
  number and the size of a file and an internal key, the status and the entry that is
  passed to the callback, if any.
\<close>

section \<open>Definitions\<close>

fun insert_by :: "('a \<Rightarrow> 'a \<Rightarrow> bool) \<Rightarrow> 'a \<Rightarrow> 'a list \<Rightarrow> 'a list" where
  "insert_by lt x [] = [x]"
| "insert_by lt x (y # ys) = (if lt y x then y # insert_by lt x ys else x # y # ys)"

definition sort_by :: "('a \<Rightarrow> 'a \<Rightarrow> bool) \<Rightarrow> 'a list \<Rightarrow> 'a list" where
  "sort_by lt xs = foldr (insert_by lt) xs []"

definition kTargetFileSize :: uint64 where "kTargetFileSize = 2 * 1048576"
definition kMaxGrandParentOverlapBytes :: uint64 where "kMaxGrandParentOverlapBytes = 10 * kTargetFileSize"
definition kExpandedCompactionByteSizeLimit :: uint64 where
  "kExpandedCompactionByteSizeLimit = 25 * kTargetFileSize"

definition MaxFileSizeForLevel :: "nat \<Rightarrow> uint64" where
  "MaxFileSizeForLevel level = kTargetFileSize"

text \<open>The sum is a signed 64-bit number; its comparisons read it as such.\<close>

definition TotalFileSize :: "FileMetaData list \<Rightarrow> uint64" where
  "TotalFileSize files = foldl (\<lambda>sum f. sum + file_size f) 0 files"

subsection \<open>Searching a level\<close>

function FindFile_loop :: "comparator \<Rightarrow> FileMetaData list \<Rightarrow> bytes \<Rightarrow> nat \<Rightarrow> nat \<Rightarrow> nat" where
  "FindFile_loop icmp files key left right =
     (if left < right then
        let mid = (left + right) div 2 in
        if Compare icmp (largest (files ! mid)) key < 0 then FindFile_loop icmp files key (mid + 1) right
        else FindFile_loop icmp files key left mid
      else right)"
  by auto
termination
  by (relation "measure (\<lambda>(icmp, files, key, left, right). right - left)") auto

declare FindFile_loop.simps [simp del]

definition FindFile :: "comparator \<Rightarrow> FileMetaData list \<Rightarrow> bytes \<Rightarrow> nat" where
  "FindFile icmp files key = FindFile_loop icmp files key 0 (length files)"

definition AfterFile :: "comparator \<Rightarrow> bytes option \<Rightarrow> FileMetaData \<Rightarrow> bool" where
  "AfterFile ucmp ukey f \<longleftrightarrow>
     (case ukey of None \<Rightarrow> False | Some u \<Rightarrow> Compare ucmp u (ExtractUserKey (largest f)) > 0)"

definition BeforeFile :: "comparator \<Rightarrow> bytes option \<Rightarrow> FileMetaData \<Rightarrow> bool" where
  "BeforeFile ucmp ukey f \<longleftrightarrow>
     (case ukey of None \<Rightarrow> False | Some u \<Rightarrow> Compare ucmp u (ExtractUserKey (smallest f)) < 0)"

definition SomeFileOverlapsRange ::
    "comparator \<Rightarrow> bool \<Rightarrow> FileMetaData list \<Rightarrow> bytes option \<Rightarrow> bytes option \<Rightarrow> bool" where
  "SomeFileOverlapsRange ucmp disjoint_sorted_files files smallest_user_key largest_user_key =
     (if \<not> disjoint_sorted_files then
        list_ex (\<lambda>f. \<not> (AfterFile ucmp smallest_user_key f \<or> BeforeFile ucmp largest_user_key f)) files
      else
        let index = (case smallest_user_key of
                       None \<Rightarrow> 0
                     | Some u \<Rightarrow> FindFile (InternalKeyComparator ucmp) files
                                  (InternalKey u kMaxSequenceNumber kValueTypeForSeek))
        in if index \<ge> length files then False else \<not> BeforeFile ucmp largest_user_key (files ! index))"

subsection \<open>The iterator over the files of a level\<close>

definition level_iter_new :: "FileMetaData list \<Rightarrow> nat" where
  "level_iter_new flist = length flist"

definition level_iter_SeekToFirst :: nat where
  "level_iter_SeekToFirst = 0"

definition level_iter_Next :: "nat \<Rightarrow> nat" where
  "level_iter_Next index = index + 1"

definition level_iter_key :: "FileMetaData list \<Rightarrow> nat \<Rightarrow> bytes" where
  "level_iter_key flist index = largest (flist ! index)"

definition level_iter_Valid :: "FileMetaData list \<Rightarrow> nat \<Rightarrow> bool" where
  "level_iter_Valid flist index \<longleftrightarrow> index < length flist"

definition level_iter_Seek :: "comparator \<Rightarrow> FileMetaData list \<Rightarrow> bytes \<Rightarrow> nat" where
  "level_iter_Seek icmp flist target = FindFile icmp flist target"

definition level_iter_SeekToLast :: "FileMetaData list \<Rightarrow> nat" where
  "level_iter_SeekToLast flist = (if flist = [] then 0 else length flist - 1)"

definition level_iter_Prev :: "FileMetaData list \<Rightarrow> nat \<Rightarrow> nat" where
  "level_iter_Prev flist index = (if index = 0 then length flist else index - 1)"

definition level_iter_value :: "FileMetaData list \<Rightarrow> nat \<Rightarrow> bytes" where
  "level_iter_value flist index =
     EncodeFixed64 (number (flist ! index)) @ EncodeFixed64 (file_size (flist ! index))"

subsection \<open>Versions\<close>

record Version =
  vfiles :: "FileMetaData list list"
  stop_search :: bool
  file_to_compact :: "FileMetaData option"
  file_to_compact_level :: int
  compaction_level :: int
  compaction_score :: rat

text \<open>The files of level 0 that hold a user key, newest first, and the file of another
  level that can hold it.\<close>

definition NewestFirst :: "FileMetaData \<Rightarrow> FileMetaData \<Rightarrow> bool" where
  "NewestFirst a b \<longleftrightarrow> number a > number b"

definition level0_files :: "comparator \<Rightarrow> bytes \<Rightarrow> FileMetaData list \<Rightarrow> FileMetaData list" where
  "level0_files ucmp u fs =
     sort_by NewestFirst (filter (\<lambda>f. Compare ucmp u (ExtractUserKey (smallest f)) \<ge> 0 \<and>
                                      Compare ucmp u (ExtractUserKey (largest f)) \<le> 0) fs)"

definition level_files :: "comparator \<Rightarrow> bytes \<Rightarrow> bytes \<Rightarrow> FileMetaData list \<Rightarrow> FileMetaData list" where
  "level_files ucmp u ikey fs =
     (let index = FindFile (InternalKeyComparator ucmp) fs ikey in
      if index < length fs then
        if Compare ucmp u (ExtractUserKey (smallest (fs ! index))) < 0 then [] else [fs ! index]
      else [])"

definition search_files :: "comparator \<Rightarrow> bytes \<Rightarrow> bytes \<Rightarrow> Version \<Rightarrow> (nat \<times> FileMetaData) list" where
  "search_files ucmp u ikey v =
     concat (map (\<lambda>level. map (Pair level)
       (if level = 0 then level0_files ucmp u (vfiles v ! 0) else level_files ucmp u ikey (vfiles v ! level)))
       [0..<kNumLevels])"

text \<open>\<^verbatim>\<open>ForEachOverlapping\<close>; the callback changes a state and says whether to go on.\<close>

fun visit :: "(nat \<Rightarrow> FileMetaData \<Rightarrow> 's \<Rightarrow> bool \<times> 's) \<Rightarrow> (nat \<times> FileMetaData) list \<Rightarrow> 's \<Rightarrow> 's" where
  "visit func [] s = s"
| "visit func ((level, f) # fs) s = (let (go, s) = func level f s in if go then visit func fs s else s)"

definition ForEachOverlapping ::
    "comparator \<Rightarrow> Version \<Rightarrow> bytes \<Rightarrow> bytes \<Rightarrow> (nat \<Rightarrow> FileMetaData \<Rightarrow> 's \<Rightarrow> bool \<times> 's) \<Rightarrow> 's \<Rightarrow> 's" where
  "ForEachOverlapping ucmp v u ikey func s = visit func (search_files ucmp u ikey v) s"

subsection \<open>Lookups\<close>

datatype SaverState = kNotFound | kFound | kDeleted | kCorrupt

definition SaveValue :: "comparator \<Rightarrow> bytes \<Rightarrow> bytes \<times> bytes \<Rightarrow> SaverState \<times> bytes \<Rightarrow> SaverState \<times> bytes" where
  "SaveValue ucmp u kv s =
     (case ParseInternalKey (fst kv) of
        None \<Rightarrow> (kCorrupt, snd s)
      | Some parsed_key \<Rightarrow>
          if Compare ucmp (user_key parsed_key) u = 0 then
            if vtype parsed_key = kTypeValue then (kFound, snd kv) else (kDeleted, snd s)
          else s)"

type_synonym GetStats = "(FileMetaData \<times> int) option"

fun Get_loop ::
    "comparator \<Rightarrow> (uint64 \<Rightarrow> uint64 \<Rightarrow> bytes \<Rightarrow> Status \<times> (bytes \<times> bytes) option) \<Rightarrow> bytes \<Rightarrow> bytes \<Rightarrow>
     (nat \<times> FileMetaData) list \<Rightarrow> (FileMetaData \<times> int) option \<Rightarrow> GetStats \<Rightarrow> bytes \<Rightarrow> Status \<times> bytes \<times> GetStats" where
  "Get_loop ucmp table_get u ikey [] last_file_read stats value = (NotFound [] [], value, stats)"
| "Get_loop ucmp table_get u ikey ((level, f) # fs) last_file_read stats value =
     (let stats = (if last_file_read \<noteq> None \<and> stats = None then last_file_read else stats);
          (s, kv) = table_get (number f) (file_size f) ikey;
          (state, value) = (case kv of None \<Rightarrow> (kNotFound, value) | Some kv \<Rightarrow> SaveValue ucmp u kv (kNotFound, value))
      in
      if \<not> ok s then (s, value, stats)
      else case state of
        kNotFound \<Rightarrow> Get_loop ucmp table_get u ikey fs (Some (f, int level)) stats value
      | kFound \<Rightarrow> (s, value, stats)
      | kDeleted \<Rightarrow> (NotFound [] [], value, stats)
      | kCorrupt \<Rightarrow> (Corruption (lit ''corrupted key for '') u, value, stats))"

text \<open>\<^verbatim>\<open>Get\<close> gives up at the first level that has files when the search was terminated.\<close>

definition Version_Get ::
    "comparator \<Rightarrow> (uint64 \<Rightarrow> uint64 \<Rightarrow> bytes \<Rightarrow> Status \<times> (bytes \<times> bytes) option) \<Rightarrow> Version \<Rightarrow> LookupKey \<Rightarrow> bytes \<Rightarrow>
     Status \<times> bytes \<times> GetStats" where
  "Version_Get ucmp table_get v k value =
     (let ikey = internal_key k; u = lookup_user_key k in
      if stop_search v \<and> list_ex (\<lambda>level. vfiles v ! level \<noteq> []) [0..<kNumLevels] then (NotFound [] [], value, None)
      else Get_loop ucmp table_get u ikey (search_files ucmp u ikey v) None None value)"

definition SetTerminate :: "Version \<Rightarrow> Version" where "SetTerminate v = v\<lparr>stop_search := True\<rparr>"
definition ResetTerminate :: "Version \<Rightarrow> Version" where "ResetTerminate v = v\<lparr>stop_search := False\<rparr>"

subsection \<open>Seek statistics\<close>

text \<open>The result is the answer, the file with its new count, and the version.\<close>

definition UpdateStats :: "GetStats \<Rightarrow> Version \<Rightarrow> bool \<times> FileMetaData option \<times> Version" where
  "UpdateStats stats v =
     (case stats of
        None \<Rightarrow> (False, None, v)
      | Some (f, level) \<Rightarrow>
          let f = f\<lparr>allowed_seeks := allowed_seeks f - 1\<rparr> in
          if allowed_seeks f \<le> 0 \<and> file_to_compact v = None
          then (True, Some f, v\<lparr>file_to_compact := Some f, file_to_compact_level := level\<rparr>)
          else (False, Some f, v))"

definition Match :: "nat \<Rightarrow> FileMetaData \<Rightarrow> GetStats \<times> nat \<Rightarrow> bool \<times> GetStats \<times> nat" where
  "Match level f st =
     (let n = snd st + 1; stats = (if n = 1 then Some (f, int level) else fst st) in (n < 2, stats, n))"

definition RecordReadSample :: "comparator \<Rightarrow> bytes \<Rightarrow> Version \<Rightarrow> bool \<times> FileMetaData option \<times> Version" where
  "RecordReadSample ucmp ikey v =
     (case ParseInternalKey ikey of
        None \<Rightarrow> (False, None, v)
      | Some parsed \<Rightarrow>
          let (stats, n) = ForEachOverlapping ucmp v (user_key parsed) ikey Match (None, 0) in
          if n \<ge> 2 then UpdateStats stats v else (False, None, v))"

subsection \<open>Overlapping files\<close>

definition OverlapInLevel :: "comparator \<Rightarrow> Version \<Rightarrow> nat \<Rightarrow> bytes option \<Rightarrow> bytes option \<Rightarrow> bool" where
  "OverlapInLevel ucmp v level smallest_user_key largest_user_key =
     SomeFileOverlapsRange ucmp (level > 0) (vfiles v ! level) smallest_user_key largest_user_key"

text \<open>The loop of \<^verbatim>\<open>GetOverlappingInputs\<close> over the files that are left; at level 0 a file that
  widens the range starts it again.\<close>

partial_function (option) Overlapping_loop ::
    "comparator \<Rightarrow> bool \<Rightarrow> FileMetaData list \<Rightarrow> FileMetaData list \<Rightarrow> bytes option \<Rightarrow> bytes option \<Rightarrow> FileMetaData list \<Rightarrow>
     FileMetaData list option" where
  "Overlapping_loop ucmp level0 all fs user_begin user_end inputs =
     (case fs of
        [] \<Rightarrow> Some inputs
      | f # fs \<Rightarrow>
          let file_start = ExtractUserKey (smallest f); file_limit = ExtractUserKey (largest f) in
          if user_begin \<noteq> None \<and> Compare ucmp file_limit (the user_begin) < 0 then
            Overlapping_loop ucmp level0 all fs user_begin user_end inputs
          else if user_end \<noteq> None \<and> Compare ucmp file_start (the user_end) > 0 then
            Overlapping_loop ucmp level0 all fs user_begin user_end inputs
          else if level0 \<and> user_begin \<noteq> None \<and> Compare ucmp file_start (the user_begin) < 0 then
            Overlapping_loop ucmp level0 all all (Some file_start) user_end []
          else if level0 \<and> user_end \<noteq> None \<and> Compare ucmp file_limit (the user_end) > 0 then
            Overlapping_loop ucmp level0 all all user_begin (Some file_limit) []
          else Overlapping_loop ucmp level0 all fs user_begin user_end (inputs @ [f]))"

declare Overlapping_loop.simps [code]

definition GetOverlappingInputs ::
    "comparator \<Rightarrow> Version \<Rightarrow> nat \<Rightarrow> bytes option \<Rightarrow> bytes option \<Rightarrow> FileMetaData list option" where
  "GetOverlappingInputs ucmp v level kbegin kend =
     Overlapping_loop ucmp (level = 0) (vfiles v ! level) (vfiles v ! level)
       (map_option ExtractUserKey kbegin) (map_option ExtractUserKey kend) []"

partial_function (option) PickLevel_loop :: "comparator \<Rightarrow> Version \<Rightarrow> bytes \<Rightarrow> bytes \<Rightarrow> nat \<Rightarrow> nat option" where
  "PickLevel_loop ucmp v small large level =
     (if level < kMaxMemCompactLevel then
        if OverlapInLevel ucmp v (level + 1) (Some small) (Some large) then Some level
        else if level + 2 < kNumLevels then
          do {
            overlaps \<leftarrow> GetOverlappingInputs ucmp v (level + 2)
              (Some (InternalKey small kMaxSequenceNumber kValueTypeForSeek)) (Some (InternalKey large 0 kTypeDeletion));
            if sint (TotalFileSize overlaps) > sint kMaxGrandParentOverlapBytes then Some level
            else PickLevel_loop ucmp v small large (level + 1)
          }
        else PickLevel_loop ucmp v small large (level + 1)
      else Some level)"

declare PickLevel_loop.simps [code]

definition PickLevelForMemTableOutput :: "comparator \<Rightarrow> Version \<Rightarrow> bytes \<Rightarrow> bytes \<Rightarrow> nat option" where
  "PickLevelForMemTableOutput ucmp v small large =
     (if \<not> OverlapInLevel ucmp v 0 (Some small) (Some large) then PickLevel_loop ucmp v small large 0 else Some 0)"

section \<open>Files of a level\<close>

text \<open>A file spans the keys from its smallest to its largest; the files of a level above 0
  are disjoint and ascending.\<close>

definition file_ok :: "comparator \<Rightarrow> FileMetaData \<Rightarrow> bool" where
  "file_ok c f \<longleftrightarrow> 8 \<le> length (smallest f) \<and> 8 \<le> length (largest f) \<and>
     Compare (InternalKeyComparator c) (smallest f) (largest f) \<le> 0 \<and>
     key_tag (largest f) \<le> PackSequenceAndType kMaxSequenceNumber kValueTypeForSeek"

definition level_sorted :: "comparator \<Rightarrow> FileMetaData list \<Rightarrow> bool" where
  "level_sorted c fs \<longleftrightarrow> list_all (file_ok c) fs \<and>
     sorted_wrt (\<lambda>f g. Compare (InternalKeyComparator c) (largest f) (smallest g) < 0) fs"

definition overlaps :: "comparator \<Rightarrow> bytes option \<Rightarrow> bytes option \<Rightarrow> FileMetaData \<Rightarrow> bool" where
  "overlaps c b e f \<longleftrightarrow> \<not> AfterFile c b f \<and> \<not> BeforeFile c e f"

text \<open>Ranges of user keys, open where the bound is missing.\<close>

definition low_le :: "comparator \<Rightarrow> bytes option \<Rightarrow> bytes option \<Rightarrow> bool" where
  "low_le c x y \<longleftrightarrow> (case x of None \<Rightarrow> True | Some x \<Rightarrow> (case y of None \<Rightarrow> False | Some y \<Rightarrow> Compare c x y \<le> 0))"

definition high_le :: "comparator \<Rightarrow> bytes option \<Rightarrow> bytes option \<Rightarrow> bool" where
  "high_le c x y \<longleftrightarrow> (case y of None \<Rightarrow> True | Some y \<Rightarrow> (case x of None \<Rightarrow> False | Some x \<Rightarrow> Compare c x y \<le> 0))"

definition range_in :: "comparator \<Rightarrow> bytes option \<times> bytes option \<Rightarrow> bytes option \<times> bytes option \<Rightarrow> bool" where
  "range_in c r r' \<longleftrightarrow> low_le c (fst r') (fst r) \<and> high_le c (snd r) (snd r')"

definition file_range :: "FileMetaData \<Rightarrow> bytes option \<times> bytes option" where
  "file_range f = (Some (ExtractUserKey (smallest f)), Some (ExtractUserKey (largest f)))"

text \<open>A range that cuts no file: what overlaps it lies inside.\<close>

definition range_closed :: "comparator \<Rightarrow> FileMetaData list \<Rightarrow> bytes option \<times> bytes option \<Rightarrow> bool" where
  "range_closed c fs r \<longleftrightarrow> (\<forall>f \<in> set fs. overlaps c (fst r) (snd r) f \<longrightarrow> range_in c (file_range f) r)"

text \<open>The least range around \<open>r\<close> that cuts no file.\<close>

definition closure_of :: "comparator \<Rightarrow> FileMetaData list \<Rightarrow> bytes option \<times> bytes option \<Rightarrow> bytes option \<times> bytes option \<Rightarrow> bool" where
  "closure_of c all r r' \<longleftrightarrow> range_closed c all r' \<and> range_in c r r' \<and>
     (\<forall>r1. range_closed c all r1 \<longrightarrow> range_in c r r1 \<longrightarrow> range_in c r' r1)"

text \<open>A memtable may be written to a level above 0 when no file of the level overlaps it
  and not too many bytes of the next level do.\<close>

definition may_place :: "comparator \<Rightarrow> Version \<Rightarrow> bytes \<Rightarrow> bytes \<Rightarrow> nat \<Rightarrow> bool" where
  "may_place c v small large l \<longleftrightarrow> list_all (\<lambda>f. \<not> overlaps c (Some small) (Some large) f) (vfiles v ! l) \<and>
     sint (TotalFileSize (filter (overlaps c (Some small) (Some large)) (vfiles v ! (l + 1)))) \<le> sint kMaxGrandParentOverlapBytes"

section \<open>Lemmas\<close>

lemma FindFile_loop_eq:
  assumes mono: "\<And>i j. i < j \<Longrightarrow> j < length fs \<Longrightarrow> Compare icmp (largest (fs ! j)) key < 0 \<Longrightarrow>
      Compare icmp (largest (fs ! i)) key < 0"
    and n: "n = length (takeWhile (\<lambda>f. Compare icmp (largest f) key < 0) fs)"
  shows "left \<le> n \<Longrightarrow> n \<le> right \<Longrightarrow> right \<le> length fs \<Longrightarrow> FindFile_loop icmp fs key left right = n"
proof (induction "right - left" arbitrary: left right rule: less_induct)
  case less
  let ?P = "\<lambda>f. Compare icmp (largest f) key < 0"
  let ?mid = "(left + right) div 2"
  show ?case
  proof (cases "left < right")
    case True
    then have mid: "left \<le> ?mid" "?mid < right"
      by auto
    have below: "?P (fs ! ?mid)" if "?mid < n"
      using that n nth_mem [of ?mid "takeWhile ?P fs"] set_takeWhileD [of "fs ! ?mid" ?P fs]
      by (auto simp: takeWhile_nth)
    have above: "\<not> ?P (fs ! ?mid)" if "n \<le> ?mid"
    proof
      assume P: "?P (fs ! ?mid)"
      have "n < length fs"
        using that mid less.prems by linarith
      then have "\<not> ?P (fs ! n)"
        using nth_length_takeWhile [of ?P fs] n by simp
      with P that have "n < ?mid"
        by (metis le_neq_implies_less)
      with mono [of n ?mid] P \<open>\<not> ?P (fs ! n)\<close> mid less.prems show False
        by linarith
    qed
    show ?thesis
    proof (cases "?mid < n")
      case True
      then have "FindFile_loop icmp fs key (?mid + 1) right = n"
        using less.prems mid by (intro less.hyps) auto
      with True below \<open>left < right\<close> show ?thesis
        by (subst FindFile_loop.simps) (simp add: Let_def)
    next
      case False
      then have "FindFile_loop icmp fs key left ?mid = n"
        using less.prems mid by (intro less.hyps) auto
      with False above \<open>left < right\<close> show ?thesis
        by (subst FindFile_loop.simps) (simp add: Let_def)
    qed
  next
    case False
    with less.prems show ?thesis
      by (subst FindFile_loop.simps) simp
  qed
qed

context user_comparator
begin

abbreviation icmp :: "bytes \<Rightarrow> bytes \<Rightarrow> int" where
  "icmp \<equiv> Compare (InternalKeyComparator c)"

lemma user_key_mono:
  assumes "8 \<le> length a" "8 \<le> length b" "icmp a b \<le> 0"
  shows "Compare c (ExtractUserKey a) (ExtractUserKey b) \<le> 0"
proof -
  obtain u x v y where "a = u @ EncodeFixed64 x" "b = v @ EncodeFixed64 y"
    by (meson assms key_cases)
  with assms(3) show ?thesis
    by (auto simp: cmp_simps split: if_splits)
qed

lemma before_first_key:
  assumes "8 \<le> length a" "key_tag a \<le> PackSequenceAndType kMaxSequenceNumber kValueTypeForSeek"
  shows "icmp a (InternalKey u kMaxSequenceNumber kValueTypeForSeek) < 0 \<longleftrightarrow> Compare c (ExtractUserKey a) u < 0"
proof -
  obtain v y where "a = v @ EncodeFixed64 y"
    by (meson assms(1) key_cases)
  with assms(2) show ?thesis
    by (auto simp: InternalKey_eq cmp_simps)
qed

lemma level_sorted_nth:
  assumes "level_sorted c fs" "i < j" "j < length fs"
  shows "icmp (largest (fs ! i)) (smallest (fs ! j)) < 0" "file_ok c (fs ! i)" "file_ok c (fs ! j)"
    "icmp (largest (fs ! i)) (largest (fs ! j)) < 0"
proof -
  show 1: "icmp (largest (fs ! i)) (smallest (fs ! j)) < 0" and 2: "file_ok c (fs ! i)" and 3: "file_ok c (fs ! j)"
    using assms by (auto simp: level_sorted_def sorted_wrt_iff_nth_less list_all_length)
  show "icmp (largest (fs ! i)) (largest (fs ! j)) < 0"
    using 1 2 3 ikey.cmp_less_le_trans [of "largest (fs ! i)" "smallest (fs ! j)" "largest (fs ! j)"]
    by (simp add: file_ok_def)
qed

lemma FindFile_eq:
  assumes fs: "level_sorted c fs" and key: "8 \<le> length key"
  shows "FindFile (InternalKeyComparator c) fs key = length (takeWhile (\<lambda>f. icmp (largest f) key < 0) fs)"
  unfolding FindFile_def
proof (rule FindFile_loop_eq)
  fix i j
  assume "i < j" "j < length fs" "icmp (largest (fs ! j)) key < 0"
  with level_sorted_nth [OF fs this(1,2)] show "icmp (largest (fs ! i)) key < 0"
    using ikey.cmp_trans [of "largest (fs ! i)" "largest (fs ! j)" key] key by (simp add: file_ok_def)
qed (simp_all add: length_takeWhile_le)

lemma overlaps_iff:
  "overlaps c b e f \<longleftrightarrow>
     \<not> (b \<noteq> None \<and> Compare c (ExtractUserKey (largest f)) (the b) < 0) \<and>
     \<not> (e \<noteq> None \<and> Compare c (ExtractUserKey (smallest f)) (the e) > 0)"
  using cmp_anti cmp_gt by (auto simp: overlaps_def AfterFile_def BeforeFile_def split: option.splits)

lemma SomeFileOverlapsRange_unsorted:
  "SomeFileOverlapsRange c False fs b e \<longleftrightarrow> (\<exists>f \<in> set fs. overlaps c b e f)"
  by (auto simp: SomeFileOverlapsRange_def overlaps_def list_ex_iff)

lemma BeforeFile_mono:
  assumes "level_sorted c fs" "i < j" "j < length fs" "BeforeFile c e (fs ! i)"
  shows "BeforeFile c e (fs ! j)"
proof -
  note s = level_sorted_nth [OF assms(1-3)]
  have "icmp (smallest (fs ! i)) (smallest (fs ! j)) \<le> 0"
    using s ikey.cmp_le_less_trans [of "smallest (fs ! i)" "largest (fs ! i)" "smallest (fs ! j)"] by (simp add: file_ok_def)
  then have "Compare c (ExtractUserKey (smallest (fs ! i))) (ExtractUserKey (smallest (fs ! j))) \<le> 0"
    using s by (intro user_key_mono) (simp_all add: file_ok_def)
  then show ?thesis
    using assms(4) cmp_less_le_trans by (auto simp: BeforeFile_def split: option.splits)
qed

lemma SomeFileOverlapsRange_sorted:
  assumes fs: "level_sorted c fs"
  shows "SomeFileOverlapsRange c True fs b e \<longleftrightarrow> (\<exists>f \<in> set fs. overlaps c b e f)"
proof -
  let ?P = "AfterFile c b"
  define n where "n = length (takeWhile ?P fs)"
  have index: "(case b of None \<Rightarrow> 0 | Some u \<Rightarrow> FindFile (InternalKeyComparator c) fs
      (InternalKey u kMaxSequenceNumber kValueTypeForSeek)) = n"
  proof (cases b)
    case None
    then show ?thesis by (cases fs) (simp_all add: n_def AfterFile_def)
  next
    case (Some u)
    have "icmp (largest f) (InternalKey u kMaxSequenceNumber kValueTypeForSeek) < 0 \<longleftrightarrow> ?P f" if "f \<in> set fs" for f
      using that fs before_first_key [of "largest f" u] cmp_anti [of "ExtractUserKey (largest f)" u] Some
      by (simp add: AfterFile_def level_sorted_def list_all_iff file_ok_def)
    then have "takeWhile (\<lambda>f. icmp (largest f) (InternalKey u kMaxSequenceNumber kValueTypeForSeek) < 0) fs = takeWhile ?P fs"
      by (intro takeWhile_cong) auto
    then show ?thesis
      using FindFile_eq [OF fs, of "InternalKey u kMaxSequenceNumber kValueTypeForSeek"] Some by (simp add: n_def)
  qed
  have "(\<exists>f \<in> set fs. overlaps c b e f) \<longleftrightarrow> n < length fs \<and> \<not> BeforeFile c e (fs ! n)"
  proof
    assume "\<exists>f \<in> set fs. overlaps c b e f"
    then obtain j where j: "j < length fs" "\<not> ?P (fs ! j)" "\<not> BeforeFile c e (fs ! j)"
      by (auto simp: in_set_conv_nth overlaps_def)
    have "n \<le> j"
    proof (rule ccontr)
      assume "\<not> n \<le> j"
      then have "fs ! j \<in> set (takeWhile ?P fs)"
        by (metis n_def not_le nth_mem takeWhile_nth)
      then show False
        using j(2) by (auto dest: set_takeWhileD)
    qed
    with j BeforeFile_mono [OF fs, of n j e] show "n < length fs \<and> \<not> BeforeFile c e (fs ! n)"
      by (cases "n = j") auto
  next
    assume "n < length fs \<and> \<not> BeforeFile c e (fs ! n)"
    then show "\<exists>f \<in> set fs. overlaps c b e f"
      using nth_length_takeWhile [of ?P fs] by (auto simp: n_def overlaps_def intro!: bexI [OF _ nth_mem])
  qed
  then show ?thesis
    by (auto simp: SomeFileOverlapsRange_def index)
qed

lemma Overlapping_loop_Nil: "Overlapping_loop c l all [] b e inputs = Some inputs"
  by (subst Overlapping_loop.simps) simp

lemma Overlapping_loop_Cons:
  "Overlapping_loop c l all (f # fs) b e inputs =
     (if \<not> overlaps c b e f then Overlapping_loop c l all fs b e inputs
      else if l \<and> b \<noteq> None \<and> Compare c (ExtractUserKey (smallest f)) (the b) < 0 then
        Overlapping_loop c l all all (fst (file_range f)) e []
      else if l \<and> e \<noteq> None \<and> Compare c (ExtractUserKey (largest f)) (the e) > 0 then
        Overlapping_loop c l all all b (snd (file_range f)) []
      else Overlapping_loop c l all fs b e (inputs @ [f]))"
proof (cases "overlaps c b e f")
  case True
  then have 1: "\<not> (b \<noteq> None \<and> Compare c (ExtractUserKey (largest f)) (the b) < 0)"
    "\<not> (e \<noteq> None \<and> Compare c (ExtractUserKey (smallest f)) (the e) > 0)"
    by (simp_all add: overlaps_iff)
  show ?thesis
    by (subst Overlapping_loop.simps) (simp only: Let_def list.case 1 if_False True not_True_eq_False file_range_def fst_conv snd_conv)
next
  case False
  then show ?thesis
    by (subst Overlapping_loop.simps) (auto simp: Let_def overlaps_iff)
qed

lemma Overlapping_level:
  "Overlapping_loop c False all fs b e inputs = Some (inputs @ filter (overlaps c b e) fs)"
  by (induction fs arbitrary: inputs) (simp_all add: Overlapping_loop_Nil Overlapping_loop_Cons)

lemma low_le_trans: "low_le c x y \<Longrightarrow> low_le c y z \<Longrightarrow> low_le c x z"
  using cmp_le_trans by (auto simp: low_le_def split: option.splits)

lemma high_le_trans: "high_le c x y \<Longrightarrow> high_le c y z \<Longrightarrow> high_le c x z"
  using cmp_le_trans by (auto simp: high_le_def split: option.splits)

lemma range_in_trans: "range_in c r s \<Longrightarrow> range_in c s t \<Longrightarrow> range_in c r t"
  using low_le_trans high_le_trans by (auto simp: range_in_def)

lemma range_in_refl: "range_in c r r"
  using cmp_refl by (auto simp: range_in_def low_le_def high_le_def split: option.splits)

lemma overlaps_mono:
  assumes "overlaps c (fst r) (snd r) f" "range_in c r r'"
  shows "overlaps c (fst r') (snd r') f"
proof -
  obtain b e b' e' where r: "r = (b, e)" "r' = (b', e')"
    by (metis surj_pair)
  have "\<not> AfterFile c b' f"
  proof (cases b')
    case (Some x')
    then obtain x where x: "b = Some x" "Compare c x' x \<le> 0"
      using assms(2) by (auto simp: r range_in_def low_le_def split: option.splits)
    then have "Compare c x (ExtractUserKey (largest f)) \<le> 0"
      using assms(1) by (simp add: r overlaps_def AfterFile_def)
    then have "Compare c x' (ExtractUserKey (largest f)) \<le> 0"
      using cmp_le_trans [OF TrueI TrueI TrueI x(2)] by simp
    with Some show ?thesis
      by (simp add: AfterFile_def)
  qed (simp add: AfterFile_def)
  moreover have "\<not> BeforeFile c e' f"
  proof (cases e')
    case (Some y')
    then obtain y where y: "e = Some y" "Compare c y y' \<le> 0"
      using assms(2) by (auto simp: r range_in_def high_le_def split: option.splits)
    then have "\<not> Compare c y (ExtractUserKey (smallest f)) < 0"
      using assms(1) by (simp add: r overlaps_def BeforeFile_def)
    then have "\<not> Compare c y' (ExtractUserKey (smallest f)) < 0"
      using cmp_le_less_trans [OF TrueI TrueI TrueI y(2)] by auto
    with Some show ?thesis
      by (simp add: BeforeFile_def)
  qed (simp add: BeforeFile_def)
  ultimately show ?thesis
    by (simp add: r overlaps_def)
qed

text \<open>How many files reach out of a range: the loop starts again at most so often.\<close>

definition reach_out :: "FileMetaData list \<Rightarrow> bytes option \<Rightarrow> bytes option \<Rightarrow> nat" where
  "reach_out all b e =
     card {f \<in> set all. b \<noteq> None \<and> Compare c (ExtractUserKey (smallest f)) (the b) < 0} +
     card {f \<in> set all. e \<noteq> None \<and> Compare c (ExtractUserKey (largest f)) (the e) > 0}"

lemma reach_out_begin:
  assumes "f \<in> set all" "Compare c (ExtractUserKey (smallest f)) b < 0"
  shows "reach_out all (Some (ExtractUserKey (smallest f))) e < reach_out all (Some b) e"
proof -
  let ?S = "\<lambda>b. {g \<in> set all. Compare c (ExtractUserKey (smallest g)) b < 0}"
  have "?S (ExtractUserKey (smallest f)) \<subset> ?S b"
  proof
    show "?S (ExtractUserKey (smallest f)) \<subseteq> ?S b"
      using cmp_trans [OF TrueI TrueI TrueI _ assms(2)] by auto
    have "f \<in> ?S b" "f \<notin> ?S (ExtractUserKey (smallest f))"
      using assms cmp_refl [of "ExtractUserKey (smallest f)"] by auto
    then show "?S (ExtractUserKey (smallest f)) \<noteq> ?S b"
      by blast
  qed
  then have "card (?S (ExtractUserKey (smallest f))) < card (?S b)"
    by (intro psubset_card_mono) auto
  then show ?thesis
    by (simp add: reach_out_def)
qed

lemma reach_out_end:
  assumes "f \<in> set all" "Compare c (ExtractUserKey (largest f)) e > 0"
  shows "reach_out all b (Some (ExtractUserKey (largest f))) < reach_out all b (Some e)"
proof -
  let ?S = "\<lambda>e. {g \<in> set all. Compare c (ExtractUserKey (largest g)) e > 0}"
  have "?S (ExtractUserKey (largest f)) \<subset> ?S e"
  proof
    show "?S (ExtractUserKey (largest f)) \<subseteq> ?S e"
      using cmp_trans [OF TrueI TrueI TrueI assms(2) [unfolded cmp_gt [OF TrueI TrueI]]] by (auto simp: cmp_gt)
    have "f \<in> ?S e" "f \<notin> ?S (ExtractUserKey (largest f))"
      using assms cmp_refl [of "ExtractUserKey (largest f)"] by auto
    then show "?S (ExtractUserKey (largest f)) \<noteq> ?S e"
      by blast
  qed
  then have "card (?S (ExtractUserKey (largest f))) < card (?S e)"
    by (intro psubset_card_mono) auto
  then show ?thesis
    by (simp add: reach_out_def)
qed

lemma closure_of_step:
  assumes f: "f \<in> set all" "overlaps c (fst r) (snd r) f" and r': "range_in c r r'"
    and least: "\<And>r1. range_in c r r1 \<Longrightarrow> range_in c (file_range f) r1 \<Longrightarrow> range_in c r' r1"
    and cl: "closure_of c all r' r''"
  shows "closure_of c all r r''"
  unfolding closure_of_def
proof (intro conjI allI impI)
  show "range_closed c all r''" "range_in c r r''"
    using cl range_in_trans [OF r'] by (auto simp: closure_of_def)
  fix r1
  assume r1: "range_closed c all r1" "range_in c r r1"
  then have "range_in c (file_range f) r1"
    using overlaps_mono [OF f(2) r1(2)] f(1) by (auto simp: range_closed_def)
  with r1 cl least [of r1] show "range_in c r'' r1"
    unfolding closure_of_def by blast
qed

lemma Overlapping_level0:
  assumes "all = seen @ fs" "inputs = filter (overlaps c b e) seen" "\<forall>f \<in> set inputs. range_in c (file_range f) (b, e)"
  shows "\<exists>r. Overlapping_loop c True all fs b e inputs = Some (filter (overlaps c (fst r) (snd r)) all) \<and>
    closure_of c all (b, e) r"
  using assms
proof (induction "reach_out all b e" arbitrary: b e fs seen inputs rule: less_induct)
  case less
  note restart = less.hyps [of _ _ "[]" all "[]", simplified]
  from less.prems show ?case
  proof (induction fs arbitrary: seen inputs)
    case Nil
    then show ?case
      using range_in_refl by (intro exI [of _ "(b, e)"]) (auto simp: Overlapping_loop_Nil closure_of_def range_closed_def)
  next
    case (Cons f fs)
    have mem: "f \<in> set all"
      using Cons.prems by simp
    consider "\<not> overlaps c b e f" | x where "overlaps c b e f" "b = Some x" "Compare c (ExtractUserKey (smallest f)) x < 0"
      | y where "overlaps c b e f" "\<not> (b \<noteq> None \<and> Compare c (ExtractUserKey (smallest f)) (the b) < 0)" "e = Some y"
        "Compare c (ExtractUserKey (largest f)) y > 0"
      | "overlaps c b e f" "\<not> (b \<noteq> None \<and> Compare c (ExtractUserKey (smallest f)) (the b) < 0)"
        "\<not> (e \<noteq> None \<and> Compare c (ExtractUserKey (largest f)) (the e) > 0)"
      by fastforce
    then show ?case
    proof cases
      case 1
      then show ?thesis
        using Cons.IH [of "seen @ [f]" inputs] Cons.prems by (simp add: Overlapping_loop_Cons)
    next
      case (2 x)
      let ?r' = "(fst (file_range f), e)"
      obtain r where r: "Overlapping_loop c True all all (fst ?r') e [] = Some (filter (overlaps c (fst r) (snd r)) all)"
        "closure_of c all ?r' r"
        using restart [of "fst ?r'" e] reach_out_begin [OF mem 2(3), of e] 2(2) by (auto simp: file_range_def)
      have "closure_of c all (b, e) r"
      proof (rule closure_of_step [OF mem _ _ _ r(2)])
        show "range_in c (b, e) ?r'"
          using 2 range_in_refl [of "(b, e)"] by (simp add: range_in_def low_le_def file_range_def)
      qed (use 2 in \<open>auto simp: range_in_def\<close>)
      with r 2 show ?thesis
        by (intro exI [of _ r]) (simp add: Overlapping_loop_Cons)
    next
      case (3 y)
      let ?r' = "(b, snd (file_range f))"
      obtain r where r: "Overlapping_loop c True all all b (snd ?r') [] = Some (filter (overlaps c (fst r) (snd r)) all)"
        "closure_of c all ?r' r"
        using restart [of b "snd ?r'"] reach_out_end [OF mem 3(4), of b] 3(3) by (auto simp: file_range_def)
      have "closure_of c all (b, e) r"
      proof (rule closure_of_step [OF mem _ _ _ r(2)])
        show "range_in c (b, e) ?r'"
          using 3 range_in_refl [of "(b, e)"] cmp_gt [of "ExtractUserKey (largest f)" y]
          by (simp add: range_in_def high_le_def file_range_def)
      qed (use 3 in \<open>auto simp: range_in_def\<close>)
      with r 3 show ?thesis
        by (intro exI [of _ r]) (auto simp: Overlapping_loop_Cons)
    next
      case 4
      then have "range_in c (file_range f) (b, e)"
        using cmp_le [of "the b" "ExtractUserKey (smallest f)"]
        by (auto simp: range_in_def file_range_def low_le_def high_le_def split: option.splits)
      with 4 show ?thesis
        using Cons.IH [of "seen @ [f]" "inputs @ [f]"] Cons.prems by (auto simp: Overlapping_loop_Cons)
    qed
  qed
qed

lemma GetOverlappingInputs_ok:
  "\<exists>r. GetOverlappingInputs c v level kbegin kend = Some (filter (overlaps c (fst r) (snd r)) (vfiles v ! level)) \<and>
     (if level = 0 then closure_of c (vfiles v ! 0) (map_option ExtractUserKey kbegin, map_option ExtractUserKey kend) r
      else r = (map_option ExtractUserKey kbegin, map_option ExtractUserKey kend))"
proof (cases "level = 0")
  case True
  then show ?thesis
    using Overlapping_level0 [of "vfiles v ! 0" "[]" "vfiles v ! 0" "[]"] by (simp add: GetOverlappingInputs_def)
next
  case False
  then show ?thesis
    using Overlapping_level by (simp add: GetOverlappingInputs_def)
qed

lemma OverlapInLevel_iff:
  assumes "level > 0 \<Longrightarrow> level_sorted c (vfiles v ! level)"
  shows "OverlapInLevel c v level b e \<longleftrightarrow> (\<exists>f \<in> set (vfiles v ! level). overlaps c b e f)"
  using assms SomeFileOverlapsRange_sorted SomeFileOverlapsRange_unsorted
  by (cases "level = 0") (simp_all add: OverlapInLevel_def)

lemma PickLevel_loop_ok:
  assumes sorted: "\<And>l. 0 < l \<Longrightarrow> l < kNumLevels \<Longrightarrow> level_sorted c (vfiles v ! l)"
  shows "level \<le> kMaxMemCompactLevel \<Longrightarrow> \<exists>r. PickLevel_loop c v small large level = Some r \<and> level \<le> r \<and> r \<le> kMaxMemCompactLevel \<and>
    (\<forall>l. level < l \<longrightarrow> l \<le> r \<longrightarrow> may_place c v small large l) \<and>
    (r < kMaxMemCompactLevel \<longrightarrow> \<not> may_place c v small large (r + 1))"
proof (induction "kMaxMemCompactLevel - level" arbitrary: level)
  case 0
  then show ?case
    by (subst PickLevel_loop.simps) auto
next
  case (Suc n)
  let ?F = "filter (overlaps c (Some small) (Some large)) (vfiles v ! (level + 2))"
  let ?stop = "OverlapInLevel c v (level + 1) (Some small) (Some large) \<or> sint (TotalFileSize ?F) > sint kMaxGrandParentOverlapBytes"
  have lt: "level < kMaxMemCompactLevel" "level + 2 < kNumLevels"
    using Suc.hyps(2) by (auto simp: kMaxMemCompactLevel_def kNumLevels_def)
  have "OverlapInLevel c v (level + 1) (Some small) (Some large) \<longleftrightarrow>
      (\<exists>f \<in> set (vfiles v ! (level + 1)). overlaps c (Some small) (Some large) f)"
    using sorted lt by (intro OverlapInLevel_iff) auto
  then have ov: "\<not> ?stop \<longleftrightarrow> may_place c v small large (level + 1)"
    by (auto simp: may_place_def not_less list_all_iff)
  have "GetOverlappingInputs c v (level + 2)
      (Some (InternalKey small kMaxSequenceNumber kValueTypeForSeek)) (Some (InternalKey large 0 kTypeDeletion)) = Some ?F"
    by (simp add: GetOverlappingInputs_def Overlapping_level)
  then have step: "PickLevel_loop c v small large level =
      (if ?stop then Some level else PickLevel_loop c v small large (level + 1))"
    using lt by (subst PickLevel_loop.simps) simp
  have "n = kMaxMemCompactLevel - (level + 1)" "level + 1 \<le> kMaxMemCompactLevel"
    using Suc.hyps(2) lt by auto
  then obtain r where r: "PickLevel_loop c v small large (level + 1) = Some r" "level + 1 \<le> r" "r \<le> kMaxMemCompactLevel"
    "\<forall>l. level + 1 < l \<longrightarrow> l \<le> r \<longrightarrow> may_place c v small large l"
    "r < kMaxMemCompactLevel \<longrightarrow> \<not> may_place c v small large (r + 1)"
    using Suc.hyps(1) [of "level + 1"] by blast
  show ?case
  proof (cases ?stop)
    case True
    then show ?thesis
      using lt ov by (simp add: step)
  next
    case False
    have "may_place c v small large l" if "level < l" "l \<le> r" for l
      using that r(4) ov False by (cases "l = level + 1") auto
    with False r show ?thesis
      by (intro exI [of _ r]) (simp add: step)
  qed
qed

end

section \<open>Lookups\<close>

text \<open>The contents of a table file, and what a lookup in it hands to the callback: the first
  entry at or after the key, or nothing when the file has no entry for a reader of the
  key (a filter may say so).\<close>

fun entry_value :: "entry \<Rightarrow> bytes" where
  "entry_value (u, s, t, v) = v"

fun entry_seq :: "entry \<Rightarrow> SequenceNumber" where
  "entry_seq (u, s, t, v) = s"

type_synonym table_get = "uint64 \<Rightarrow> uint64 \<Rightarrow> bytes \<Rightarrow> Status \<times> (bytes \<times> bytes) option"

definition reads_file :: "table_get \<Rightarrow> (uint64 \<Rightarrow> entry list) \<Rightarrow> FileMetaData \<Rightarrow> bytes \<Rightarrow> SequenceNumber \<Rightarrow> bool" where
  "reads_file tget content f u s \<longleftrightarrow>
     (case tget (number f) (file_size f) (InternalKey u s kValueTypeForSeek) of
        (st, None) \<Rightarrow> st = OK \<and> list_all (\<lambda>e. \<not> visible u s e) (content (number f))
      | (st, Some kv) \<Rightarrow> st = OK \<and>
          (case seek_entries (InternalKey u s kValueTypeForSeek) (content (number f)) of
             [] \<Rightarrow> False | e # _ \<Rightarrow> kv = (entry_key e, entry_value e)))"

definition file_holds :: "(uint64 \<Rightarrow> entry list) \<Rightarrow> FileMetaData \<Rightarrow> bool" where
  "file_holds content f \<longleftrightarrow>
     (let es = content (number f) in
      entries_sorted es \<and> es \<noteq> [] \<and> smallest f = entry_key (hd es) \<and> largest f = entry_key (last es))"

text \<open>Everything in the first list is newer than what the second has of the same user key.\<close>

definition newer_entries :: "entry list \<Rightarrow> entry list \<Rightarrow> bool" where
  "newer_entries es es' \<longleftrightarrow> list_all (\<lambda>e. list_all (\<lambda>e'. fst e = fst e' \<longrightarrow> entry_seq e' < entry_seq e) es') es"

definition version_ok :: "(uint64 \<Rightarrow> entry list) \<Rightarrow> Version \<Rightarrow> bool" where
  "version_ok content v \<longleftrightarrow>
     length (vfiles v) = kNumLevels \<and> list_all (list_all (file_holds content)) (vfiles v) \<and>
     list_all (level_sorted BytewiseComparator) (tl (vfiles v)) \<and>
     list_all (\<lambda>f. list_all (\<lambda>g. number g < number f \<longrightarrow> newer_entries (content (number f)) (content (number g)))
       (vfiles v ! 0)) (vfiles v ! 0) \<and> distinct (map number (vfiles v ! 0)) \<and>
     sorted_wrt (\<lambda>fs gs. list_all (\<lambda>f. list_all (\<lambda>g. newer_entries (content (number f)) (content (number g))) gs) fs) (vfiles v)"

definition version_entries :: "(uint64 \<Rightarrow> entry list) \<Rightarrow> Version \<Rightarrow> entry list" where
  "version_entries content v = concat (map (\<lambda>f. content (number f)) (concat (vfiles v)))"

text \<open>The answer for the version of a key a reader sees.\<close>

definition get_answer :: "entry \<Rightarrow> bytes \<Rightarrow> Status \<times> bytes \<times> 'a \<Rightarrow> bool" where
  "get_answer e value r \<longleftrightarrow>
     (case e of (u, s, kTypeValue, v) \<Rightarrow> fst r = OK \<and> fst (snd r) = v
      | (u, s, kTypeDeletion, v) \<Rightarrow> fst r = NotFound [] [] \<and> fst (snd r) = value)"

lemma reads_file_cases:
  assumes r: "reads_file tget content f u s" and es: "entries_sorted (content (number f))" and s: "s \<le> kMaxSequenceNumber"
  obtains (none) kv where "tget (number f) (file_size f) (InternalKey u s kValueTypeForSeek) = (OK, kv)"
      "\<And>st. (case kv of None \<Rightarrow> st | Some kv \<Rightarrow> SaveValue BytewiseComparator u kv st) = st"
      "\<forall>e \<in> set (content (number f)). \<not> visible u s e"
  | (some) kv e where "tget (number f) (file_size f) (InternalKey u s kValueTypeForSeek) = (OK, Some kv)"
      "newest_visible (content (number f)) u s e"
      "\<And>st v. SaveValue BytewiseComparator u kv (st, v) =
         (case e of (u', s', t, v') \<Rightarrow> if t = kTypeValue then (kFound, v') else (kDeleted, v))"
proof (cases "snd (tget (number f) (file_size f) (InternalKey u s kValueTypeForSeek))")
  case None
  with r that(1) [of None] show ?thesis
    by (cases "tget (number f) (file_size f) (InternalKey u s kValueTypeForSeek)") (simp add: reads_file_def list_all_iff)
next
  case (Some kv)
  let ?seek = "seek_entries (InternalKey u s kValueTypeForSeek) (content (number f))"
  obtain e rest where e: "?seek = e # rest" "kv = (entry_key e, entry_value e)"
    "tget (number f) (file_size f) (InternalKey u s kValueTypeForSeek) = (OK, Some kv)"
    using r Some by (cases "tget (number f) (file_size f) (InternalKey u s kValueTypeForSeek)")
      (auto simp: reads_file_def split: list.splits)
  obtain u' s' t v where fields: "e = (u', s', t, v)"
    by (cases e)
  have "e \<in> set (content (number f))"
    using e(1) set_dropWhileD [of e _ "content (number f)"] by (metis list.set_intros(1) seek_entries_def)
  then have "entry_ok e"
    using es by (simp add: entries_sorted_def)
  then have parse: "ParseInternalKey (entry_key e) = Some \<lparr>user_key = u', seqno = s', vtype = t\<rparr>"
    by (simp add: fields Parse_InternalKey)
  have save: "SaveValue BytewiseComparator u kv st =
      (if u' = u then if t = kTypeValue then (kFound, v) else (kDeleted, snd st) else st)" for st
    using parse slice_compare_eq [of u' u] by (simp add: SaveValue_def e(2) BytewiseComparator_def) (simp add: fields)
  show ?thesis
  proof (cases "u' = u")
    case True
    then show ?thesis
      using seek_entries_newest [OF es s, of u] that(2) [OF e(3), of e] save by (simp add: e(1) fields)
  next
    case False
    then show ?thesis
      using seek_entries_newest [OF es s, of u] that(1) [OF e(3)] save by (simp add: e(1) fields)
  qed
qed

lemma newest_visible_append1:
  assumes "newest_visible es u s e" "newer_entries es es'"
  shows "newest_visible (es @ es') u s e"
  unfolding newest_visible_def
proof (intro conjI ballI impI)
  show "e \<in> set (es @ es')" "visible u s e"
    using assms(1) by (auto simp: newest_visible_def)
  fix f
  assume f: "f \<in> set (es @ es')" "visible u s f"
  obtain u1 s1 t1 v1 u2 s2 t2 v2 where [simp]: "e = (u1, s1, t1, v1)" "f = (u2, s2, t2, v2)"
    by (cases e, cases f)
  show "newer_or_same e f"
  proof (cases "f \<in> set es")
    case True
    with f(2) assms(1) show ?thesis
      unfolding newest_visible_def by blast
  next
    case False
    with f(1) have "f \<in> set es'" "e \<in> set es" "visible u s e"
      using assms(1) by (auto simp: newest_visible_def)
    with f(2) assms(2) have "s2 < s1"
      by (fastforce simp: newer_entries_def list_all_iff)
    then show ?thesis by simp
  qed
qed

lemma newest_visible_append2:
  "\<forall>e \<in> set es. \<not> visible u s e \<Longrightarrow> newest_visible (es @ es') u s e \<longleftrightarrow> newest_visible es' u s e"
  by (auto simp: newest_visible_def)

lemma Get_loop_newest:
  assumes s: "s \<le> kMaxSequenceNumber"
    and files: "\<And>l f. (l, f) \<in> set cs \<Longrightarrow> reads_file tget content f u s \<and> entries_sorted (content (number f))"
    and order: "sorted_wrt (\<lambda>x y. newer_entries (content (number (snd x))) (content (number (snd y)))) cs"
    and es: "es = concat (map (\<lambda>x. content (number (snd x))) cs)"
    and r: "r = Get_loop BytewiseComparator tget u (InternalKey u s kValueTypeForSeek) cs lf stats val"
  shows "(\<exists>e. newest_visible es u s e \<and> get_answer e val r) \<or>
    (\<forall>e \<in> set es. \<not> visible u s e) \<and> fst r = NotFound [] [] \<and> fst (snd r) = val"
  using files order es r
proof (induction cs arbitrary: lf stats val es r)
  case (Cons x cs)
  obtain l f where x: "x = (l, f)"
    by (cases x)
  let ?es = "content (number f)" and ?rest = "concat (map (\<lambda>x. content (number (snd x))) cs)"
  have reads: "reads_file tget content f u s" and sorted: "entries_sorted ?es"
    using Cons.prems(1) [of l f] by (simp_all add: x)
  have split: "es = ?es @ ?rest"
    by (simp add: Cons.prems(3) x)
  from reads sorted s show ?case
  proof (cases rule: reads_file_cases)
    case (none kv)
    define stats' where "stats' = (if lf \<noteq> None \<and> stats = None then lf else stats)"
    have r: "r = Get_loop BytewiseComparator tget u (InternalKey u s kValueTypeForSeek) cs (Some (f, int l)) stats' val"
      by (simp add: Cons.prems(4) x none stats'_def Let_def ok_def)
    have "(\<exists>e. newest_visible ?rest u s e \<and> get_answer e val r) \<or>
        (\<forall>e \<in> set ?rest. \<not> visible u s e) \<and> fst r = NotFound [] [] \<and> fst (snd r) = val"
      using Cons.prems(1,2) by (intro Cons.IH [OF _ _ refl r]) auto
    then show ?thesis
      unfolding split newest_visible_append2 [OF none(3)] using none(3) by auto
  next
    case (some kv e)
    obtain u' s' t v where e: "e = (u', s', t, v)"
      by (cases e)
    have "newer_entries ?es ?rest"
      using Cons.prems(2) by (auto simp: x newer_entries_def list_all_iff)
    then have "newest_visible es u s e"
      unfolding split by (rule newest_visible_append1 [OF some(2)])
    moreover have "get_answer e val r"
      by (cases t) (simp_all add: Cons.prems(4) x some Let_def ok_def e get_answer_def)
    ultimately show ?thesis by blast
  qed
qed simp

text \<open>Whatever the order of the files, the first one with a visible version answers.\<close>

lemma Get_loop_first:
  assumes s: "s \<le> kMaxSequenceNumber"
    and files: "\<And>l f. (l, f) \<in> set (xs @ [x]) \<Longrightarrow> reads_file tget content f u s \<and> entries_sorted (content (number f))"
    and none: "\<And>l f e. (l, f) \<in> set xs \<Longrightarrow> e \<in> set (content (number f)) \<Longrightarrow> \<not> visible u s e"
    and some: "\<exists>e \<in> set (content (number (snd x))). visible u s e"
  shows "\<exists>e. newest_visible (content (number (snd x))) u s e \<and>
    get_answer e val (Get_loop BytewiseComparator tget u (InternalKey u s kValueTypeForSeek) (xs @ x # ys) lf stats val)"
  using files none
proof (induction xs arbitrary: lf stats)
  case Nil
  obtain l f where x: "x = (l, f)"
    by (cases x)
  have "reads_file tget content f u s" "entries_sorted (content (number f))"
    using Nil.prems(1) [of l f] by (simp_all add: x)
  then show ?case
    using s
  proof (cases rule: reads_file_cases)
    case (none kv)
    with some show ?thesis
      by (auto simp: x)
  next
    case (some kv e)
    obtain u' s' t v where e: "e = (u', s', t, v)"
      by (cases e)
    show ?thesis
      by (rule exI [of _ e], cases t) (use some(2) in \<open>simp_all add: x some Let_def ok_def e get_answer_def\<close>)
  qed
next
  case (Cons y xs)
  obtain l f where y: "y = (l, f)"
    by (cases y)
  have "reads_file tget content f u s" "entries_sorted (content (number f))"
    using Cons.prems(1) [of l f] by (simp_all add: y)
  then show ?case
    using s
  proof (cases rule: reads_file_cases)
    case (none kv)
    then have "Get_loop BytewiseComparator tget u (InternalKey u s kValueTypeForSeek) ((y # xs) @ x # ys) lf stats val =
        Get_loop BytewiseComparator tget u (InternalKey u s kValueTypeForSeek) (xs @ x # ys) (Some (f, int l))
          (if lf \<noteq> None \<and> stats = None then lf else stats) val"
      by (simp add: y Let_def ok_def)
    then show ?thesis
      using Cons.IH Cons.prems by (metis append_Cons list.set_intros(2))
  next
    case (some kv e)
    then show ?thesis
      using Cons.prems(2) [of l f e] by (simp add: y newest_visible_def)
  qed
qed

lemma set_sort_by [simp]: "set (sort_by lt xs) = set xs"
proof -
  have "set (insert_by lt x ys) = insert x (set ys)" for x ys
    by (induction ys) auto
  then show ?thesis
    by (induction xs) (simp_all add: sort_by_def)
qed

lemma sorted_sort_by:
  assumes "transp lt" "distinct xs" "\<And>x y. x \<in> set xs \<Longrightarrow> y \<in> set xs \<Longrightarrow> x \<noteq> y \<Longrightarrow> lt x y \<or> lt y x"
  shows "sorted_wrt lt (sort_by lt xs)"
proof -
  have set: "set (insert_by lt x ys) = insert x (set ys)" for x ys
    by (induction ys) auto
  have ins: "sorted_wrt lt ys \<Longrightarrow> \<forall>y \<in> set ys. lt x y \<or> lt y x \<Longrightarrow> sorted_wrt lt (insert_by lt x ys)" for x ys
    by (induction ys) (use assms(1) in \<open>auto simp: set dest: transpD\<close>)
  show ?thesis
    using assms(2,3)
  proof (induction xs)
    case (Cons x xs)
    then have "sorted_wrt lt (insert_by lt x (sort_by lt xs))"
      by (intro ins Cons.IH) auto
    then show ?case
      by (simp add: sort_by_def)
  qed (simp add: sort_by_def)
qed

lemma sorted_wrt_concat:
  "(\<And>xs. xs \<in> set xss \<Longrightarrow> sorted_wrt R xs) \<Longrightarrow>
   sorted_wrt (\<lambda>xs ys. \<forall>x \<in> set xs. \<forall>y \<in> set ys. R x y) xss \<Longrightarrow> sorted_wrt R (concat xss)"
  by (induction xss) (auto simp: sorted_wrt_append)

lemma bytewise_Compare: "Compare BytewiseComparator = slice_compare"
  by (simp add: BytewiseComparator_def)

lemma length_entry_key [simp]: "8 \<le> length (entry_key e)"
  by (cases e) simp

lemma user_of_entry_key [simp]: "ExtractUserKey (entry_key e) = fst e"
  by (cases e) simp

lemma file_covers:
  assumes "file_holds content f" "e \<in> set (content (number f))"
  shows "ikey_cmp (smallest f) (entry_key e) \<le> 0" "ikey_cmp (entry_key e) (largest f) \<le> 0"
proof -
  let ?es = "content (number f)"
  have es: "sorted_wrt (\<lambda>e f. ikey_cmp (entry_key e) (entry_key f) \<le> 0) ?es" "?es \<noteq> []"
    "smallest f = entry_key (hd ?es)" "largest f = entry_key (last ?es)"
    using assms(1) by (simp_all add: file_holds_def entries_sorted_def Let_def)
  have refl: "ikey_cmp (entry_key e) (entry_key e) \<le> 0"
    using bytewise_keys.ikey.cmp_refl [of "entry_key e"] by simp
  show "ikey_cmp (smallest f) (entry_key e) \<le> 0"
    unfolding es(3) using es(1,2) assms(2) refl by (cases ?es) auto
  show "ikey_cmp (entry_key e) (largest f) \<le> 0"
    unfolding es(4) using es(1,2) assms(2) refl by (cases ?es rule: rev_cases) (auto simp: sorted_wrt_append)
qed

lemma file_covers_user:
  assumes "file_holds content f" "e \<in> set (content (number f))"
  shows "slice_compare (ExtractUserKey (smallest f)) (fst e) \<le> 0" "slice_compare (fst e) (ExtractUserKey (largest f)) \<le> 0"
proof -
  have len: "8 \<le> length (smallest f)" "8 \<le> length (largest f)"
    using assms(1) by (simp_all add: file_holds_def Let_def)
  show "slice_compare (ExtractUserKey (smallest f)) (fst e) \<le> 0" "slice_compare (fst e) (ExtractUserKey (largest f)) \<le> 0"
    using bytewise_keys.user_key_mono [OF len(1) length_entry_key file_covers(1) [OF assms]]
      bytewise_keys.user_key_mono [OF length_entry_key len(2) file_covers(2) [OF assms]]
    by (simp_all add: BytewiseComparator_def)
qed

lemma level_files_complete:
  assumes fs: "level_sorted BytewiseComparator fs" and holds: "\<And>f. f \<in> set fs \<Longrightarrow> file_holds content f"
    and s: "s \<le> kMaxSequenceNumber" and f: "f \<in> set fs" and e: "e \<in> set (content (number f))" "visible u s e"
  shows "\<exists>f' \<in> set (level_files BytewiseComparator u (InternalKey u s kValueTypeForSeek) fs).
    \<exists>e' \<in> set (content (number f')). visible u s e' \<and> newer_or_same e' e"
proof -
  let ?k = "InternalKey u s kValueTypeForSeek"
  let ?P = "\<lambda>f. ikey_cmp (largest f) ?k < 0"
  define n where "n = length (takeWhile ?P fs)"
  have index: "FindFile (InternalKeyComparator BytewiseComparator) fs ?k = n"
    unfolding n_def by (rule bytewise_keys.FindFile_eq [OF fs]) simp
  obtain j where j: "j < length fs" "f = fs ! j"
    using f by (auto simp: in_set_conv_nth)
  have ok: "entry_ok e" and len: "8 \<le> length (largest f)"
    using holds [OF f] e(1) by (auto simp: file_holds_def entries_sorted_def Let_def)
  have user: "fst e = u"
    using e(2) by (cases e) simp
  have "\<not> ikey_cmp (entry_key e) ?k < 0"
  proof (cases e)
    case (fields u' s' t' v')
    then show ?thesis
      using visible_iff_not_before [OF s, of u s' t' v'] ok e(2) by simp
  qed
  then have "\<not> ?P f"
    using bytewise_keys.ikey.cmp_le_less_trans [OF length_entry_key len _ file_covers(2) [OF holds [OF f] e(1)], of ?k] by auto
  then have "n \<le> j"
    using j(2) set_takeWhileD [of f ?P fs] nth_mem [of j "takeWhile ?P fs"]
    by (metis n_def not_le takeWhile_nth)
  have n: "n < length fs" "\<not> ?P (fs ! n)"
    using \<open>n \<le> j\<close> j(1) nth_length_takeWhile [of ?P fs] by (simp_all add: n_def)
  have cand: "fs ! n \<in> set (level_files BytewiseComparator u ?k fs)" if "slice_compare (ExtractUserKey (smallest (fs ! n))) u \<le> 0"
    using that n(1) slice_compare_anti [of u "ExtractUserKey (smallest (fs ! n))"]
    by (simp add: level_files_def index bytewise_Compare)
  show ?thesis
  proof (cases "n = j")
    case True
    have "newer_or_same e e"
      by (cases e) simp
    moreover have "f \<in> set (level_files BytewiseComparator u ?k fs)"
      using cand file_covers_user(1) [OF holds [OF f] e(1)] True j user by simp
    ultimately show ?thesis
      using e by blast
  next
    case False
    then have "n < j"
      using \<open>n \<le> j\<close> by simp
    let ?f = "fs ! n"
    have f': "?f \<in> set fs" "file_holds content ?f"
      using n(1) holds by auto
    define e' where "e' = last (content (number ?f))"
    have e': "e' \<in> set (content (number ?f))" "largest ?f = entry_key e'" "entry_ok e'"
      using f'(2) by (auto simp: e'_def file_holds_def entries_sorted_def Let_def)
    have lt: "ikey_cmp (entry_key e') (smallest f) < 0"
      using bytewise_keys.level_sorted_nth(1) [OF fs \<open>n < j\<close> j(1)] e'(2) j(2) by simp
    have less: "ikey_cmp (entry_key e') (entry_key e) < 0"
      using bytewise_keys.ikey.cmp_less_le_trans [OF length_entry_key _ length_entry_key lt file_covers(1) [OF holds [OF f] e(1)]]
        holds [OF f] by (simp add: file_holds_def Let_def)
    have ge: "\<not> ikey_cmp (entry_key e') ?k < 0"
      using n(2) e'(2) by simp
    obtain u1 s1 t1 v1 s2 t2 v2 where fields: "e' = (u1, s1, t1, v1)" "e = (u, s2, t2, v2)"
      using user by (cases e', cases e) auto
    have "slice_compare u1 u \<le> 0 \<and> \<not> slice_compare u1 u < 0"
      using less ge ok e'(3) s slice_compare_eq [of u u] by (auto simp: fields ikey_cmp_less)
    then have u1: "u1 = u"
      using slice_compare_eq [of u1 u] by simp
    have "visible u s e'"
      using visible_iff_not_before [OF s, of u s1 t1 v1] ge e'(3) by (simp add: fields u1)
    moreover have "newer_or_same e' e"
      using less ok e'(3) slice_compare_eq [of u u] by (auto simp: fields u1 ikey_cmp_less)
    moreover have "?f \<in> set (level_files BytewiseComparator u ?k fs)"
      using cand file_covers_user(1) [OF f'(2) e'(1)] by (simp add: fields u1)
    ultimately show ?thesis
      using e'(1) by blast
  qed
qed

lemma level0_files_complete:
  assumes "file_holds content f" "f \<in> set fs" "e \<in> set (content (number f))" "visible u s e"
  shows "f \<in> set (level0_files BytewiseComparator u fs)"
proof -
  have "fst e = u"
    using assms(4) by (cases e) simp
  then show ?thesis
    using assms(2) file_covers_user [OF assms(1,3)] slice_compare_anti [of u "ExtractUserKey (smallest f)"]
    by (simp add: level0_files_def bytewise_Compare)
qed

lemma level0_files_sorted:
  assumes "distinct (map number fs)"
  shows "sorted_wrt NewestFirst (level0_files c u fs)"
  unfolding level0_files_def
proof (rule sorted_sort_by)
  show "transp NewestFirst"
    by (auto simp: NewestFirst_def intro!: transpI)
  show "distinct (filter (\<lambda>f. Compare c u (ExtractUserKey (smallest f)) \<ge> 0 \<and> Compare c u (ExtractUserKey (largest f)) \<le> 0) fs)"
    using assms by (simp add: distinct_map)
  fix x y :: FileMetaData
  assume "x \<in> set (filter (\<lambda>f. Compare c u (ExtractUserKey (smallest f)) \<ge> 0 \<and> Compare c u (ExtractUserKey (largest f)) \<le> 0) fs)"
    "y \<in> set (filter (\<lambda>f. Compare c u (ExtractUserKey (smallest f)) \<ge> 0 \<and> Compare c u (ExtractUserKey (largest f)) \<le> 0) fs)" "x \<noteq> y"
  then have "number x \<noteq> number y"
    using assms by (auto simp: distinct_map dest: inj_onD)
  then show "NewestFirst x y \<or> NewestFirst y x"
    by (auto simp: NewestFirst_def linorder_neq_iff)
qed

lemma level_files_sorted: "sorted_wrt R (level_files c u k fs)"
  by (simp add: level_files_def Let_def)

lemma set_level_files: "set (level_files c u k fs) \<subseteq> set fs" "set (level0_files c u fs) \<subseteq> set fs"
  by (auto simp: level_files_def level0_files_def Let_def)

lemma search_files_mem:
  "(l, f) \<in> set (search_files c u k v) \<longleftrightarrow> l < kNumLevels \<and>
     f \<in> set (if l = 0 then level0_files c u (vfiles v ! 0) else level_files c u k (vfiles v ! l))"
  by (auto simp: search_files_def)

lemma version_ok_level:
  assumes "version_ok content v" "l < kNumLevels"
  shows "f \<in> set (vfiles v ! l) \<Longrightarrow> file_holds content f" "0 < l \<Longrightarrow> level_sorted BytewiseComparator (vfiles v ! l)"
proof -
  show "f \<in> set (vfiles v ! l) \<Longrightarrow> file_holds content f"
    using assms by (auto simp: version_ok_def list_all_length in_set_conv_nth)
  assume "0 < l"
  then have "vfiles v ! l = tl (vfiles v) ! (l - 1)" "l - 1 < length (tl (vfiles v))"
    using assms by (auto simp: version_ok_def nth_tl)
  then show "level_sorted BytewiseComparator (vfiles v ! l)"
    using assms by (simp add: version_ok_def list_all_length)
qed

lemma search_files_sorted:
  assumes ok: "version_ok content v"
  shows "sorted_wrt (\<lambda>x y. newer_entries (content (number (snd x))) (content (number (snd y)))) (search_files c u k v)"
  unfolding search_files_def
proof (rule sorted_wrt_concat)
  let ?g = "\<lambda>l. if l = 0 then level0_files c u (vfiles v ! 0) else level_files c u k (vfiles v ! l)"
  let ?R = "\<lambda>x y. newer_entries (content (number (snd x))) (content (number (snd y)))"
  have sub: "set (?g l) \<subseteq> set (vfiles v ! l)" for l
    using set_level_files by simp
  fix xs
  assume "xs \<in> set (map (\<lambda>l. map (Pair l) (?g l)) [0..<kNumLevels])"
  then obtain l where xs: "xs = map (Pair l) (?g l)"
    by auto
  have "sorted_wrt (\<lambda>f g. newer_entries (content (number f)) (content (number g))) (?g l)"
  proof (cases "l = 0")
    case True
    have "sorted_wrt NewestFirst (level0_files c u (vfiles v ! 0))"
      using ok by (intro level0_files_sorted) (simp add: version_ok_def)
    then have "sorted_wrt (\<lambda>f g. newer_entries (content (number f)) (content (number g))) (level0_files c u (vfiles v ! 0))"
      by (rule sorted_wrt_mono_rel [rotated])
        (use ok set_level_files(2) [of c u "vfiles v ! 0"] in
          \<open>unfold version_ok_def list_all_iff NewestFirst_def, blast\<close>)
    with True show ?thesis by simp
  qed (simp add: level_files_sorted)
  then show "sorted_wrt ?R xs"
    by (simp add: xs sorted_wrt_map)
next
  let ?g = "\<lambda>l. if l = 0 then level0_files c u (vfiles v ! 0) else level_files c u k (vfiles v ! l)"
  have sub: "set (?g l) \<subseteq> set (vfiles v ! l)" for l
    using set_level_files by simp
  have "newer_entries (content (number f)) (content (number g))"
    if "i < j" "j < kNumLevels" "f \<in> set (?g i)" "g \<in> set (?g j)" for i j f g
  proof -
    have "f \<in> set (vfiles v ! i)" "g \<in> set (vfiles v ! j)"
      using that sub by blast+
    then show ?thesis
      using ok that(1,2) unfolding version_ok_def sorted_wrt_iff_nth_less list_all_iff by metis
  qed
  then show "sorted_wrt (\<lambda>xs ys. \<forall>x \<in> set xs. \<forall>y \<in> set ys. newer_entries (content (number (snd x))) (content (number (snd y))))
      (map (\<lambda>l. map (Pair l) (?g l)) [0..<kNumLevels])"
    by (simp add: sorted_wrt_map sorted_wrt_iff_nth_less)
qed

lemma search_files_complete:
  assumes ok: "version_ok content v" and s: "s \<le> kMaxSequenceNumber"
    and e: "e \<in> set (version_entries content v)" "visible u s e"
  shows "\<exists>x \<in> set (search_files BytewiseComparator u (InternalKey u s kValueTypeForSeek) v).
    \<exists>e' \<in> set (content (number (snd x))). visible u s e' \<and> newer_or_same e' e"
proof -
  obtain l f where l: "l < kNumLevels" and f: "f \<in> set (vfiles v ! l)" "e \<in> set (content (number f))"
    using e(1) ok by (auto simp: version_entries_def version_ok_def in_set_conv_nth [of _ "vfiles v"])
  note level = version_ok_level [OF ok l]
  let ?k = "InternalKey u s kValueTypeForSeek"
  have "\<exists>f' \<in> set (if l = 0 then level0_files BytewiseComparator u (vfiles v ! 0)
      else level_files BytewiseComparator u ?k (vfiles v ! l)).
    \<exists>e' \<in> set (content (number f')). visible u s e' \<and> newer_or_same e' e"
  proof (cases "l = 0")
    case True
    have "newer_or_same e e"
      by (cases e) simp
    with True f e(2) level(1) [OF f(1)] level0_files_complete [of content f _ e u s] show ?thesis
      by auto
  next
    case False
    with level_files_complete [OF level(2) level(1) s f(1) f(2) e(2)] show ?thesis
      by simp
  qed
  then obtain f' e' where "(l, f') \<in> set (search_files BytewiseComparator u ?k v)" "e' \<in> set (content (number f'))"
    "visible u s e'" "newer_or_same e' e"
    unfolding search_files_mem using l by blast
  then show ?thesis
    by force
qed

lemma newer_or_same_trans: "newer_or_same e f \<Longrightarrow> newer_or_same f g \<Longrightarrow> newer_or_same e g"
  by (cases e, cases f, cases g) auto

lemma seek_reads_file:
  assumes "entries_sorted (content (number f))" "s \<le> kMaxSequenceNumber"
  shows "reads_file (\<lambda>n sz k. (OK, case seek_entries k (content n) of [] \<Rightarrow> None | e # _ \<Rightarrow> Some (entry_key e, entry_value e)))
    content f u s"
  using seek_entries_newest [OF assms, of u] by (auto simp: reads_file_def list_all_iff split: list.splits)

lemma single_key_file_ok:
  assumes "s \<le> kMaxSequenceNumber"
  shows "file_ok BytewiseComparator (new_FileMetaData n sz (InternalKey u s t) (InternalKey u s t))"
proof -
  have "key_tag (InternalKey u s t) = PackSequenceAndType s t"
    by (simp add: InternalKey_eq)
  then show ?thesis
    using bytewise_keys.ikey.cmp_refl [of "InternalKey u s t"] max_tag [OF assms, of t]
    by (simp add: file_ok_def new_FileMetaData_def)
qed

section \<open>Properties\<close>

text \<open>(C4) A lookup through the levels answers with the newest version of the key that the
  reader sees in any file of the version: it looks into a few files only, but when the
  files of the levels are sorted, what is in a lower level or in a newer file of level 0
  is newer, and each table lookup finds the first entry at or after the key, the value it
  returns is that of the newest visible entry of all files, and a deletion, or no visible
  entry, gives \<^verbatim>\<open>NotFound\<close>.\<close>

theorem version_get_newest:
  assumes ok: "version_ok content v" and s: "s \<le> kMaxSequenceNumber" and live: "\<not> stop_search v"
    and reads: "list_all (list_all (\<lambda>f. reads_file tget content f u s)) (vfiles v)"
    and r: "r = Version_Get BytewiseComparator tget v (new_LookupKey u s) val"
  shows "(\<exists>e. newest_visible (version_entries content v) u s e \<and> get_answer e val r) \<or>
    (\<forall>e \<in> set (version_entries content v). \<not> visible u s e) \<and> fst r = NotFound [] [] \<and> fst (snd r) = val"
proof -
  let ?k = "InternalKey u s kValueTypeForSeek"
  let ?cs = "search_files BytewiseComparator u ?k v"
  let ?es = "concat (map (\<lambda>x. content (number (snd x))) ?cs)"
  have r': "r = Get_loop BytewiseComparator tget u ?k ?cs None None val"
    using live by (simp add: r Version_Get_def Let_def)
  have files: "f \<in> set (vfiles v ! l) \<and> l < length (vfiles v)" if "(l, f) \<in> set ?cs" for l f
    using that ok set_level_files(1) [of BytewiseComparator u ?k "vfiles v ! l"] set_level_files(2) [of BytewiseComparator u "vfiles v ! l"]
    by (auto simp: search_files_mem version_ok_def split: if_splits)
  have sub: "set ?es \<subseteq> set (version_entries content v)"
  proof
    fix e
    assume "e \<in> set ?es"
    then obtain l f where "(l, f) \<in> set ?cs" "e \<in> set (content (number f))"
      by auto
    with files [OF this(1)] show "e \<in> set (version_entries content v)"
      by (auto simp: version_entries_def intro: nth_mem)
  qed
  have "reads_file tget content f u s \<and> entries_sorted (content (number f))" if "(l, f) \<in> set ?cs" for l f
    using files [OF that] reads version_ok_level(1) [OF ok, of l f] ok
    by (auto simp: list_all_length in_set_conv_nth version_ok_def file_holds_def Let_def)
  then have "(\<exists>e. newest_visible ?es u s e \<and> get_answer e val r) \<or>
      (\<forall>e \<in> set ?es. \<not> visible u s e) \<and> fst r = NotFound [] [] \<and> fst (snd r) = val"
    by (rule Get_loop_newest [OF s _ search_files_sorted [OF ok] refl r'])
  moreover have "newest_visible (version_entries content v) u s e" if "newest_visible ?es u s e" for e
    unfolding newest_visible_def
  proof (intro conjI ballI impI)
    show "e \<in> set (version_entries content v)" "visible u s e"
      using that sub by (auto simp: newest_visible_def)
    fix g
    assume "g \<in> set (version_entries content v)" "visible u s g"
    from search_files_complete [OF ok s this] obtain x e' where "x \<in> set ?cs" "e' \<in> set (content (number (snd x)))"
      "visible u s e'" "newer_or_same e' g"
      by blast
    then have "e' \<in> set ?es" "visible u s e'" "newer_or_same e' g"
      by auto
    then show "newer_or_same e g"
      using that newer_or_same_trans [of e e' g] unfolding newest_visible_def by blast
  qed
  moreover have "\<exists>e' \<in> set ?es. visible u s e'" if "e \<in> set (version_entries content v)" "visible u s e" for e
  proof -
    from search_files_complete [OF ok s that] obtain x e' where "x \<in> set ?cs" "e' \<in> set (content (number (snd x)))" "visible u s e'"
      by blast
    then show ?thesis
      by (intro bexI [of _ e']) auto
  qed
  ultimately show ?thesis
    by blast
qed

theorem version_get_newest_witness:
  "let content = (\<lambda>n. if n = 5 then [([97], 2, kTypeValue, [20])] else [([97], 1, kTypeValue, [10])]);
       tget = (\<lambda>n sz k. (OK, case seek_entries k (content n) of [] \<Rightarrow> None | e # _ \<Rightarrow> Some (entry_key e, entry_value e)));
       f = (\<lambda>n s. new_FileMetaData n 100 (InternalKey [97] s kTypeValue) (InternalKey [97] s kTypeValue));
       v = \<lparr>vfiles = [[f 5 2], [f 3 1], [], [], [], [], []], stop_search = False, file_to_compact = None,
             file_to_compact_level = - 1, compaction_level = - 1, compaction_score = - 1\<rparr>;
       r = Version_Get BytewiseComparator tget v (new_LookupKey [97] 9) []
   in version_ok content v \<and> (\<exists>e. newest_visible (version_entries content v) [97] 9 e \<and> get_answer e [] r)"
proof -
  let ?content = "(\<lambda>n. if n = 5 then [([97], 2, kTypeValue, [20])] else [([97], 1, kTypeValue, [10])]) :: uint64 \<Rightarrow> entry list"
  let ?tget = "\<lambda>n sz k. (OK, case seek_entries k (?content n) of [] \<Rightarrow> None | e # _ \<Rightarrow> Some (entry_key e, entry_value e))"
  let ?f = "\<lambda>n s. new_FileMetaData n 100 (InternalKey [97] s kTypeValue) (InternalKey [97] s kTypeValue)"
  let ?v = "\<lparr>vfiles = [[?f 5 2], [?f 3 1], [], [], [], [], []], stop_search = False, file_to_compact = None,
    file_to_compact_level = - 1, compaction_level = - 1, compaction_score = - 1\<rparr>"
  have max: "(n :: uint64) \<le> kMaxSequenceNumber" if "n \<in> {1, 2, 9}" for n
    using that by (auto simp: kMaxSequenceNumber_eq word_le_nat_alt)
  have fok: "file_ok BytewiseComparator (?f 3 1)"
    by (rule single_key_file_ok) (simp add: max)
  have ok: "version_ok ?content ?v"
    using fok max by (simp add: version_ok_def kNumLevels_def file_holds_def new_FileMetaData_def entries_sorted_def
        level_sorted_def newer_entries_def)
  have "reads_file ?tget ?content f [97] 9" for f
    using max by (intro seek_reads_file) (simp_all add: entries_sorted_def)
  then have reads: "list_all (list_all (\<lambda>f. reads_file ?tget ?content f [97] 9)) (vfiles ?v)"
    by (simp add: list_all_iff)
  have s9: "(9 :: uint64) \<le> kMaxSequenceNumber" and live: "\<not> stop_search ?v"
    using max by simp_all
  have "([97], 2, kTypeValue, [20]) \<in> set (version_entries ?content ?v)" "visible [97] 9 ([97], 2, kTypeValue, [20])"
    by (simp_all add: version_entries_def new_FileMetaData_def)
  then have "\<exists>e. newest_visible (version_entries ?content ?v) [97] 9 e \<and>
      get_answer e [] (Version_Get BytewiseComparator ?tget ?v (new_LookupKey [97] 9) [])"
    using version_get_newest [OF ok s9 live reads refl, of "[]"] by blast
  with ok show ?thesis
    unfolding Let_def by (rule conjI)
qed

text \<open>(C34) Every search for the files of a level that overlap a range of keys comes to an end,
  although at level 0 it starts again whenever a file widens the range.  Its result is the
  files that overlap a range: above level 0 the given one; at level 0 the least range
  around it that cuts no file, so that no older version of a key stays behind.\<close>

theorem overlapping_inputs_closure:
  "\<exists>r. GetOverlappingInputs BytewiseComparator v level kbegin kend =
       Some (filter (overlaps BytewiseComparator (fst r) (snd r)) (vfiles v ! level)) \<and>
     (if level = 0 then closure_of BytewiseComparator (vfiles v ! 0)
        (map_option ExtractUserKey kbegin, map_option ExtractUserKey kend) r
      else r = (map_option ExtractUserKey kbegin, map_option ExtractUserKey kend))"
  by (rule bytewise_keys.GetOverlappingInputs_ok)

text \<open>(C35) The binary search of a sorted level decides whether a file overlaps a range of
  user keys exactly as the scan of all files does.\<close>

theorem overlap_search_equiv:
  assumes "level_sorted BytewiseComparator fs"
  shows "SomeFileOverlapsRange BytewiseComparator True fs b e = SomeFileOverlapsRange BytewiseComparator False fs b e"
  using bytewise_keys.SomeFileOverlapsRange_sorted [OF assms] bytewise_keys.SomeFileOverlapsRange_unsorted by simp

theorem overlap_search_equiv_witness:
  "let f = new_FileMetaData 3 100 (InternalKey [97] 1 kTypeValue) (InternalKey [97] 1 kTypeValue)
   in SomeFileOverlapsRange BytewiseComparator True [f] (Some [97]) None = SomeFileOverlapsRange BytewiseComparator False [f] (Some [97]) None"
proof -
  let ?f = "new_FileMetaData 3 100 (InternalKey [97] 1 kTypeValue) (InternalKey [97] 1 kTypeValue)"
  have "(1 :: uint64) \<le> kMaxSequenceNumber"
    by (simp add: kMaxSequenceNumber_eq word_le_nat_alt)
  then have "level_sorted BytewiseComparator [?f]"
    using single_key_file_ok by (simp add: level_sorted_def)
  from overlap_search_equiv [OF this] show ?thesis
    by (simp add: Let_def)
qed

text \<open>(C36) The level a new table is written to: it is 0 when a file of level 0 overlaps the
  table.  Otherwise it is the deepest level, at most \<^verbatim>\<open>kMaxMemCompactLevel\<close>, that is
  reached through levels each of which has no file that overlaps the table and few
  overlapping bytes in the level below it: older versions of the keys are then only
  further down.\<close>

theorem pick_level_safe:
  assumes "list_all (\<lambda>l. level_sorted BytewiseComparator (vfiles v ! l)) [1..<kNumLevels]"
  shows "\<exists>r. PickLevelForMemTableOutput BytewiseComparator v small large = Some r \<and> r \<le> kMaxMemCompactLevel \<and>
    (if \<exists>f \<in> set (vfiles v ! 0). overlaps BytewiseComparator (Some small) (Some large) f then r = 0
     else (\<forall>l. 0 < l \<longrightarrow> l \<le> r \<longrightarrow> may_place BytewiseComparator v small large l) \<and>
       (r < kMaxMemCompactLevel \<longrightarrow> \<not> may_place BytewiseComparator v small large (r + 1)))"
proof -
  have "level_sorted BytewiseComparator (vfiles v ! l)" if "0 < l" "l < kNumLevels" for l
    using assms that by (simp add: list_all_iff)
  then obtain r where "PickLevel_loop BytewiseComparator v small large 0 = Some r" "r \<le> kMaxMemCompactLevel"
    "\<forall>l. 0 < l \<longrightarrow> l \<le> r \<longrightarrow> may_place BytewiseComparator v small large l"
    "r < kMaxMemCompactLevel \<longrightarrow> \<not> may_place BytewiseComparator v small large (r + 1)"
    using bytewise_keys.PickLevel_loop_ok [of v 0 small large] by auto
  then show ?thesis
    using bytewise_keys.OverlapInLevel_iff [of 0 v "Some small" "Some large"]
    by (simp add: PickLevelForMemTableOutput_def)
qed

theorem pick_level_safe_witness:
  "let f = new_FileMetaData 3 100 (InternalKey [97] 1 kTypeValue) (InternalKey [97] 1 kTypeValue);
       v = (\<lambda>fss. \<lparr>vfiles = fss, stop_search = False, file_to_compact = None,
             file_to_compact_level = - 1, compaction_level = - 1, compaction_score = - 1\<rparr>)
   in PickLevelForMemTableOutput BytewiseComparator (v [[], [], [f], [], [], [], []]) [97] [98] = Some 1 \<and>
     PickLevelForMemTableOutput BytewiseComparator (v [[f], [], [], [], [], [], []]) [97] [98] = Some 0"
proof -
  let ?f = "new_FileMetaData 3 100 (InternalKey [97] 1 kTypeValue) (InternalKey [97] 1 kTypeValue)"
  let ?v = "\<lambda>fss. \<lparr>vfiles = fss, stop_search = False, file_to_compact = None,
    file_to_compact_level = - 1, compaction_level = - 1, compaction_score = - 1\<rparr>"
  let ?a = "?v [[], [], [?f], [], [], [], []]" and ?b = "?v [[?f], [], [], [], [], [], []]"
  have one: "(1 :: uint64) \<le> kMaxSequenceNumber"
    by (simp add: kMaxSequenceNumber_eq word_le_nat_alt)
  have sorted: "list_all (\<lambda>l. level_sorted BytewiseComparator (vfiles ?a ! l)) [1..<kNumLevels]"
    "list_all (\<lambda>l. level_sorted BytewiseComparator (vfiles ?b ! l)) [1..<kNumLevels]"
    using single_key_file_ok [OF one] by (simp_all add: kNumLevels_def upt_rec level_sorted_def)
  have ov: "overlaps BytewiseComparator (Some [97]) (Some [98]) ?f"
    by code_simp
  have place: "may_place BytewiseComparator ?a [97] [98] 1" "\<not> may_place BytewiseComparator ?a [97] [98] 2"
    by code_simp+
  obtain r where r: "PickLevelForMemTableOutput BytewiseComparator ?a [97] [98] = Some r" "r \<le> 2"
    "\<forall>l. 0 < l \<longrightarrow> l \<le> r \<longrightarrow> may_place BytewiseComparator ?a [97] [98] l"
    "r < 2 \<longrightarrow> \<not> may_place BytewiseComparator ?a [97] [98] (r + 1)"
    using pick_level_safe [OF sorted(1), of "[97]" "[98]"] by (auto simp: kMaxMemCompactLevel_def)
  then have "r = 1"
    using place by (metis One_nat_def add_0 le_neq_implies_less less_2_cases_iff pos2 order_refl)
  moreover have "PickLevelForMemTableOutput BytewiseComparator ?b [97] [98] = Some 0"
    using pick_level_safe [OF sorted(2), of "[97]" "[98]"] ov by auto
  ultimately show ?thesis
    using r(1) by (simp only: Let_def)
qed

end
