(* ===== verification/Compactions.thy ===== *)
theory Compactions
  imports FileLevels
begin

text \<open>
  The version set (\<^verbatim>\<open>db/version_set.h\<close>, \<^verbatim>\<open>db/version_set.cc\<close>): the builder that applies version
  edits to a version, the choice of the next compaction and of its inputs, and what a
  running compaction asks of them.  Files are values: the builder gives a new file one
  reference, and references are not counted further; the list of versions that readers
  hold is left out.  The double-precision scores are exact rationals rounded by a
  parameter \<open>rnd\<close>, the rounding of the floating-point unit.
\<close>

section \<open>Definitions\<close>

subsection \<open>The state\<close>

record VersionSet =
  next_file_number :: uint64
  manifest_file_number :: uint64
  last_sequence :: uint64
  log_number :: uint64
  map_number :: uint64
  prev_log_number :: uint64
  current :: Version
  compact_pointer :: "bytes list"

definition new_Version :: Version where
  "new_Version = \<lparr> vfiles = replicate kNumLevels [], stop_search = False, file_to_compact = None,
     file_to_compact_level = - 1, compaction_level = - 1, compaction_score = - 1 \<rparr>"

definition AppendVersion :: "Version \<Rightarrow> VersionSet \<Rightarrow> VersionSet" where
  "AppendVersion v vs = vs\<lparr>current := v\<rparr>"

definition new_VersionSet :: VersionSet where
  "new_VersionSet = AppendVersion new_Version
     \<lparr> next_file_number = 2, manifest_file_number = 0, last_sequence = 0, log_number = 0, map_number = 0,
       prev_log_number = 0, current = new_Version, compact_pointer = replicate kNumLevels [] \<rparr>"

definition NewFileNumber :: "VersionSet \<Rightarrow> uint64 \<times> VersionSet" where
  "NewFileNumber vs = (next_file_number vs, vs\<lparr>next_file_number := next_file_number vs + 1\<rparr>)"

definition ReuseFileNumber :: "uint64 \<Rightarrow> VersionSet \<Rightarrow> VersionSet" where
  "ReuseFileNumber file_number vs =
     (if next_file_number vs = file_number + 1 then vs\<lparr>next_file_number := file_number\<rparr> else vs)"

definition MarkFileNumberUsed :: "uint64 \<Rightarrow> VersionSet \<Rightarrow> VersionSet" where
  "MarkFileNumberUsed num vs = (if next_file_number vs \<le> num then vs\<lparr>next_file_number := num + 1\<rparr> else vs)"

definition NumLevelFiles :: "VersionSet \<Rightarrow> nat \<Rightarrow> nat" where
  "NumLevelFiles vs level = length (vfiles (current vs) ! level)"

definition NumLevelBytes :: "VersionSet \<Rightarrow> nat \<Rightarrow> uint64" where
  "NumLevelBytes vs level = TotalFileSize (vfiles (current vs) ! level)"

subsection \<open>Applying edits\<close>

definition BySmallestKey :: "comparator \<Rightarrow> FileMetaData \<Rightarrow> FileMetaData \<Rightarrow> bool" where
  "BySmallestKey ucmp f1 f2 =
     (let r = Compare (InternalKeyComparator ucmp) (smallest f1) (smallest f2) in
      if r \<noteq> 0 then r < 0 else number f1 < number f2)"

text \<open>Insertion into a \<^verbatim>\<open>std::set\<close> with the given order, kept as a list.\<close>

fun set_insert :: "('a \<Rightarrow> 'a \<Rightarrow> bool) \<Rightarrow> 'a \<Rightarrow> 'a list \<Rightarrow> 'a list" where
  "set_insert lt a [] = [a]"
| "set_insert lt a (b # s) = (if lt a b then a # b # s else if lt b a then b # set_insert lt a s else b # s)"

record LevelState =
  ls_deleted :: "uint64 list"
  ls_added :: "FileMetaData list"

record Builder =
  b_base :: Version
  b_levels :: "LevelState list"

definition new_Builder :: "Version \<Rightarrow> Builder" where
  "new_Builder base = \<lparr> b_base = base, b_levels = replicate kNumLevels \<lparr> ls_deleted = [], ls_added = [] \<rparr> \<rparr>"

definition apply_deleted :: "nat \<times> uint64 \<Rightarrow> LevelState list \<Rightarrow> LevelState list" where
  "apply_deleted p levels =
     levels[fst p := (levels ! fst p)\<lparr>ls_deleted := set_insert (<) (snd p) (ls_deleted (levels ! fst p))\<rparr>]"

definition install :: "FileMetaData \<Rightarrow> FileMetaData" where
  "install f =
     (let seeks = sint (ucast (file_size f div 16384) :: uint32)
      in f\<lparr>fm_refs := 1, allowed_seeks := (if seeks < 100 then 100 else seeks)\<rparr>)"

definition apply_new :: "comparator \<Rightarrow> nat \<times> FileMetaData \<Rightarrow> LevelState list \<Rightarrow> LevelState list" where
  "apply_new ucmp p levels =
     (let level = fst p;
          f = install (snd p);
          l = levels ! level
      in levels[level := \<lparr> ls_deleted = filter (\<lambda>n. n \<noteq> number f) (ls_deleted l),
                          ls_added = set_insert (BySmallestKey ucmp) f (ls_added l) \<rparr>])"

definition Apply :: "comparator \<Rightarrow> VersionEdit \<Rightarrow> VersionSet \<times> Builder \<Rightarrow> VersionSet \<times> Builder" where
  "Apply ucmp edit st =
     (let vs = fst st; b = snd st;
          cp = fold (\<lambda>p cp. cp[fst p := snd p]) (compact_pointers edit) (compact_pointer vs);
          levels = fold apply_deleted (deleted_files edit) (b_levels b);
          levels = fold (apply_new ucmp) (new_files edit) levels
      in (vs\<lparr>compact_pointer := cp\<rparr>, b\<lparr>b_levels := levels\<rparr>))"

definition MaybeAddFile :: "LevelState \<Rightarrow> FileMetaData \<Rightarrow> FileMetaData list \<Rightarrow> FileMetaData list" where
  "MaybeAddFile ls f files = (if number f \<in> set (ls_deleted ls) then files else files @ [f])"

text \<open>The merge of one level; \<^verbatim>\<open>std::upper_bound\<close> gives the first base file after the added one, which
  on a base sorted by the same order is where the binary search and this scan both stop.\<close>

fun save_level :: "comparator \<Rightarrow> LevelState \<Rightarrow> FileMetaData list \<Rightarrow> FileMetaData list \<Rightarrow> FileMetaData list \<Rightarrow> FileMetaData list" where
  "save_level ucmp ls base [] files = fold (MaybeAddFile ls) base files"
| "save_level ucmp ls base (a # added) files =
     (let smaller = takeWhile (\<lambda>b. \<not> BySmallestKey ucmp a b) base;
          rest = dropWhile (\<lambda>b. \<not> BySmallestKey ucmp a b) base
      in save_level ucmp ls rest added (MaybeAddFile ls a (fold (MaybeAddFile ls) smaller files)))"

definition SaveTo :: "comparator \<Rightarrow> Builder \<Rightarrow> Version \<Rightarrow> Version" where
  "SaveTo ucmp b v =
     v\<lparr>vfiles := map (\<lambda>level. save_level ucmp (b_levels b ! level) (vfiles (b_base b) ! level)
         (ls_added (b_levels b ! level)) (vfiles v ! level)) [0..<kNumLevels]\<rparr>"

subsection \<open>Scores\<close>

fun MaxBytes_loop :: "nat \<Rightarrow> rat \<Rightarrow> rat" where
  "MaxBytes_loop level result = (if level > 1 then MaxBytes_loop (level - 1) (result * 10) else result)"

declare MaxBytes_loop.simps [simp del]

definition MaxBytesForLevel :: "nat \<Rightarrow> rat" where
  "MaxBytesForLevel level = MaxBytes_loop level (10 * 1048576)"

definition level_score :: "(rat \<Rightarrow> rat) \<Rightarrow> Version \<Rightarrow> nat \<Rightarrow> rat" where
  "level_score rnd v level =
     (if level = 0 then rnd (of_nat (length (vfiles v ! level)) / of_nat kL0_CompactionTrigger)
      else rnd (rnd (of_nat (unat (TotalFileSize (vfiles v ! level)))) / MaxBytesForLevel level))"

definition Finalize :: "(rat \<Rightarrow> rat) \<Rightarrow> Version \<Rightarrow> Version" where
  "Finalize rnd v =
     (let (best_level, best_score) =
        foldl (\<lambda>(best_level, best_score) level.
            let score = level_score rnd v level in
            if score > best_score then (int level, score) else (best_level, best_score))
          (- 1, - 1) [0..<kNumLevels - 1]
      in v\<lparr>compaction_level := best_level, compaction_score := best_score\<rparr>)"

definition NeedsCompaction :: "VersionSet \<Rightarrow> bool" where
  "NeedsCompaction vs \<longleftrightarrow> compaction_score (current vs) \<ge> 1 \<or> file_to_compact (current vs) \<noteq> None"

subsection \<open>Compactions\<close>

record Compaction =
  c_level :: nat
  max_output_file_size :: uint64
  input_version :: "Version option"
  c_edit :: VersionEdit
  inputs0 :: "FileMetaData list"
  inputs1 :: "FileMetaData list"
  grandparents :: "FileMetaData list"
  grandparent_index :: nat
  seen_key :: bool
  overlapped_bytes :: uint64
  level_ptrs :: "nat list"

definition new_Compaction :: "nat \<Rightarrow> Compaction" where
  "new_Compaction level =
     \<lparr> c_level = level, max_output_file_size = MaxFileSizeForLevel level, input_version = None, c_edit = new_VersionEdit,
       inputs0 = [], inputs1 = [], grandparents = [], grandparent_index = 0, seen_key = False, overlapped_bytes = 0,
       level_ptrs = replicate kNumLevels 0 \<rparr>"

fun GetRange_loop :: "comparator \<Rightarrow> FileMetaData list \<Rightarrow> bytes \<times> bytes \<Rightarrow> bytes \<times> bytes" where
  "GetRange_loop ucmp [] r = r"
| "GetRange_loop ucmp (f # fs) r =
     GetRange_loop ucmp fs
       (if Compare (InternalKeyComparator ucmp) (smallest f) (fst r) < 0 then smallest f else fst r,
        if Compare (InternalKeyComparator ucmp) (largest f) (snd r) > 0 then largest f else snd r)"

definition GetRange :: "comparator \<Rightarrow> FileMetaData list \<Rightarrow> bytes \<times> bytes" where
  "GetRange ucmp inputs =
     (case inputs of [] \<Rightarrow> ([], []) | f # fs \<Rightarrow> GetRange_loop ucmp fs (smallest f, largest f))"

definition GetRange2 :: "comparator \<Rightarrow> FileMetaData list \<Rightarrow> FileMetaData list \<Rightarrow> bytes \<times> bytes" where
  "GetRange2 ucmp in1 in2 = GetRange ucmp (in1 @ in2)"

definition overlapping :: "comparator \<Rightarrow> VersionSet \<Rightarrow> nat \<Rightarrow> bytes \<times> bytes \<Rightarrow> FileMetaData list option" where
  "overlapping ucmp vs level r = GetOverlappingInputs ucmp (current vs) level (Some (fst r)) (Some (snd r))"

text \<open>The attempt to take more files of the lower level without more of the higher one.\<close>

definition expand_inputs ::
    "comparator \<Rightarrow> VersionSet \<Rightarrow> nat \<Rightarrow> bytes \<times> bytes \<Rightarrow> FileMetaData list \<times> FileMetaData list \<Rightarrow>
     (FileMetaData list \<times> FileMetaData list) option" where
  "expand_inputs ucmp vs level all_range ins =
     (if snd ins = [] then Some ins
      else do {
        expanded0 \<leftarrow> overlapping ucmp vs level all_range;
        if length expanded0 > length (fst ins) \<and>
           sint (TotalFileSize (snd ins) + TotalFileSize expanded0) < sint kExpandedCompactionByteSizeLimit
        then do {
          expanded1 \<leftarrow> overlapping ucmp vs (level + 1) (GetRange ucmp expanded0);
          Some (if length expanded1 = length (snd ins) then (expanded0, expanded1) else ins)
        }
        else Some ins
      })"

definition SetupOtherInputs :: "comparator \<Rightarrow> Compaction \<Rightarrow> VersionSet \<Rightarrow> (Compaction \<times> VersionSet) option" where
  "SetupOtherInputs ucmp c vs =
     (let level = c_level c in
      if level + 1 \<ge> kNumLevels then None
      else do {
        in1 \<leftarrow> overlapping ucmp vs (level + 1) (GetRange ucmp (inputs0 c));
        (in0, in1) \<leftarrow> expand_inputs ucmp vs level (GetRange2 ucmp (inputs0 c) in1) (inputs0 c, in1);
        gp \<leftarrow> (if level + 2 < kNumLevels then overlapping ucmp vs (level + 2) (GetRange2 ucmp in0 in1)
              else Some (grandparents c));
        let large = snd (GetRange ucmp in0);
        Some (c\<lparr>inputs0 := in0, inputs1 := in1, grandparents := gp, c_edit := SetCompactPointer level large (c_edit c)\<rparr>,
              vs\<lparr>compact_pointer := (compact_pointer vs)[level := large]\<rparr>)
      })"

text \<open>The first file to compact; \<^verbatim>\<open>None\<close> in the outer type is the access to a file that is not there.\<close>

definition first_input :: "comparator \<Rightarrow> VersionSet \<Rightarrow> nat \<Rightarrow> FileMetaData option" where
  "first_input ucmp vs level =
     (let fs = vfiles (current vs) ! level; cp = compact_pointer vs ! level in
      case find (\<lambda>f. cp = [] \<or> Compare (InternalKeyComparator ucmp) (largest f) cp > 0) fs of
        Some f \<Rightarrow> Some f
      | None \<Rightarrow> (case fs of [] \<Rightarrow> None | f # _ \<Rightarrow> Some f))"

definition start_compaction :: "comparator \<Rightarrow> nat \<Rightarrow> FileMetaData \<Rightarrow> VersionSet \<Rightarrow> (Compaction \<times> VersionSet) option" where
  "start_compaction ucmp level f vs =
     (let c = (new_Compaction level)\<lparr>inputs0 := [f], input_version := Some (current vs)\<rparr> in
      if level = 0 then do {
        in0 \<leftarrow> overlapping ucmp vs 0 (GetRange ucmp (inputs0 c));
        SetupOtherInputs ucmp (c\<lparr>inputs0 := in0\<rparr>) vs
      }
      else SetupOtherInputs ucmp c vs)"

definition PickCompaction :: "comparator \<Rightarrow> VersionSet \<Rightarrow> (Compaction option \<times> VersionSet) option" where
  "PickCompaction ucmp vs =
     (let v = current vs in
      if compaction_score v \<ge> 1 then do {
        f \<leftarrow> first_input ucmp vs (nat (compaction_level v));
        (c, vs) \<leftarrow> start_compaction ucmp (nat (compaction_level v)) f vs;
        Some (Some c, vs)
      }
      else case file_to_compact v of
        Some f \<Rightarrow> do {
          (c, vs) \<leftarrow> start_compaction ucmp (nat (file_to_compact_level v)) f vs;
          Some (Some c, vs)
        }
      | None \<Rightarrow> Some (None, vs))"

fun limit_inputs :: "uint64 \<Rightarrow> uint64 \<Rightarrow> FileMetaData list \<Rightarrow> FileMetaData list" where
  "limit_inputs limit tot [] = []"
| "limit_inputs limit tot (f # fs) =
     (let tot = tot + file_size f in if tot \<ge> limit then [f] else f # limit_inputs limit tot fs)"

definition CompactRange ::
    "comparator \<Rightarrow> nat \<Rightarrow> bytes option \<Rightarrow> bytes option \<Rightarrow> VersionSet \<Rightarrow> (Compaction option \<times> VersionSet) option" where
  "CompactRange ucmp level kbegin kend vs = do {
     inputs \<leftarrow> GetOverlappingInputs ucmp (current vs) level kbegin kend;
     if inputs = [] then Some (None, vs)
     else do {
       let inputs = (if level > 0 then limit_inputs (MaxFileSizeForLevel level) 0 inputs else inputs);
       (c, vs) \<leftarrow> SetupOtherInputs ucmp
         ((new_Compaction level)\<lparr>input_version := Some (current vs), inputs0 := inputs\<rparr>) vs;
       Some (Some c, vs)
     }
   }"

definition IsTrivialMove :: "Compaction \<Rightarrow> bool" where
  "IsTrivialMove c \<longleftrightarrow> length (inputs0 c) = 1 \<and> length (inputs1 c) = 0 \<and>
     sint (TotalFileSize (grandparents c)) \<le> sint kMaxGrandParentOverlapBytes"

definition AddInputDeletions :: "Compaction \<Rightarrow> VersionEdit \<Rightarrow> VersionEdit" where
  "AddInputDeletions c edit =
     fold (\<lambda>f. ve_DeleteFile (c_level c + 1) (number f)) (inputs1 c)
       (fold (\<lambda>f. ve_DeleteFile (c_level c) (number f)) (inputs0 c) edit)"

text \<open>The edit of a trivial move: the only input goes to the next level.\<close>

definition trivial_move :: "Compaction \<Rightarrow> VersionEdit" where
  "trivial_move c =
     (let f = hd (inputs0 c) in
      AddFile (c_level c + 1) (number f) (file_size f) (smallest f) (largest f)
        (ve_DeleteFile (c_level c) (number f) (c_edit c)))"

text \<open>The loops of \<^verbatim>\<open>IsBaseLevelForKey\<close>: within a level over the files from the position on, with the
  answer that a file contains the key and the new position; and over the levels.\<close>

fun base_scan :: "comparator \<Rightarrow> bytes \<Rightarrow> FileMetaData list \<Rightarrow> nat \<Rightarrow> bool \<times> nat" where
  "base_scan ucmp u [] i = (False, i)"
| "base_scan ucmp u (f # fs) i =
     (if Compare ucmp u (ExtractUserKey (largest f)) \<le> 0 then
        (Compare ucmp u (ExtractUserKey (smallest f)) \<ge> 0, i)
      else base_scan ucmp u fs (i + 1))"

fun base_levels :: "comparator \<Rightarrow> bytes \<Rightarrow> Version \<Rightarrow> nat list \<Rightarrow> nat list \<Rightarrow> bool \<times> nat list" where
  "base_levels ucmp u v [] ptrs = (True, ptrs)"
| "base_levels ucmp u v (lvl # lvls) ptrs =
     (let (found, i) = base_scan ucmp u (drop (ptrs ! lvl) (vfiles v ! lvl)) (ptrs ! lvl);
          ptrs = ptrs[lvl := i]
      in if found then (False, ptrs) else base_levels ucmp u v lvls ptrs)"

definition IsBaseLevelForKey :: "comparator \<Rightarrow> bytes \<Rightarrow> Compaction \<Rightarrow> (bool \<times> Compaction) option" where
  "IsBaseLevelForKey ucmp u c = do {
     v \<leftarrow> input_version c;
     let (r, ptrs) = base_levels ucmp u v [c_level c + 2..<kNumLevels] (level_ptrs c);
     Some (r, c\<lparr>level_ptrs := ptrs\<rparr>)
   }"

fun skip_grandparents :: "comparator \<Rightarrow> bytes \<Rightarrow> bool \<Rightarrow> FileMetaData list \<Rightarrow> nat \<Rightarrow> uint64 \<Rightarrow> nat \<times> uint64" where
  "skip_grandparents ucmp k seen [] i n = (i, n)"
| "skip_grandparents ucmp k seen (f # fs) i n =
     (if Compare (InternalKeyComparator ucmp) k (largest f) > 0
      then skip_grandparents ucmp k seen fs (i + 1) (if seen then n + file_size f else n)
      else (i, n))"

definition ShouldStopBefore :: "comparator \<Rightarrow> bytes \<Rightarrow> Compaction \<Rightarrow> bool \<times> Compaction" where
  "ShouldStopBefore ucmp k c =
     (let (i, n) = skip_grandparents ucmp k (seen_key c) (drop (grandparent_index c) (grandparents c))
            (grandparent_index c) (overlapped_bytes c);
          c = c\<lparr>grandparent_index := i, overlapped_bytes := n, seen_key := True\<rparr>
      in if sint n > sint kMaxGrandParentOverlapBytes then (True, c\<lparr>overlapped_bytes := 0\<rparr>) else (False, c))"

definition ReleaseInputs :: "Compaction \<Rightarrow> Compaction" where
  "ReleaseInputs c = c\<lparr>input_version := None\<rparr>"

text \<open>The largest overlap of a file with the next level.\<close>

definition file_overlap :: "comparator \<Rightarrow> VersionSet \<Rightarrow> nat \<Rightarrow> FileMetaData \<Rightarrow> uint64 \<Rightarrow> uint64 option" where
  "file_overlap ucmp vs level f result = do {
     overlaps \<leftarrow> overlapping ucmp vs (level + 1) (smallest f, largest f);
     let sum = TotalFileSize overlaps;
     Some (if sint sum > sint result then sum else result)
   }"

definition MaxNextLevelOverlappingBytes :: "comparator \<Rightarrow> VersionSet \<Rightarrow> uint64 option" where
  "MaxNextLevelOverlappingBytes ucmp vs =
     fold (\<lambda>level r. fold (\<lambda>f r. Option.bind r (file_overlap ucmp vs level f)) (vfiles (current vs) ! level) r)
       [1..<kNumLevels - 1] (Some 0)"

text \<open>The approximate offset of a key; what a table answers for a key inside it, if it can be
  opened, is a parameter.\<close>

fun approx_level :: "comparator \<Rightarrow> (uint64 \<Rightarrow> uint64 \<Rightarrow> bytes \<Rightarrow> uint64 option) \<Rightarrow> nat \<Rightarrow> bytes \<Rightarrow> FileMetaData list \<Rightarrow> uint64 \<Rightarrow> uint64" where
  "approx_level ucmp toff level ikey [] result = result"
| "approx_level ucmp toff level ikey (f # fs) result =
     (if Compare (InternalKeyComparator ucmp) (largest f) ikey \<le> 0 then
        approx_level ucmp toff level ikey fs (result + file_size f)
      else if Compare (InternalKeyComparator ucmp) (smallest f) ikey > 0 then
        if level > 0 then result else approx_level ucmp toff level ikey fs result
      else approx_level ucmp toff level ikey fs
        (case toff (number f) (file_size f) ikey of None \<Rightarrow> result | Some n \<Rightarrow> result + n))"

definition ApproximateOffsetOf :: "comparator \<Rightarrow> (uint64 \<Rightarrow> uint64 \<Rightarrow> bytes \<Rightarrow> uint64 option) \<Rightarrow> Version \<Rightarrow> bytes \<Rightarrow> uint64" where
  "ApproximateOffsetOf ucmp toff v ikey =
     fold (\<lambda>level. approx_level ucmp toff level ikey (vfiles v ! level)) [0..<kNumLevels] 0"

section \<open>Inputs of a compaction\<close>

definition user_range :: "bytes \<times> bytes \<Rightarrow> bytes option \<times> bytes option" where
  "user_range r = (Some (ExtractUserKey (fst r)), Some (ExtractUserKey (snd r)))"

text \<open>The inputs leave no file of their level that overlaps their range.\<close>

definition complete_inputs :: "comparator \<Rightarrow> FileMetaData list \<Rightarrow> FileMetaData list \<Rightarrow> bool" where
  "complete_inputs c fs ins \<longleftrightarrow>
     list_all (\<lambda>f. overlaps c (fst (user_range (GetRange c ins))) (snd (user_range (GetRange c ins))) f \<longrightarrow> f \<in> set ins) fs"

definition overlapping_files :: "comparator \<Rightarrow> bytes \<times> bytes \<Rightarrow> FileMetaData list \<Rightarrow> FileMetaData list" where
  "overlapping_files c r fs = filter (overlaps c (fst (user_range r)) (snd (user_range r))) fs"

definition compaction_ok :: "comparator \<Rightarrow> Version \<Rightarrow> Compaction \<Rightarrow> bool" where
  "compaction_ok c v k \<longleftrightarrow>
     c_level k + 1 < kNumLevels \<and> inputs0 k \<noteq> [] \<and> set (inputs0 k) \<subseteq> set (vfiles v ! c_level k) \<and>
     inputs1 k = overlapping_files c (GetRange c (inputs0 k)) (vfiles v ! (c_level k + 1)) \<and>
     (c_level k = 0 \<longrightarrow> complete_inputs c (vfiles v ! 0) (inputs0 k)) \<and>
     (c_level k + 2 < kNumLevels \<longrightarrow>
        grandparents k = overlapping_files c (GetRange2 c (inputs0 k) (inputs1 k)) (vfiles v ! (c_level k + 2)))"

definition files_ok :: "comparator \<Rightarrow> Version \<Rightarrow> bool" where
  "files_ok c v \<longleftrightarrow> length (vfiles v) = kNumLevels \<and> list_all (list_all (file_ok c)) (vfiles v)"

context user_comparator
begin

lemma GetRange_loop_covers:
  assumes "\<forall>f \<in> set fs. file_ok c f" "8 \<le> length (fst r)" "8 \<le> length (snd r)" "r' = GetRange_loop c fs r"
  shows "8 \<le> length (fst r') \<and> 8 \<le> length (snd r') \<and> icmp (fst r') (fst r) \<le> 0 \<and> icmp (snd r) (snd r') \<le> 0 \<and>
    (\<forall>f \<in> set fs. icmp (fst r') (smallest f) \<le> 0 \<and> icmp (largest f) (snd r') \<le> 0) \<and>
    fst r' \<in> insert (fst r) (smallest ` set fs) \<and> snd r' \<in> insert (snd r) (largest ` set fs)"
  using assms
proof (induction fs arbitrary: r)
  case (Cons f fs)
  have f: "8 \<le> length (smallest f)" "8 \<le> length (largest f)"
    using Cons.prems(1) by (simp_all add: file_ok_def)
  define s where "s = (if icmp (smallest f) (fst r) < 0 then smallest f else fst r,
    if icmp (largest f) (snd r) > 0 then largest f else snd r)"
  have s: "8 \<le> length (fst s)" "8 \<le> length (snd s)" "icmp (fst s) (fst r) \<le> 0" "icmp (fst s) (smallest f) \<le> 0"
    "icmp (snd r) (snd s) \<le> 0" "icmp (largest f) (snd s) \<le> 0"
    using f Cons.prems(2,3) ikey.cmp_refl [of "smallest f"] ikey.cmp_refl [of "fst r"] ikey.cmp_refl [of "largest f"]
      ikey.cmp_refl [of "snd r"] ikey.cmp_le [of "fst r" "smallest f"] ikey.cmp_le [of "largest f" "snd r"]
      ikey.cmp_gt [of "largest f" "snd r"]
    by (simp_all add: s_def)
  have IH: "8 \<le> length (fst r') \<and> 8 \<le> length (snd r') \<and> icmp (fst r') (fst s) \<le> 0 \<and> icmp (snd s) (snd r') \<le> 0 \<and>
    (\<forall>f \<in> set fs. icmp (fst r') (smallest f) \<le> 0 \<and> icmp (largest f) (snd r') \<le> 0) \<and>
    fst r' \<in> insert (fst s) (smallest ` set fs) \<and> snd r' \<in> insert (snd s) (largest ` set fs)"
    using Cons.prems s by (intro Cons.IH) (auto simp: s_def)
  have "icmp (fst r') (fst r) \<le> 0" "icmp (fst r') (smallest f) \<le> 0" "icmp (snd r) (snd r') \<le> 0" "icmp (largest f) (snd r') \<le> 0"
    using IH s f Cons.prems(2,3) ikey.cmp_le_trans [of "fst r'" "fst s" "fst r"] ikey.cmp_le_trans [of "fst r'" "fst s" "smallest f"]
      ikey.cmp_le_trans [of "snd r" "snd s" "snd r'"] ikey.cmp_le_trans [of "largest f" "snd s" "snd r'"] by simp_all
  with IH show ?case
    by (auto simp: s_def)
qed (use ikey.cmp_refl in auto)

lemma GetRange_covers:
  assumes "\<forall>f \<in> set fs. file_ok c f" "fs \<noteq> []"
  shows "8 \<le> length (fst (GetRange c fs))" "8 \<le> length (snd (GetRange c fs))"
    "f \<in> set fs \<Longrightarrow> range_in c (file_range f) (user_range (GetRange c fs))"
    "range_closed c fs' q \<Longrightarrow> \<forall>f \<in> set fs. range_in c (file_range f) q \<Longrightarrow> range_in c (user_range (GetRange c fs)) q"
proof -
  obtain g gs where fs: "fs = g # gs"
    using assms(2) by (cases fs) auto
  let ?r = "GetRange c fs"
  have r: "?r = GetRange_loop c gs (smallest g, largest g)"
    by (simp add: fs GetRange_def)
  have ok: "\<forall>f \<in> set gs. file_ok c f" "8 \<le> length (smallest g)" "8 \<le> length (largest g)"
    using assms(1) by (simp_all add: fs file_ok_def)
  have *: "8 \<le> length (fst ?r) \<and> 8 \<le> length (snd ?r) \<and> icmp (fst ?r) (smallest g) \<le> 0 \<and> icmp (largest g) (snd ?r) \<le> 0 \<and>
    (\<forall>f \<in> set gs. icmp (fst ?r) (smallest f) \<le> 0 \<and> icmp (largest f) (snd ?r) \<le> 0) \<and>
    fst ?r \<in> insert (smallest g) (smallest ` set gs) \<and> snd ?r \<in> insert (largest g) (largest ` set gs)"
    using GetRange_loop_covers [of gs "(smallest g, largest g)" ?r] ok r by simp
  then show len: "8 \<le> length (fst ?r)" "8 \<le> length (snd ?r)"
    by simp_all
  have all: "icmp (fst ?r) (smallest f) \<le> 0" "icmp (largest f) (snd ?r) \<le> 0" if "f \<in> set fs" for f
    using * that by (auto simp: fs)
  show "range_in c (file_range f) (user_range ?r)" if "f \<in> set fs"
    using user_key_mono [OF len(1) _ all(1) [OF that]] user_key_mono [OF _ len(2) all(2) [OF that]] assms(1) that
    by (simp add: range_in_def file_range_def user_range_def low_le_def high_le_def file_ok_def)
  assume q: "\<forall>f \<in> set fs. range_in c (file_range f) q"
  have "fst ?r \<in> smallest ` set fs" "snd ?r \<in> largest ` set fs"
    using * by (auto simp: fs)
  then obtain f1 f2 where "f1 \<in> set fs" "f2 \<in> set fs" "fst ?r = smallest f1" "snd ?r = largest f2"
    by auto
  with q show "range_in c (user_range ?r) q"
    by (auto simp: range_in_def user_range_def file_range_def)
qed

lemma file_overlaps_range:
  assumes "file_ok c f" "range_in c (file_range f) q"
  shows "overlaps c (fst q) (snd q) f"
proof -
  have "Compare c (ExtractUserKey (smallest f)) (ExtractUserKey (largest f)) \<le> 0"
    using assms(1) by (intro user_key_mono) (simp_all add: file_ok_def)
  then have "overlaps c (fst (file_range f)) (snd (file_range f)) f"
    using cmp_refl [of "ExtractUserKey (smallest f)"] cmp_le [of "ExtractUserKey (smallest f)" "ExtractUserKey (largest f)"]
    by (auto simp: overlaps_def file_range_def AfterFile_def BeforeFile_def)
  then show ?thesis
    by (rule overlaps_mono [OF _ assms(2)])
qed

lemma overlapping_upper: "0 < level \<Longrightarrow> overlapping c vs level r = Some (overlapping_files c r (vfiles (current vs) ! level))"
  by (simp add: overlapping_def GetOverlappingInputs_def Overlapping_level overlapping_files_def user_range_def)

lemma overlapping_0:
  assumes "\<forall>f \<in> set (vfiles (current vs) ! 0). file_ok c f"
  obtains ins where "overlapping c vs 0 r = Some ins" "set (overlapping_files c r (vfiles (current vs) ! 0)) \<subseteq> set ins"
    "set ins \<subseteq> set (vfiles (current vs) ! 0)" "ins \<noteq> [] \<longrightarrow> complete_inputs c (vfiles (current vs) ! 0) ins"
proof -
  let ?fs = "vfiles (current vs) ! 0"
  obtain q where q0: "GetOverlappingInputs c (current vs) 0 (Some (fst r)) (Some (snd r)) = Some (filter (overlaps c (fst q) (snd q)) ?fs) \<and>
      (if (0 :: nat) = 0 then closure_of c ?fs (map_option ExtractUserKey (Some (fst r)), map_option ExtractUserKey (Some (snd r))) q
       else q = (map_option ExtractUserKey (Some (fst r)), map_option ExtractUserKey (Some (snd r))))"
    using GetOverlappingInputs_ok [of "current vs" 0 "Some (fst r)" "Some (snd r)"] by (rule exE)
  have q: "overlapping c vs 0 r = Some (filter (overlaps c (fst q) (snd q)) ?fs)" "closure_of c ?fs (user_range r) q"
    using q0 by (simp_all add: overlapping_def user_range_def)
  let ?ins = "filter (overlaps c (fst q) (snd q)) ?fs"
  have cl: "range_closed c ?fs q" "range_in c (user_range r) q"
    using q(2) unfolding closure_of_def by blast+
  show thesis
  proof (rule that [OF q(1)])
    show "set (overlapping_files c r ?fs) \<subseteq> set ?ins"
    proof
      fix f
      assume "f \<in> set (overlapping_files c r ?fs)"
      then have "f \<in> set ?fs" "overlaps c (fst (user_range r)) (snd (user_range r)) f"
        by (simp_all add: overlapping_files_def)
      with overlaps_mono [OF this(2) cl(2)] show "f \<in> set ?ins"
        by simp
    qed
    show "?ins \<noteq> [] \<longrightarrow> complete_inputs c ?fs ?ins"
    proof
      assume ne: "?ins \<noteq> []"
      have ok: "\<forall>f \<in> set ?ins. file_ok c f" and inside: "\<forall>f \<in> set ?ins. range_in c (file_range f) q"
        using assms cl(1) unfolding range_closed_def set_filter by blast+
      have "range_in c (user_range (GetRange c ?ins)) q"
        by (rule GetRange_covers(4) [OF ok ne cl(1) inside])
      then have "overlaps c (fst q) (snd q) f" if "overlaps c (fst (user_range (GetRange c ?ins))) (snd (user_range (GetRange c ?ins))) f" for f
        by (rule overlaps_mono [OF that])
      then show "complete_inputs c ?fs ?ins"
        unfolding complete_inputs_def list_all_iff set_filter by blast
    qed
    show "set ?ins \<subseteq> set ?fs"
      by (rule filter_is_subset)
  qed
qed

lemma files_ok_nth: "files_ok c v \<Longrightarrow> l < kNumLevels \<Longrightarrow> f \<in> set (vfiles v ! l) \<Longrightarrow> file_ok c f"
  by (auto simp: files_ok_def list_all_length in_set_conv_nth)

lemma overlapping_any:
  assumes ok: "files_ok c (current vs)" and level: "level < kNumLevels"
  obtains ins where "overlapping c vs level r = Some ins" "set (overlapping_files c r (vfiles (current vs) ! level)) \<subseteq> set ins"
    "set ins \<subseteq> set (vfiles (current vs) ! level)"
    "level = 0 \<longrightarrow> ins \<noteq> [] \<longrightarrow> complete_inputs c (vfiles (current vs) ! 0) ins"
proof (cases "level = 0")
  case True
  have "\<forall>f \<in> set (vfiles (current vs) ! 0). file_ok c f"
    using files_ok_nth [OF ok, of 0] level True by blast
  then obtain ins where "overlapping c vs 0 r = Some ins" "set (overlapping_files c r (vfiles (current vs) ! 0)) \<subseteq> set ins"
    "set ins \<subseteq> set (vfiles (current vs) ! 0)" "ins \<noteq> [] \<longrightarrow> complete_inputs c (vfiles (current vs) ! 0) ins"
    by (rule overlapping_0 [where r = r])
  with that [of ins] True show ?thesis by simp
next
  case False
  then have "overlapping c vs level r = Some (overlapping_files c r (vfiles (current vs) ! level))"
    by (simp add: overlapping_upper)
  then show ?thesis
    by (rule that) (use False in \<open>simp_all add: overlapping_files_def\<close>)
qed

definition inputs_ok :: "Version \<Rightarrow> nat \<Rightarrow> FileMetaData list \<Rightarrow> FileMetaData list \<Rightarrow> bool" where
  "inputs_ok v level in0 in1 \<longleftrightarrow> in0 \<noteq> [] \<and> set in0 \<subseteq> set (vfiles v ! level) \<and>
     in1 = overlapping_files c (GetRange c in0) (vfiles v ! (level + 1)) \<and>
     (level = 0 \<longrightarrow> complete_inputs c (vfiles v ! 0) in0)"

lemma GetRange2_covers:
  assumes ok: "files_ok c (current vs)" and level: "level + 1 < kNumLevels" and ins: "inputs_ok (current vs) level in0 in1"
  shows "set in0 \<subseteq> set (overlapping_files c (GetRange2 c in0 in1) (vfiles (current vs) ! level))"
proof
  fix f
  assume f: "f \<in> set in0"
  have sub: "set in0 \<subseteq> set (vfiles (current vs) ! level)" "set in1 \<subseteq> set (vfiles (current vs) ! (level + 1))" "in0 @ in1 \<noteq> []"
    using ins by (auto simp: inputs_ok_def overlapping_files_def)
  then have all: "\<forall>f \<in> set (in0 @ in1). file_ok c f"
    using files_ok_nth [OF ok] level by (metis Un_iff add_lessD1 set_append subset_iff)
  have "range_in c (file_range f) (user_range (GetRange c (in0 @ in1)))"
    by (rule GetRange_covers(3) [OF all sub(3)]) (simp add: f)
  then show "f \<in> set (overlapping_files c (GetRange2 c in0 in1) (vfiles (current vs) ! level))"
    using file_overlaps_range [of f] all sub(1) f by (auto simp: overlapping_files_def GetRange2_def)
qed

lemma expand_inputs_ok:
  assumes ok: "files_ok c (current vs)" and level: "level + 1 < kNumLevels" and ins: "inputs_ok (current vs) level in0 in1"
  obtains in0' in1' where "expand_inputs c vs level (GetRange2 c in0 in1) (in0, in1) = Some (in0', in1')"
    "inputs_ok (current vs) level in0' in1'" "set in0 \<subseteq> set in0'"
proof -
  obtain e0 where e0: "overlapping c vs level (GetRange2 c in0 in1) = Some e0" "set e0 \<subseteq> set (vfiles (current vs) ! level)"
      "set (overlapping_files c (GetRange2 c in0 in1) (vfiles (current vs) ! level)) \<subseteq> set e0"
      "level = 0 \<longrightarrow> e0 \<noteq> [] \<longrightarrow> complete_inputs c (vfiles (current vs) ! 0) e0"
    using overlapping_any [OF ok, of level "GetRange2 c in0 in1"] level by (metis add_lessD1)
  have sub: "set in0 \<subseteq> set e0"
    using GetRange2_covers [OF ok level ins] e0(3) by (rule subset_trans)
  moreover have "in0 \<noteq> []"
    using ins by (simp add: inputs_ok_def)
  ultimately have "e0 \<noteq> []"
    by auto
  define e1 where "e1 = overlapping_files c (GetRange c e0) (vfiles (current vs) ! (level + 1))"
  have "inputs_ok (current vs) level e0 e1"
    using e0 \<open>e0 \<noteq> []\<close> by (simp add: inputs_ok_def e1_def)
  moreover have "overlapping c vs (level + 1) (GetRange c e0) = Some e1"
    using overlapping_upper [of "level + 1" vs "GetRange c e0"] by (simp add: e1_def)
  then have "expand_inputs c vs level (GetRange2 c in0 in1) (in0, in1) =
      Some (if in1 \<noteq> [] \<and> length in0 < length e0 \<and>
        sint (TotalFileSize in1 + TotalFileSize e0) < sint kExpandedCompactionByteSizeLimit \<and> length e1 = length in1
        then (e0, e1) else (in0, in1))"
    using e0(1) by (auto simp: expand_inputs_def)
  ultimately show thesis
    using that [of in0 in1] that [of e0 e1] ins sub by (simp split: if_splits)
qed

lemma SetupOtherInputs_ok:
  assumes ok: "files_ok c (current vs)" and level: "c_level k + 1 < kNumLevels"
    and in0: "inputs0 k \<noteq> []" "set (inputs0 k) \<subseteq> set (vfiles (current vs) ! c_level k)"
      "c_level k = 0 \<Longrightarrow> complete_inputs c (vfiles (current vs) ! 0) (inputs0 k)"
  obtains k' vs' where "SetupOtherInputs c k vs = Some (k', vs')" "compaction_ok c (current vs) k'" "c_level k' = c_level k"
    "set (inputs0 k) \<subseteq> set (inputs0 k')" "current vs' = current vs" "input_version k' = input_version k"
proof -
  let ?l = "c_level k"
  define in1 where "in1 = overlapping_files c (GetRange c (inputs0 k)) (vfiles (current vs) ! (?l + 1))"
  have "inputs_ok (current vs) ?l (inputs0 k) in1"
    using in0 by (simp add: inputs_ok_def in1_def)
  then obtain a b where ab: "expand_inputs c vs ?l (GetRange2 c (inputs0 k) in1) (inputs0 k, in1) = Some (a, b)"
    "inputs_ok (current vs) ?l a b" "set (inputs0 k) \<subseteq> set a"
    by (rule expand_inputs_ok [OF ok level])
  have o1: "overlapping c vs (?l + 1) (GetRange c (inputs0 k)) = Some in1"
    using overlapping_upper [of "?l + 1" vs] by (simp add: in1_def)
  have o2: "overlapping c vs (?l + 2) (GetRange2 c a b) = Some (overlapping_files c (GetRange2 c a b) (vfiles (current vs) ! (?l + 2)))"
    using overlapping_upper [of "?l + 2" vs] by simp
  define gp where "gp = (if ?l + 2 < kNumLevels then overlapping_files c (GetRange2 c a b) (vfiles (current vs) ! (?l + 2)) else grandparents k)"
  have "SetupOtherInputs c k vs = Some (k\<lparr>inputs0 := a, inputs1 := b, grandparents := gp,
      c_edit := SetCompactPointer ?l (snd (GetRange c a)) (c_edit k)\<rparr>,
      vs\<lparr>compact_pointer := (compact_pointer vs)[?l := snd (GetRange c a)]\<rparr>)"
    using level o1 o2 ab(1) by (simp add: SetupOtherInputs_def Let_def gp_def)
  then show thesis
    by (rule that) (use ab level in \<open>simp_all add: compaction_ok_def inputs_ok_def gp_def\<close>)
qed

lemma start_compaction_ok:
  assumes ok: "files_ok c (current vs)" and level: "level + 1 < kNumLevels" and f: "f \<in> set (vfiles (current vs) ! level)"
  obtains k vs' where "start_compaction c level f vs = Some (k, vs')" "compaction_ok c (current vs) k" "f \<in> set (inputs0 k)"
    "c_level k = level" "current vs' = current vs" "input_version k = Some (current vs)"
proof -
  have fok: "file_ok c f"
    using files_ok_nth [OF ok _ f] level by simp
  have r: "range_in c (file_range f) (user_range (GetRange c [f]))"
    using GetRange_covers(3) [of "[f]" f] fok by simp
  show thesis
  proof (cases "level = 0")
    case True
    obtain ins where ins: "overlapping c vs 0 (GetRange c [f]) = Some ins" "set ins \<subseteq> set (vfiles (current vs) ! 0)"
      "set (overlapping_files c (GetRange c [f]) (vfiles (current vs) ! 0)) \<subseteq> set ins"
      "ins \<noteq> [] \<longrightarrow> complete_inputs c (vfiles (current vs) ! 0) ins"
      using overlapping_any [OF ok, of 0 "GetRange c [f]"] level True by (metis add_lessD1)
    have mem: "f \<in> set ins"
      using ins(3) f True file_overlaps_range [OF fok r] by (auto simp: overlapping_files_def)
    have ne: "ins \<noteq> []"
      using mem by auto
    let ?k = "(new_Compaction 0)\<lparr>input_version := Some (current vs), inputs0 := ins\<rparr>"
    obtain k' vs' where "SetupOtherInputs c ?k vs = Some (k', vs')" "compaction_ok c (current vs) k'" "c_level k' = 0"
      "set ins \<subseteq> set (inputs0 k')" "current vs' = current vs" "input_version k' = Some (current vs)"
    proof (rule SetupOtherInputs_ok [OF ok, of ?k])
      show "inputs0 ?k \<noteq> []" "set (inputs0 ?k) \<subseteq> set (vfiles (current vs) ! c_level ?k)"
        "complete_inputs c (vfiles (current vs) ! 0) (inputs0 ?k)"
        using ne ins(2) ins(4) ne by (simp_all add: new_Compaction_def)
    qed (use level True in \<open>simp_all add: new_Compaction_def\<close>)
    with that [of k' vs'] mem ins(1) True show thesis
      by (auto simp: start_compaction_def Let_def)
  next
    case False
    let ?k = "(new_Compaction level)\<lparr>inputs0 := [f], input_version := Some (current vs)\<rparr>"
    obtain k' vs' where "SetupOtherInputs c ?k vs = Some (k', vs')" "compaction_ok c (current vs) k'" "c_level k' = level"
      "f \<in> set (inputs0 k')" "current vs' = current vs" "input_version k' = Some (current vs)"
      by (rule SetupOtherInputs_ok [OF ok, of ?k]) (use level False f in \<open>simp_all add: new_Compaction_def\<close>)
    with that [of k' vs'] False show thesis
      by (simp add: start_compaction_def Let_def)
  qed
qed

end

section \<open>Scores\<close>

text \<open>What the floating-point unit promises: rounding is monotone and keeps the integers up to
  \<open>2 ^ 53\<close>.\<close>

definition rounding :: "(rat \<Rightarrow> rat) \<Rightarrow> bool" where
  "rounding rnd \<longleftrightarrow> mono rnd \<and> (\<forall>n. n \<le> 2 ^ 53 \<longrightarrow> rnd (of_nat n) = of_nat n)"

definition level_overfull :: "Version \<Rightarrow> nat \<Rightarrow> bool" where
  "level_overfull v l \<longleftrightarrow>
     (if l = 0 then kL0_CompactionTrigger \<le> length (vfiles v ! 0)
      else MaxBytesForLevel l \<le> of_nat (unat (TotalFileSize (vfiles v ! l))))"

lemma MaxBytes_loop_eq: "MaxBytes_loop (Suc n) r = r * 10 ^ n"
  by (induction n arbitrary: r) (subst MaxBytes_loop.simps, simp)+

lemma MaxBytesForLevel_values:
  assumes "0 < l" "l < kNumLevels"
  obtains n where "MaxBytesForLevel l = of_nat n" "0 < n" "n \<le> 2 ^ 53"
proof -
  obtain m where m: "l = Suc m" "m \<le> 5"
    using assms by (cases l) (auto simp: kNumLevels_def)
  have "10 ^ m \<le> (10 ^ 5 :: nat)"
    using m(2) by (rule power_increasing) simp
  then have "10485760 * 10 ^ m \<le> (2 ^ 53 :: nat)"
    by simp
  moreover have "MaxBytesForLevel l = of_nat (10485760 * 10 ^ m)"
    by (simp add: MaxBytesForLevel_def m(1) MaxBytes_loop_eq)
  ultimately show thesis
    by (intro that [of "10485760 * 10 ^ m"]) simp_all
qed

lemma rounding_ge_1:
  assumes "rounding rnd" "1 \<le> x"
  shows "1 \<le> rnd x"
proof -
  have "rnd 1 = 1"
    using assms(1) by (auto simp: rounding_def dest: spec [of _ 1])
  then show ?thesis
    using assms monoD [of rnd 1 x] by (simp add: rounding_def)
qed

lemma level_score_overfull:
  assumes rnd: "rounding rnd" and l: "l < kNumLevels" and full: "level_overfull v l"
  shows "1 \<le> level_score rnd v l"
proof (cases "l = 0")
  case True
  then have "(1 :: rat) \<le> of_nat (length (vfiles v ! 0)) / of_nat kL0_CompactionTrigger"
    using full by (simp add: level_overfull_def kL0_CompactionTrigger_def)
  then show ?thesis
    using True rounding_ge_1 [OF rnd] by (simp add: level_score_def)
next
  case False
  then obtain n where n: "MaxBytesForLevel l = of_nat n" "0 < n" "n \<le> 2 ^ 53"
    using MaxBytesForLevel_values l by blast
  have "rnd (of_nat n) \<le> rnd (of_nat (unat (TotalFileSize (vfiles v ! l))))"
    using full False rnd monoD [of rnd] by (simp add: level_overfull_def n(1) rounding_def)
  then have "(1 :: rat) \<le> rnd (of_nat (unat (TotalFileSize (vfiles v ! l)))) / of_nat n"
    using n rnd by (simp add: rounding_def)
  then show ?thesis
    using False rounding_ge_1 [OF rnd] n(1) by (simp add: level_score_def)
qed

lemma level_score_empty:
  assumes "rounding rnd" "vfiles v ! l = []"
  shows "level_score rnd v l = 0"
proof -
  have "rnd 0 = 0"
    using assms(1) by (auto simp: rounding_def dest: spec [of _ 0])
  then show ?thesis
    using assms(2) by (cases "l = 0") (simp_all add: level_score_def TotalFileSize_def)
qed

lemma best_level_fold:
  fixes score :: "nat \<Rightarrow> rat"
  assumes "(bl', bs') = foldl (\<lambda>(bl, bs) l. let sc = score l in if sc > bs then (int l, sc) else (bl, bs)) (bl, bs) ls"
  shows "bs \<le> bs' \<and> (\<forall>l \<in> set ls. score l \<le> bs') \<and> (bl' = bl \<and> bs' = bs \<or> (\<exists>l \<in> set ls. bl' = int l \<and> bs' = score l))"
  using assms
proof (induction ls arbitrary: bl bs)
  case (Cons l ls)
  show ?case
  proof (cases "score l > bs")
    case True
    then show ?thesis
      using Cons.IH [of "int l" "score l"] Cons.prems by (auto simp: Let_def)
  next
    case False
    then show ?thesis
      using Cons.IH [of bl bs] Cons.prems by (auto simp: Let_def)
  qed
qed simp

lemma Finalize_overfull:
  assumes rnd: "rounding rnd" and l: "l < kNumLevels - 1" and full: "level_overfull v l"
  shows "compaction_score (Finalize rnd v) \<ge> 1 \<and>
    (\<exists>b. compaction_level (Finalize rnd v) = int b \<and> b + 1 < kNumLevels \<and> vfiles v ! b \<noteq> [])"
proof -
  obtain bl bs where fold: "(bl, bs) = foldl (\<lambda>(bl, bs) l. let sc = level_score rnd v l in if sc > bs then (int l, sc) else (bl, bs))
      (- 1, - 1) [0..<kNumLevels - 1]"
    by (rule that [OF prod.collapse])
  have "Finalize rnd v = v\<lparr>compaction_level := bl, compaction_score := bs\<rparr>"
    unfolding Finalize_def fold [symmetric] by simp
  then have f: "compaction_level (Finalize rnd v) = bl" "compaction_score (Finalize rnd v) = bs"
    by simp_all
  note best = best_level_fold [OF fold]
  have "l \<in> set [0..<kNumLevels - 1]" "l < kNumLevels"
    using l by auto
  then have "1 \<le> bs"
    using best level_score_overfull [OF rnd _ full] by (meson order_trans)
  then have "bs \<noteq> - 1"
    by auto
  then obtain b where "b \<in> set [0..<kNumLevels - 1]" "bl = int b" "bs = level_score rnd v b"
    using best by blast
  moreover have "vfiles v ! b \<noteq> []"
    using \<open>1 \<le> bs\<close> level_score_empty [OF rnd, of v b] calculation(3) by auto
  ultimately show ?thesis
    using f \<open>1 \<le> bs\<close> by auto
qed

section \<open>Deeper levels\<close>

text \<open>Some file of the levels from \<open>n\<close> on covers the user key.\<close>

definition in_deeper :: "comparator \<Rightarrow> Version \<Rightarrow> nat \<Rightarrow> bytes \<Rightarrow> bool" where
  "in_deeper c v n u \<longleftrightarrow> list_ex (\<lambda>l. list_ex (\<lambda>f. Compare c (ExtractUserKey (smallest f)) u \<le> 0 \<and>
     Compare c u (ExtractUserKey (largest f)) \<le> 0) (vfiles v ! l)) [n..<kNumLevels]"

fun ask_all :: "comparator \<Rightarrow> bytes list \<Rightarrow> Compaction \<Rightarrow> (bool list \<times> Compaction) option" where
  "ask_all c [] k = Some ([], k)"
| "ask_all c (u # us) k = do {
     (b, k) \<leftarrow> IsBaseLevelForKey c u k;
     (bs, k) \<leftarrow> ask_all c us k;
     Some (b # bs, k)
   }"

context user_comparator
begin

text \<open>The files before a position end before the key.\<close>

definition past :: "bytes \<Rightarrow> FileMetaData list \<Rightarrow> nat \<Rightarrow> bool" where
  "past u fs n \<longleftrightarrow> (\<forall>i < n. i < length fs \<longrightarrow> Compare c (ExtractUserKey (largest (fs ! i))) u < 0)"

definition covers :: "bytes \<Rightarrow> FileMetaData \<Rightarrow> bool" where
  "covers u f \<longleftrightarrow> Compare c (ExtractUserKey (smallest f)) u \<le> 0 \<and> Compare c u (ExtractUserKey (largest f)) \<le> 0"

lemma base_scan_ok:
  assumes "level_sorted c fs" "base_scan c u (drop n fs) n = (found, i)" "past u fs n"
  shows "past u fs i \<and> (found \<longleftrightarrow> (\<exists>f \<in> set fs. covers u f))"
  using assms(2,3)
proof (induction "drop n fs" arbitrary: n)
  case Nil
  then have "\<not> covers u f" if "f \<in> set fs" for f
    using that cmp_le [of u "ExtractUserKey (largest f)"] by (auto simp: past_def covers_def in_set_conv_nth)
  with Nil show ?case
    by auto
next
  case (Cons f gs)
  have n: "n < length fs" "fs ! n = f" "drop (n + 1) fs = gs"
    using Cons.hyps(2) by (metis drop_eq_Nil list.discI not_le, metis drop_eq_Nil list.discI list.sel(1) hd_drop_conv_nth not_le,
        metis Suc_eq_plus1 list.sel(3) tl_drop drop_Suc)
  show ?case
  proof (cases "Compare c u (ExtractUserKey (largest f)) \<le> 0")
    case True
    then have r: "found \<longleftrightarrow> Compare c u (ExtractUserKey (smallest f)) \<ge> 0" "i = n"
      using Cons.prems(1) Cons.hyps(2) [symmetric] by auto
    have "\<exists>f \<in> set fs. covers u f" if found
      using that r True n cmp_ge [of u "ExtractUserKey (smallest f)"] by (auto simp: covers_def intro!: bexI [of _ f])
    moreover have "\<not> covers u g" if "g \<in> set fs" "\<not> found" for g
    proof -
      obtain j where j: "j < length fs" "g = fs ! j"
        using \<open>g \<in> set fs\<close> by (auto simp: in_set_conv_nth)
      have before: "BeforeFile c (Some u) (fs ! n)"
        using r \<open>\<not> found\<close> n by (simp add: BeforeFile_def)
      consider "j < n" | "j = n" | "n < j" by linarith
      then show ?thesis
      proof cases
        case 1
        then show ?thesis
          using Cons.prems(2) j cmp_le [of u "ExtractUserKey (largest g)"] by (auto simp: past_def covers_def)
      next
        case 2
        then show ?thesis
          using before j cmp_le [of "ExtractUserKey (smallest g)" u] by (simp add: BeforeFile_def covers_def)
      next
        case 3
        then show ?thesis
          using BeforeFile_mono [OF assms(1) 3 j(1) before] j cmp_le [of "ExtractUserKey (smallest g)" u]
          by (simp add: BeforeFile_def covers_def)
      qed
    qed
    ultimately show ?thesis
      using Cons.prems(2) r(2) by blast
  next
    case False
    have "base_scan c u (drop (n + 1) fs) (n + 1) = (found, i)"
      using Cons.prems(1) False n(3) Cons.hyps(2) [symmetric] by simp
    moreover have "past u fs (n + 1)"
      using Cons.prems(2) False n(2) cmp_le [of u "ExtractUserKey (largest f)"] by (auto simp: past_def less_Suc_eq)
    ultimately show ?thesis
      using Cons.hyps(1) [of "n + 1"] n(3) by blast
  qed
qed

lemma base_levels_ok:
  assumes "\<forall>l \<in> set lvls. level_sorted c (vfiles v ! l) \<and> l < length ptrs" "distinct lvls"
    "\<forall>l < length ptrs. past u (vfiles v ! l) (ptrs ! l)" "base_levels c u v lvls ptrs = (r, ptrs')"
  shows "(r \<longleftrightarrow> \<not> (\<exists>l \<in> set lvls. \<exists>f \<in> set (vfiles v ! l). covers u f)) \<and> length ptrs' = length ptrs \<and>
    (\<forall>l < length ptrs. past u (vfiles v ! l) (ptrs' ! l))"
  using assms
proof (induction lvls arbitrary: ptrs)
  case (Cons l lvls)
  obtain found i where scan: "base_scan c u (drop (ptrs ! l) (vfiles v ! l)) (ptrs ! l) = (found, i)"
    by (metis surj_pair)
  have 1: "past u (vfiles v ! l) i" "found \<longleftrightarrow> (\<exists>f \<in> set (vfiles v ! l). covers u f)"
    using base_scan_ok [OF _ scan] Cons.prems(1,3) by auto
  then have p: "\<forall>m < length ptrs. past u (vfiles v ! m) (ptrs[l := i] ! m)"
    using Cons.prems(3) by (metis nth_list_update_eq nth_list_update_neq)
  show ?case
  proof (cases found)
    case True
    then show ?thesis
      using Cons.prems(4) scan p 1(2) by auto
  next
    case False
    have "(r \<longleftrightarrow> \<not> (\<exists>l \<in> set lvls. \<exists>f \<in> set (vfiles v ! l). covers u f)) \<and> length ptrs' = length (ptrs[l := i]) \<and>
        (\<forall>m < length (ptrs[l := i]). past u (vfiles v ! m) (ptrs' ! m))"
      using Cons.prems False scan p by (intro Cons.IH) (auto simp: Let_def)
    with False 1(2) show ?thesis
      by auto
  qed
qed auto

lemma past_mono:
  assumes "past u fs n" "Compare c u u' \<le> 0"
  shows "past u' fs n"
  using assms(1) cmp_less_le_trans [OF TrueI TrueI TrueI _ assms(2)] by (simp add: past_def)

lemma in_deeper_iff: "in_deeper c v n u \<longleftrightarrow> (\<exists>l \<in> set [n..<kNumLevels]. \<exists>f \<in> set (vfiles v ! l). covers u f)"
  by (simp add: in_deeper_def covers_def list_ex_iff)

lemma ask_all_ok:
  assumes "\<forall>l. c_level k + 2 \<le> l \<and> l < kNumLevels \<longrightarrow> level_sorted c (vfiles v ! l)" "input_version k = Some v"
    "length (level_ptrs k) = kNumLevels" "sorted_wrt (\<lambda>u u'. Compare c u u' \<le> 0) us"
    "us \<noteq> [] \<Longrightarrow> \<forall>l < kNumLevels. past (hd us) (vfiles v ! l) (level_ptrs k ! l)"
  shows "\<exists>k'. ask_all c us k = Some (map (\<lambda>u. \<not> in_deeper c v (c_level k + 2) u) us, k')"
  using assms
proof (induction us arbitrary: k)
  case (Cons u us)
  let ?lvls = "[c_level k + 2..<kNumLevels]"
  obtain r ptrs where bl: "base_levels c u v ?lvls (level_ptrs k) = (r, ptrs)"
    by (metis surj_pair)
  have 1: "r \<longleftrightarrow> \<not> in_deeper c v (c_level k + 2) u" "length ptrs = kNumLevels" "\<forall>l < kNumLevels. past u (vfiles v ! l) (ptrs ! l)"
    using base_levels_ok [OF _ _ _ bl] Cons.prems unfolding in_deeper_iff by auto
  let ?k = "k\<lparr>level_ptrs := ptrs\<rparr>"
  have "\<exists>k'. ask_all c us ?k = Some (map (\<lambda>u. \<not> in_deeper c v (c_level ?k + 2) u) us, k')"
  proof (rule Cons.IH)
    show "\<forall>l < kNumLevels. past (hd us) (vfiles v ! l) (level_ptrs ?k ! l)" if "us \<noteq> []"
    proof -
      have "Compare c u (hd us) \<le> 0"
        using that Cons.prems(4) by (cases us) auto
      then show ?thesis
        using 1(3) past_mono [OF _ \<open>Compare c u (hd us) \<le> 0\<close>] by auto
    qed
  qed (use Cons.prems 1 in auto)
  moreover have "IsBaseLevelForKey c u k = Some (r, ?k)"
    using Cons.prems(2) bl by (simp add: IsBaseLevelForKey_def)
  ultimately show ?case
    using 1(1) by auto
qed simp

end

lemma first_input_some:
  assumes "vfiles (current vs) ! b \<noteq> []"
  shows "\<exists>f \<in> set (vfiles (current vs) ! b). first_input c vs b = Some f"
proof -
  let ?fs = "vfiles (current vs) ! b"
  let ?P = "\<lambda>f. compact_pointer vs ! b = [] \<or> Compare (InternalKeyComparator c) (largest f) (compact_pointer vs ! b) > 0"
  show ?thesis
  proof (cases "find ?P ?fs")
    case None
    with assms show ?thesis
      by (cases ?fs) (auto simp: first_input_def Let_def simp del: find.simps)
  next
    case (Some f)
    then have "f \<in> set ?fs"
      by (auto simp: find_Some_iff)
    with Some show ?thesis
      by (simp add: first_input_def)
  qed
qed

lemma GetRange_same_user:
  assumes "fs \<noteq> []" "\<forall>f \<in> set fs. ExtractUserKey (smallest f) = u \<and> ExtractUserKey (largest f) = u"
  shows "user_range (GetRange c fs) = (Some u, Some u)"
proof -
  have "ExtractUserKey (fst (GetRange_loop c gs r)) = u \<and> ExtractUserKey (snd (GetRange_loop c gs r)) = u"
    if "\<forall>f \<in> set gs. ExtractUserKey (smallest f) = u \<and> ExtractUserKey (largest f) = u"
      "ExtractUserKey (fst r) = u" "ExtractUserKey (snd r) = u" for gs r
    using that by (induction gs arbitrary: r) simp_all
  then show ?thesis
    using assms by (cases fs) (simp_all add: GetRange_def user_range_def)
qed

section \<open>Properties\<close>

text \<open>(C38) A level that has outgrown its limit gets compacted: after the scores have been computed
  for a version in which level 0 holds too many files or a higher level too many bytes,
  a compaction is picked at the level with the best score, which is at least 1.  Its inputs
  are files of that level, among them the first file behind the compaction pointer; at
  level 0 no file that overlaps the range of user keys of the inputs is left behind, while
  above level 0 one may be.  Its inputs from the next level are exactly the files there
  that overlap that range, and its grandparents the files of the level after that which
  overlap the range of all inputs.\<close>

theorem overfull_level_is_compacted:
  assumes "rounding rnd" "files_ok BytewiseComparator v" "l < kNumLevels - 1" "level_overfull v l" "current vs = Finalize rnd v"
  shows "\<exists>k vs' f. PickCompaction BytewiseComparator vs = Some (Some k, vs') \<and>
    compaction_score (current vs) \<ge> 1 \<and> c_level k = nat (compaction_level (current vs)) \<and> c_level k + 1 < kNumLevels \<and>
    first_input BytewiseComparator vs (c_level k) = Some f \<and> f \<in> set (inputs0 k) \<and>
    set (inputs0 k) \<subseteq> set (vfiles v ! c_level k) \<and>
    (c_level k = 0 \<longrightarrow> complete_inputs BytewiseComparator (vfiles v ! 0) (inputs0 k)) \<and>
    inputs1 k = overlapping_files BytewiseComparator (GetRange BytewiseComparator (inputs0 k)) (vfiles v ! (c_level k + 1)) \<and>
    (c_level k + 2 < kNumLevels \<longrightarrow> grandparents k =
       overlapping_files BytewiseComparator (GetRange2 BytewiseComparator (inputs0 k) (inputs1 k)) (vfiles v ! (c_level k + 2)))"
proof -
  obtain b where b: "compaction_score (current vs) \<ge> 1" "nat (compaction_level (current vs)) = b" "b + 1 < kNumLevels"
      "vfiles v ! b \<noteq> []"
    using Finalize_overfull [OF assms(1,3,4)] assms(5) by auto
  have files: "vfiles (current vs) = vfiles v"
    by (simp add: assms(5) Finalize_def split: prod.split)
  then have ok: "files_ok BytewiseComparator (current vs)"
    using assms(2) by (simp add: files_ok_def)
  obtain f where f: "first_input BytewiseComparator vs b = Some f" "f \<in> set (vfiles (current vs) ! b)"
    using first_input_some [of vs b] b(4) files by auto
  obtain k vs' where k: "start_compaction BytewiseComparator b f vs = Some (k, vs')" "compaction_ok BytewiseComparator (current vs) k"
      "f \<in> set (inputs0 k)" "c_level k = b"
    by (rule bytewise_keys.start_compaction_ok [OF ok b(3) f(2)])
  then have "PickCompaction BytewiseComparator vs = Some (Some k, vs')"
    using b(1,2) f(1) by (simp add: PickCompaction_def Let_def)
  then show ?thesis
    using b f(1) k(2-4) files by (intro exI [of _ k] exI [of _ vs'] exI [of _ f]) (simp add: compaction_ok_def)
qed

text \<open>Four files of level 0 with one user key, and a file of level 1 that has the key too.\<close>

theorem overfull_level_is_compacted_witness:
  "let f = (\<lambda>n. new_FileMetaData n 100 (InternalKey [97] n kTypeValue) (InternalKey [97] n kTypeValue));
       v = new_Version\<lparr>vfiles := [[f 1, f 2, f 3, f 4], [f 9], [], [], [], [], []]\<rparr>
   in \<exists>k vs'. PickCompaction BytewiseComparator (new_VersionSet\<lparr>current := Finalize id v\<rparr>) = Some (Some k, vs') \<and>
     c_level k = 0 \<and> set (inputs0 k) = {f 1, f 2, f 3, f 4} \<and> inputs1 k = [f 9]"
proof -
  let ?f = "\<lambda>n. new_FileMetaData n 100 (InternalKey [97] n kTypeValue) (InternalKey [97] n kTypeValue)"
  let ?v = "new_Version\<lparr>vfiles := [[?f 1, ?f 2, ?f 3, ?f 4], [?f 9], [], [], [], [], []]\<rparr>"
  let ?vs = "new_VersionSet\<lparr>current := Finalize id ?v\<rparr>"
  have 1: "rounding id"
    by (simp add: rounding_def mono_def)
  have "(n :: uint64) \<le> kMaxSequenceNumber" if "n \<in> {1, 2, 3, 4, 9}" for n
    using that by (auto simp: kMaxSequenceNumber_eq word_le_nat_alt)
  then have 2: "files_ok BytewiseComparator ?v"
    using single_key_file_ok by (simp add: files_ok_def kNumLevels_def)
  have 3: "0 < kNumLevels - 1" "level_overfull ?v 0" "current ?vs = Finalize id ?v"
    by (simp_all add: kNumLevels_def level_overfull_def kL0_CompactionTrigger_def)
  have level: "compaction_level (Finalize id ?v) = 0"
    by code_simp
  obtain k vs' g where pick: "PickCompaction BytewiseComparator ?vs = Some (Some k, vs')"
      "c_level k = nat (compaction_level (current ?vs))" "g \<in> set (inputs0 k)" "set (inputs0 k) \<subseteq> set (vfiles ?v ! c_level k)"
      "c_level k = 0 \<longrightarrow> complete_inputs BytewiseComparator (vfiles ?v ! 0) (inputs0 k)"
      "inputs1 k = overlapping_files BytewiseComparator (GetRange BytewiseComparator (inputs0 k)) (vfiles ?v ! (c_level k + 1))"
    using overfull_level_is_compacted [OF 1 2 3] by (elim exE conjE) (rule that; assumption)
  have zero: "c_level k = 0" and ne: "inputs0 k \<noteq> []"
    using pick(2,3) level by auto
  have ins: "set (inputs0 k) \<subseteq> {?f 1, ?f 2, ?f 3, ?f 4}" "complete_inputs BytewiseComparator [?f 1, ?f 2, ?f 3, ?f 4] (inputs0 k)"
      "inputs1 k = overlapping_files BytewiseComparator (GetRange BytewiseComparator (inputs0 k)) [?f 9]"
    using pick(4-6) by (simp_all add: zero)
  have "user_range (GetRange BytewiseComparator (inputs0 k)) = (Some [97], Some [97])"
    by (rule GetRange_same_user [OF ne]) (use ins(1) in \<open>auto simp: new_FileMetaData_def\<close>)
  moreover have "overlaps BytewiseComparator (Some [97]) (Some [97]) (?f n)" for n
    by (simp add: overlaps_def AfterFile_def BeforeFile_def new_FileMetaData_def bytewise_Compare slice_compare_simps)
  ultimately have "set (inputs0 k) = {?f 1, ?f 2, ?f 3, ?f 4}" "inputs1 k = [?f 9]"
    using ins by (auto simp: complete_inputs_def overlapping_files_def)
  with pick(1) zero show ?thesis
    unfolding Let_def by blast
qed

text \<open>(C39) A compaction asks, for each of its keys in ascending order, whether a file further down
  covers the key, and scans each level only once: the position it keeps per level gives
  the same answers as a scan of all files of the levels from the grandparents on.\<close>

theorem base_level_answers:
  assumes "\<forall>l. c_level k + 2 \<le> l \<and> l < kNumLevels \<longrightarrow> level_sorted BytewiseComparator (vfiles v ! l)" "input_version k = Some v"
    "level_ptrs k = replicate kNumLevels 0" "sorted_wrt (\<lambda>u u'. slice_compare u u' \<le> 0) us"
  shows "\<exists>k'. ask_all BytewiseComparator us k = Some (map (\<lambda>u. \<not> in_deeper BytewiseComparator v (c_level k + 2) u) us, k')"
  using assms by (intro bytewise_keys.ask_all_ok) (simp_all add: bytewise_keys.past_def bytewise_Compare)

theorem base_level_answers_witness:
  "let v = new_Version\<lparr>vfiles := [[], [], [new_FileMetaData 9 100 (InternalKey [97] 1 kTypeValue) (InternalKey [97] 1 kTypeValue)], [], [], [], []]\<rparr>
   in \<exists>k'. ask_all BytewiseComparator [[96], [97], [98]] ((new_Compaction 0)\<lparr>input_version := Some v\<rparr>) = Some ([True, False, True], k')"
proof -
  let ?f = "new_FileMetaData 9 100 (InternalKey [97] 1 kTypeValue) (InternalKey [97] 1 kTypeValue)"
  let ?v = "new_Version\<lparr>vfiles := [[], [], [?f], [], [], [], []]\<rparr>"
  let ?k = "(new_Compaction 0)\<lparr>input_version := Some ?v\<rparr>"
  have "(1 :: uint64) \<le> kMaxSequenceNumber"
    by (simp add: kMaxSequenceNumber_eq word_le_nat_alt)
  then have "level_sorted BytewiseComparator [?f]" "level_sorted BytewiseComparator []"
    using single_key_file_ok by (simp_all add: level_sorted_def)
  then have 1: "\<forall>l. c_level ?k + 2 \<le> l \<and> l < kNumLevels \<longrightarrow> level_sorted BytewiseComparator (vfiles ?v ! l)"
    by (auto simp: kNumLevels_def less_Suc_eq numeral_eq_Suc new_Compaction_def)
  have 2: "input_version ?k = Some ?v" "level_ptrs ?k = replicate kNumLevels 0"
    "sorted_wrt (\<lambda>u u'. slice_compare u u' \<le> 0) [[96], [97], [98]]" "c_level ?k + 2 = 2"
    by (simp_all add: new_Compaction_def slice_compare_simps)
  have 3: "map (\<lambda>u. \<not> in_deeper BytewiseComparator ?v (c_level ?k + 2) u) [[96], [97], [98]] = [True, False, True]"
    unfolding 2(4)
    by (simp add: in_deeper_def kNumLevels_def upt_rec new_FileMetaData_def bytewise_Compare slice_compare_simps)
  show ?thesis
    using base_level_answers [OF 1 2(1-3)] unfolding Let_def 3 .
qed

end
