(* ===== verification/Filenames.thy ===== *)
theory Filenames
  imports Comparator Status
begin

text \<open>
  The names of the database's files (\<^verbatim>\<open>db/filename.h\<close>, \<^verbatim>\<open>db/filename.cc\<close>), how they are parsed,
  and the number and string formatting of \<^verbatim>\<open>util/logging.cc\<close>.
\<close>

section \<open>Definitions\<close>

subsection \<open>Formatting\<close>

text \<open>The digits of \<^verbatim>\<open>%llu\<close>, padded with zeros for \<^verbatim>\<open>%06llu\<close>.\<close>

fun llu :: "nat \<Rightarrow> bytes" where
  "llu n = (if n < 10 then [48 + word_of_nat n] else llu (n div 10) @ [48 + word_of_nat (n mod 10)])"

declare llu.simps [simp del]

definition llu06 :: "nat \<Rightarrow> bytes" where
  "llu06 n = replicate (6 - length (llu n)) 48 @ llu n"

definition AppendNumberTo :: "bytes \<Rightarrow> uint64 \<Rightarrow> bytes" where
  "AppendNumberTo str num = str @ llu (unat num)"

definition NumberToString :: "uint64 \<Rightarrow> bytes" where
  "NumberToString num = AppendNumberTo [] num"

definition hex_digit :: "nat \<Rightarrow> byte" where
  "hex_digit n = (if n < 10 then 48 + word_of_nat n else 87 + word_of_nat n)"

text \<open>A byte is a \<^verbatim>\<open>char\<close>, which is signed: bytes from 128 on are below the blank.\<close>

definition AppendEscapedStringTo :: "bytes \<Rightarrow> bytes \<Rightarrow> bytes" where
  "AppendEscapedStringTo str value =
     str @ concat (map (\<lambda>c. if 32 \<le> c \<and> c \<le> 126 then [c]
                           else [92, 120, hex_digit (unat c div 16), hex_digit (unat c mod 16)]) value)"

definition EscapeString :: "bytes \<Rightarrow> bytes" where
  "EscapeString value = AppendEscapedStringTo [] value"

text \<open>\<open>None\<close> is the answer \<^verbatim>\<open>false\<close> on overflow.\<close>

fun ConsumeDecimal_loop :: "bytes \<Rightarrow> uint64 \<Rightarrow> nat \<Rightarrow> (uint64 \<times> nat \<times> bytes) option" where
  "ConsumeDecimal_loop [] v digits = Some (v, digits, [])"
| "ConsumeDecimal_loop (c # inp) v digits =
     (if 48 \<le> c \<and> c \<le> 57 then
        let delta = ucast (c - 48) :: uint64; kMaxUint64 = - 1 :: uint64 in
        if v > kMaxUint64 div 10 \<or> v = kMaxUint64 div 10 \<and> delta > kMaxUint64 mod 10 then None
        else ConsumeDecimal_loop inp (v * 10 + delta) (digits + 1)
      else Some (v, digits, c # inp))"

definition ConsumeDecimalNumber :: "bytes \<Rightarrow> (uint64 \<times> bytes) option" where
  "ConsumeDecimalNumber inp =
     (case ConsumeDecimal_loop inp 0 0 of
        None \<Rightarrow> None
      | Some (v, digits, rest) \<Rightarrow> if digits > 0 then Some (v, rest) else None)"

subsection \<open>Names\<close>

datatype FileType =
  kLogFile | kDBLockFile | kTableFile | kDescriptorFile | kCurrentFile | kTempFile | kInfoLogFile | kMapFile

definition MakeFileName :: "bytes \<Rightarrow> uint64 \<Rightarrow> string \<Rightarrow> bytes" where
  "MakeFileName name num suffix = name @ lit ''/'' @ llu06 (unat num) @ lit ''.'' @ lit suffix"

definition LogFileName :: "bytes \<Rightarrow> uint64 \<Rightarrow> bytes" where
  "LogFileName name num = MakeFileName name num ''log''"

definition MapFileName :: "bytes \<Rightarrow> uint64 \<Rightarrow> bytes" where
  "MapFileName name num = MakeFileName name num ''map''"

definition TableFileName :: "bytes \<Rightarrow> uint64 \<Rightarrow> bytes" where
  "TableFileName name num = MakeFileName name num ''ldb''"

definition SSTTableFileName :: "bytes \<Rightarrow> uint64 \<Rightarrow> bytes" where
  "SSTTableFileName name num = MakeFileName name num ''sst''"

definition DescriptorFileName :: "bytes \<Rightarrow> uint64 \<Rightarrow> bytes" where
  "DescriptorFileName dbname num = dbname @ lit ''/MANIFEST-'' @ llu06 (unat num)"

definition CurrentFileName :: "bytes \<Rightarrow> bytes" where
  "CurrentFileName dbname = dbname @ lit ''/CURRENT''"

definition LockFileName :: "bytes \<Rightarrow> bytes" where
  "LockFileName dbname = dbname @ lit ''/LOCK''"

definition TempFileName :: "bytes \<Rightarrow> uint64 \<Rightarrow> bytes" where
  "TempFileName dbname num = MakeFileName dbname num ''dbtmp''"

definition InfoLogFileName :: "bytes \<Rightarrow> bytes" where
  "InfoLogFileName dbname = dbname @ lit ''/LOG''"

definition OldInfoLogFileName :: "bytes \<Rightarrow> bytes" where
  "OldInfoLogFileName dbname = dbname @ lit ''/LOG.old''"

definition ParseFileName :: "bytes \<Rightarrow> (uint64 \<times> FileType) option" where
  "ParseFileName fname =
     (if fname = lit ''CURRENT'' then Some (0, kCurrentFile)
      else if fname = lit ''LOCK'' then Some (0, kDBLockFile)
      else if fname = lit ''LOG'' \<or> fname = lit ''LOG.old'' then Some (0, kInfoLogFile)
      else if starts_with fname (lit ''MANIFEST-'') then
        case ConsumeDecimalNumber (remove_prefix (length (lit ''MANIFEST-'')) fname) of
          None \<Rightarrow> None
        | Some (num, rest) \<Rightarrow> if rest \<noteq> [] then None else Some (num, kDescriptorFile)
      else
        case ConsumeDecimalNumber fname of
          None \<Rightarrow> None
        | Some (num, suffix) \<Rightarrow>
            if suffix = lit ''.log'' then Some (num, kLogFile)
            else if suffix = lit ''.sst'' \<or> suffix = lit ''.ldb'' then Some (num, kTableFile)
            else if suffix = lit ''.dbtmp'' then Some (num, kTempFile)
            else if suffix = lit ''.map'' then Some (num, kMapFile)
            else None)"

section \<open>Numbers\<close>

definition is_digit :: "byte \<Rightarrow> bool" where
  "is_digit c \<longleftrightarrow> 48 \<le> c \<and> c \<le> 57"

definition number_of_digits :: "nat \<Rightarrow> bytes \<Rightarrow> nat" where
  "number_of_digits v ds = foldl (\<lambda>v c. v * 10 + unat (c - 48)) v ds"

lemma number_of_digits_ge: "v \<le> number_of_digits v ds"
proof (induction ds arbitrary: v)
  case (Cons d ds)
  show ?case
    using Cons [of "v * 10 + unat (d - 48)"] by (simp add: number_of_digits_def)
qed (simp add: number_of_digits_def)

lemma ConsumeDecimal_loop_digits:
  assumes "\<forall>c \<in> set ds. is_digit c" "number_of_digits (unat v) ds < 2 ^ 64" "rest = [] \<or> \<not> is_digit (hd rest)"
  shows "ConsumeDecimal_loop (ds @ rest) v n = Some (word_of_nat (number_of_digits (unat v) ds), n + length ds, rest)"
  using assms(1,2)
proof (induction ds arbitrary: v n)
  case Nil
  then show ?case
    using assms(3) by (cases rest) (auto simp: number_of_digits_def is_digit_def)
next
  case (Cons d ds)
  let ?delta = "ucast (d - 48) :: uint64"
  have delta: "unat ?delta = unat (d - 48)"
    by (simp add: unat_ucast_up)
  have less: "unat v * 10 + unat (d - 48) < 2 ^ 64"
    using Cons.prems(2) number_of_digits_ge [of "unat v * 10 + unat (d - 48)" ds] by (simp add: number_of_digits_def)
  then have step: "unat (v * 10 + ?delta) = unat v * 10 + unat (d - 48)"
    by (simp add: unat_word_ariths delta)
  have ov: "\<not> (v > (- 1) div 10 \<or> v = (- 1) div 10 \<and> ?delta > (- 1) mod 10)"
  proof -
    have *: "((- 1) :: uint64) div 10 = 1844674407370955161" "((- 1) :: uint64) mod 10 = 5"
      by simp_all
    show ?thesis
      unfolding * word_less_nat_alt word_unat_eq_iff delta using less by auto
  qed
  have "ConsumeDecimal_loop ((d # ds) @ rest) v n = ConsumeDecimal_loop (ds @ rest) (v * 10 + ?delta) (n + 1)"
    using Cons.prems(1) ov by (auto simp: is_digit_def Let_def)
  also have "\<dots> = Some (word_of_nat (number_of_digits (unat (v * 10 + ?delta)) ds), n + 1 + length ds, rest)"
    using Cons.prems by (intro Cons.IH) (simp_all add: step number_of_digits_def)
  finally show ?case
    by (simp add: step number_of_digits_def)
qed

lemma digit_char: "n < 10 \<Longrightarrow> is_digit (48 + word_of_nat n) \<and> unat (48 + word_of_nat n - 48 :: byte) = n"
  by (simp add: is_digit_def word_le_nat_alt unat_word_ariths unat_of_nat)

lemma llu_digits:
  "(\<forall>c \<in> set (llu n). is_digit c) \<and> number_of_digits 0 (llu n) = n \<and> llu n \<noteq> []"
proof (induction n rule: llu.induct)
  case (1 n)
  show ?case
  proof (cases "n < 10")
    case True
    then show ?thesis
      using digit_char [OF True] by (subst (1 2 3) llu.simps) (simp add: number_of_digits_def)
  next
    case False
    then show ?thesis
      using 1 digit_char [of "n mod 10"] by (subst (1 2 3) llu.simps) (auto simp: number_of_digits_def)
  qed
qed

lemma llu06_digits:
  "(\<forall>c \<in> set (llu06 n). is_digit c) \<and> number_of_digits 0 (llu06 n) = n \<and> llu06 n \<noteq> []"
proof -
  have zeros: "number_of_digits 0 (replicate k 48 @ ds) = number_of_digits 0 ds" for k ds
    by (induction k) (simp_all add: number_of_digits_def)
  show ?thesis
    using llu_digits [of n] by (auto simp: llu06_def zeros is_digit_def)
qed

lemma Consume_llu06:
  assumes "rest = [] \<or> \<not> is_digit (hd rest)"
  shows "ConsumeDecimalNumber (llu06 (unat n) @ rest) = Some (n, rest)"
proof -
  have "number_of_digits 0 (llu06 (unat n)) < 2 ^ 64"
    using llu06_digits [of "unat n"] unsigned_less [of n] by simp
  then have "ConsumeDecimal_loop (llu06 (unat n) @ rest) 0 0 = Some (n, length (llu06 (unat n)), rest)"
    using ConsumeDecimal_loop_digits [OF _ _ assms, of "llu06 (unat n)" 0 0] llu06_digits [of "unat n"] by simp
  then show ?thesis
    using llu06_digits [of "unat n"] by (simp add: ConsumeDecimalNumber_def)
qed

section \<open>Properties\<close>

lemma first_digit: "\<exists>c ds. llu06 n = c # ds \<and> is_digit c"
  using llu06_digits [of n] by (cases "llu06 n") auto

lemma Parse_numbered:
  assumes "suffix \<in> {lit ''.log'', lit ''.sst'', lit ''.ldb'', lit ''.dbtmp'', lit ''.map''}"
  shows "ParseFileName (llu06 (unat n) @ suffix) =
    Some (n, if suffix = lit ''.log'' then kLogFile else if suffix = lit ''.sst'' \<or> suffix = lit ''.ldb'' then kTableFile
      else if suffix = lit ''.dbtmp'' then kTempFile else kMapFile)"
proof -
  have "suffix = [] \<or> \<not> is_digit (hd suffix)"
    using assms by (auto simp: lit_def is_digit_def)
  note c = Consume_llu06 [OF this, of n]
  obtain d ds where d: "llu06 (unat n) = d # ds" "is_digit d"
    using first_digit by blast
  then have "d \<notin> {67, 76, 77}"
    by (auto simp: is_digit_def word_le_nat_alt)
  then show ?thesis
    using c assms d(1) by (auto simp: ParseFileName_def lit_def starts_with_def split: if_splits)
qed

lemma Parse_manifest: "ParseFileName (lit ''MANIFEST-'' @ llu06 (unat n)) = Some (n, kDescriptorFile)"
  using Consume_llu06 [of "[]" n]
  by (simp add: ParseFileName_def lit_def starts_with_def remove_prefix_def)

text \<open>(C40) Every name the database gives to a file is parsed back: the part after the directory
  of the name of a log, map, table, temporary or manifest file gives the number and the
  type it was made from, for every 64-bit number, and the names without a number give
  their type.\<close>

theorem file_names_parse:
  "let base = drop (length dbname + 1) in
   ParseFileName (base (LogFileName dbname n)) = Some (n, kLogFile) \<and>
   ParseFileName (base (MapFileName dbname n)) = Some (n, kMapFile) \<and>
   ParseFileName (base (TableFileName dbname n)) = Some (n, kTableFile) \<and>
   ParseFileName (base (SSTTableFileName dbname n)) = Some (n, kTableFile) \<and>
   ParseFileName (base (TempFileName dbname n)) = Some (n, kTempFile) \<and>
   ParseFileName (base (DescriptorFileName dbname n)) = Some (n, kDescriptorFile) \<and>
   ParseFileName (base (CurrentFileName dbname)) = Some (0, kCurrentFile) \<and>
   ParseFileName (base (LockFileName dbname)) = Some (0, kDBLockFile) \<and>
   ParseFileName (base (InfoLogFileName dbname)) = Some (0, kInfoLogFile) \<and>
   ParseFileName (base (OldInfoLogFileName dbname)) = Some (0, kInfoLogFile)"
proof -
  have make: "drop (length dbname + 1) (MakeFileName dbname n suffix) = llu06 (unat n) @ lit (''.'' @ suffix)" for suffix
    by (simp add: MakeFileName_def lit_def)
  have "ParseFileName (drop (length dbname + 1) (DescriptorFileName dbname n)) = Some (n, kDescriptorFile)"
    using Parse_manifest [of n] by (simp add: DescriptorFileName_def lit_def)
  moreover have "ParseFileName (llu06 (unat n) @ lit (''.'' @ suffix)) =
      Some (n, if suffix = ''log'' then kLogFile else if suffix = ''sst'' \<or> suffix = ''ldb'' then kTableFile
        else if suffix = ''dbtmp'' then kTempFile else kMapFile)" if "suffix \<in> {''log'', ''sst'', ''ldb'', ''dbtmp'', ''map''}" for suffix
    using that Parse_numbered [of "lit (''.'' @ suffix)" n] by (elim insertE) (simp_all add: lit_def)
  moreover have "ParseFileName (drop (length dbname + 1) (CurrentFileName dbname)) = Some (0, kCurrentFile)"
    "ParseFileName (drop (length dbname + 1) (LockFileName dbname)) = Some (0, kDBLockFile)"
    "ParseFileName (drop (length dbname + 1) (InfoLogFileName dbname)) = Some (0, kInfoLogFile)"
    "ParseFileName (drop (length dbname + 1) (OldInfoLogFileName dbname)) = Some (0, kInfoLogFile)"
    by (simp_all add: CurrentFileName_def LockFileName_def InfoLogFileName_def OldInfoLogFileName_def ParseFileName_def lit_def)
  ultimately show ?thesis
    unfolding Let_def LogFileName_def MapFileName_def TableFileName_def SSTTableFileName_def TempFileName_def make
    by simp
qed

end
