(* ===== verification/Manifest.thy ===== *)
theory Manifest
  imports Compactions Filenames MemEnv
begin

text \<open>
  The manifest (\<^verbatim>\<open>VersionSet::LogAndApply\<close>, \<^verbatim>\<open>WriteSnapshot\<close>, \<^verbatim>\<open>Recover\<close> and \<^verbatim>\<open>ReuseManifest\<close> of
  \<^verbatim>\<open>db/version_set.cc\<close>): the log of version edits from which a database is opened.  What the
  environment answers to the calls on files is a parameter of each operation; the log
  itself is written and read by the log writer and reader.
\<close>

section \<open>Definitions\<close>

subsection \<open>Logging an edit\<close>

text \<open>The answers of the environment: opening the new manifest, syncing it, and making it the
  current one.\<close>

record 'f manifest_io =
  io_file :: "Status \<times> 'f"
  io_sync :: "'f \<Rightarrow> Status \<times> 'f"
  io_current :: Status

definition snapshot_edit :: "bytes \<Rightarrow> VersionSet \<Rightarrow> VersionEdit" where
  "snapshot_edit name vs =
     (let edit = SetComparatorName name new_VersionEdit;
          edit = fold (\<lambda>level e. if compact_pointer vs ! level \<noteq> []
                   then SetCompactPointer level (compact_pointer vs ! level) e else e) [0..<kNumLevels] edit
      in fold (\<lambda>level e. fold (\<lambda>f. AddFile level (number f) (file_size f) (smallest f) (largest f))
           (vfiles (current vs) ! level) e) [0..<kNumLevels] edit)"

definition WriteSnapshot :: "bytes \<Rightarrow> 'f WritableFile \<Rightarrow> VersionSet \<Rightarrow> 'f Writer \<Rightarrow> Status \<times> 'f Writer" where
  "WriteSnapshot name wfile vs w = AddRecord wfile (EncodeTo (snapshot_edit name vs) []) w"

definition complete_edit :: "VersionSet \<Rightarrow> VersionEdit \<Rightarrow> VersionEdit" where
  "complete_edit vs edit =
     (let edit = (if has_log_number edit then edit else SetLogNumber (log_number vs) edit);
          edit = (if has_map_number edit then edit else SetMapNumber (map_number vs) edit);
          edit = (if \<not> has_prev_log_number edit then SetPrevLogNumber (prev_log_number vs) edit else edit);
          edit = SetNextFile (next_file_number vs) edit
      in SetLastSequence (last_sequence vs) edit)"

definition open_descriptor ::
    "bytes \<Rightarrow> 'f WritableFile \<Rightarrow> 'f manifest_io \<Rightarrow> VersionSet \<Rightarrow> 'f Writer option \<Rightarrow> Status \<times> 'f Writer option" where
  "open_descriptor name wfile io vs descriptor_log =
     (case descriptor_log of
        Some w \<Rightarrow> (OK, Some w)
      | None \<Rightarrow>
          let (s, f) = io_file io in
          if ok s then let (s, w) = WriteSnapshot name wfile vs (new_Writer f) in (s, Some w) else (s, None))"

definition write_edit ::
    "'f WritableFile \<Rightarrow> 'f manifest_io \<Rightarrow> VersionEdit \<Rightarrow> 'f Writer \<Rightarrow> Status \<times> 'f Writer" where
  "write_edit wfile io edit w =
     (let (s, w) = AddRecord wfile (EncodeTo edit []) w in
      if ok s then let (s, f) = io_sync io (dest w) in (s, w\<lparr>dest := f\<rparr>) else (s, w))"

definition LogAndApply ::
    "comparator \<Rightarrow> bytes \<Rightarrow> (rat \<Rightarrow> rat) \<Rightarrow> 'f WritableFile \<Rightarrow> 'f manifest_io \<Rightarrow> VersionEdit \<Rightarrow>
     VersionSet \<times> 'f Writer option \<Rightarrow> Status \<times> VersionSet \<times> 'f Writer option" where
  "LogAndApply ucmp name rnd wfile io edit st =
     (let (vs, descriptor_log) = st;
          edit = complete_edit vs edit;
          (vs, b) = Apply ucmp edit (vs, new_Builder (current vs));
          v = Finalize rnd (SaveTo ucmp b new_Version);
          new_manifest = (descriptor_log = None);
          edit = (if new_manifest then SetNextFile (next_file_number vs) edit else edit);
          (s, d) = open_descriptor name wfile io vs descriptor_log;
          (s, d) = (if ok s then (case d of None \<Rightarrow> (s, d) | Some w \<Rightarrow> let (s, w) = write_edit wfile io edit w in (s, Some w))
                    else (s, d));
          s = (if ok s \<and> new_manifest then io_current io else s)
      in if ok s then
           (s, (AppendVersion v vs)\<lparr>log_number := ve_log_number edit, prev_log_number := ve_prev_log_number edit,
                 map_number := ve_map_number edit\<rparr>, d)
         else (s, vs, if new_manifest then None else d))"

subsection \<open>Recovery\<close>

text \<open>The numbers read so far; \<open>None\<close> stands for a cleared flag.\<close>

record recovered =
  rc_log :: "uint64 option"
  rc_map :: "uint64 option"
  rc_prev_log :: "uint64 option"
  rc_next_file :: "uint64 option"
  rc_last_sequence :: "uint64 option"

definition no_numbers :: recovered where
  "no_numbers = \<lparr> rc_log = None, rc_map = None, rc_prev_log = None, rc_next_file = None, rc_last_sequence = None \<rparr>"

definition note_numbers :: "VersionEdit \<Rightarrow> recovered \<Rightarrow> recovered" where
  "note_numbers e rc =
     \<lparr> rc_log = (if has_log_number e then Some (ve_log_number e) else rc_log rc),
       rc_map = (if has_map_number e then Some (ve_map_number e) else rc_map rc),
       rc_prev_log = (if has_prev_log_number e then Some (ve_prev_log_number e) else rc_prev_log rc),
       rc_next_file = (if has_next_file_number e then Some (ve_next_file_number e) else rc_next_file rc),
       rc_last_sequence = (if has_last_sequence e then Some (ve_last_sequence e) else rc_last_sequence rc) \<rparr>"

type_synonym recovery = "recovered \<times> VersionSet \<times> Builder"

definition Recover_record :: "comparator \<Rightarrow> bytes \<Rightarrow> bytes \<Rightarrow> recovery \<Rightarrow> Status \<times> recovery" where
  "Recover_record ucmp name rec st =
     (let (rc, vs, b) = st;
          (s, edit) = DecodeFrom rec new_VersionEdit;
          s = (if ok s \<and> has_comparator edit \<and> ve_comparator edit \<noteq> name
               then InvalidArgument (ve_comparator edit @ lit '' does not match existing comparator '') name else s);
          (vs, b) = (if ok s then Apply ucmp edit (vs, b) else (vs, b))
      in (s, note_numbers edit rc, vs, b))"

text \<open>The reporter keeps the first corruption that is reported.\<close>

definition reported :: "(uint64 \<times> Status) list \<Rightarrow> Status \<Rightarrow> Status" where
  "reported rs s = foldl (\<lambda>s r. if ok s then snd r else s) s rs"

partial_function (option) Recover_loop ::
    "comparator \<Rightarrow> bytes \<Rightarrow> 'f SequentialFile \<Rightarrow> 'f Reader \<Rightarrow> Status \<Rightarrow> recovery \<Rightarrow> (Status \<times> recovery) option" where
  "Recover_loop ucmp name sf reader s st = do {
     (x, reader') \<leftarrow> ReadRecord sf reader;
     let s = reported (drop (length (reports reader)) (reports reader')) s;
     case x of
       None \<Rightarrow> Some (s, st)
     | Some rec \<Rightarrow>
         if \<not> ok s then Some (s, st)
         else let (s, st) = Recover_record ucmp name rec st in Recover_loop ucmp name sf reader' s st
   }"

declare Recover_loop.simps [code]

text \<open>The answers of the environment to \<^verbatim>\<open>Recover\<close>: the contents of \<^verbatim>\<open>CURRENT\<close>, the manifest opened for
  reading, the option to reuse it, its size, and the manifest opened for appending.\<close>

record ('f, 'g) recover_io =
  ri_current :: "Status \<times> bytes"
  ri_file :: "Status \<times> 'f"
  ri_reuse_logs :: bool
  ri_size :: "Status \<times> uint64"
  ri_append :: "Status \<times> 'g"

definition ReuseManifest :: "('f, 'g) recover_io \<Rightarrow> bytes \<Rightarrow> VersionSet \<Rightarrow> ('g Writer \<times> VersionSet) option" where
  "ReuseManifest io dscbase vs =
     (if \<not> ri_reuse_logs io then None
      else case ParseFileName dscbase of
        None \<Rightarrow> None
      | Some (manifest_number, manifest_type) \<Rightarrow>
          if manifest_type \<noteq> kDescriptorFile \<or> \<not> ok (fst (ri_size io)) \<or> snd (ri_size io) \<ge> kTargetFileSize then None
          else if \<not> ok (fst (ri_append io)) then None
          else Some (new_Writer_at (snd (ri_append io)) (snd (ri_size io)), vs\<lparr>manifest_file_number := manifest_number\<rparr>))"

definition missing_number :: "recovered \<Rightarrow> Status" where
  "missing_number rc =
     (if rc_next_file rc = None then Corruption (lit ''no meta-nextfile entry in descriptor'') []
      else if rc_log rc = None then Corruption (lit ''no meta-lognumber entry in descriptor'') []
      else if rc_last_sequence rc = None then Corruption (lit ''no last-sequence-number entry in descriptor'') []
      else if rc_map rc = None then Corruption (lit ''no meta-mapnumber entry in descriptor'') []
      else OK)"

definition number_or_0 :: "uint64 option \<Rightarrow> uint64" where
  "number_or_0 n = (case n of None \<Rightarrow> 0 | Some n \<Rightarrow> n)"

definition mark_recovered :: "recovered \<Rightarrow> VersionSet \<Rightarrow> VersionSet" where
  "mark_recovered rc vs =
     MarkFileNumberUsed (number_or_0 (rc_map rc))
       (MarkFileNumberUsed (number_or_0 (rc_log rc)) (MarkFileNumberUsed (number_or_0 (rc_prev_log rc)) vs))"

definition install_recovered :: "comparator \<Rightarrow> (rat \<Rightarrow> rat) \<Rightarrow> recovery \<Rightarrow> VersionSet" where
  "install_recovered ucmp rnd st =
     (let (rc, vs, b) = st; next_file = number_or_0 (rc_next_file rc) in
      (AppendVersion (Finalize rnd (SaveTo ucmp b new_Version)) vs)\<lparr>
        manifest_file_number := next_file, next_file_number := next_file + 1,
        last_sequence := number_or_0 (rc_last_sequence rc), log_number := number_or_0 (rc_log rc),
        map_number := number_or_0 (rc_map rc), prev_log_number := number_or_0 (rc_prev_log rc)\<rparr>)"

text \<open>The result: the status, the version set, the descriptor log when it is reused, and the
  flag \<^verbatim>\<open>save_manifest\<close>.\<close>

definition Recover ::
    "comparator \<Rightarrow> bytes \<Rightarrow> (rat \<Rightarrow> rat) \<Rightarrow> 'f SequentialFile \<Rightarrow> ('f, 'g) recover_io \<Rightarrow> VersionSet \<Rightarrow>
     (Status \<times> VersionSet \<times> 'g Writer option \<times> bool) option" where
  "Recover ucmp name rnd sf io vs =
     (let (s, cur) = ri_current io in
      if \<not> ok s then Some (s, vs, None, False)
      else if cur = [] \<or> last cur \<noteq> 10 then
        Some (Corruption (lit ''CURRENT file does not end with newline'') [], vs, None, False)
      else
        let dscbase = butlast cur; (s, file) = ri_file io in
        if \<not> ok s then Some (s, vs, None, False)
        else do {
          (s, rc, vs, b) \<leftarrow> Recover_loop ucmp name sf (new_Reader file True 0) s (no_numbers, vs, new_Builder (current vs));
          if \<not> ok s then Some (s, vs, None, False)
          else do {
            let s = missing_number rc;
            let vs = mark_recovered rc vs;
            if \<not> ok s then Some (s, vs, None, False)
            else do {
              let vs = install_recovered ucmp rnd (rc, vs, b);
              case ReuseManifest io dscbase vs of
                Some (w, vs) \<Rightarrow> Some (s, vs, Some w, False)
              | None \<Rightarrow> Some (s, vs, None, True)
            }
          }
        })"

section \<open>Edits and levels\<close>

text \<open>What an edit does to the files of a level, as a set.\<close>

definition added_at :: "VersionEdit \<Rightarrow> nat \<Rightarrow> FileMetaData set" where
  "added_at e l = {install f | f. (l, f) \<in> set (new_files e)}"

definition deleted_at :: "VersionEdit \<Rightarrow> nat \<Rightarrow> uint64 set" where
  "deleted_at e l = {n. (l, n) \<in> set (deleted_files e)}"

definition level_after :: "VersionEdit \<Rightarrow> (nat \<Rightarrow> FileMetaData set) \<Rightarrow> nat \<Rightarrow> FileMetaData set" where
  "level_after e S l = {f \<in> S l \<union> added_at e l. number f \<in> number ` added_at e l \<or> number f \<notin> deleted_at e l}"

text \<open>The files a database ever has: a number identifies a file.\<close>

definition universe :: "FileMetaData set \<Rightarrow> bool" where
  "universe U \<longleftrightarrow> (\<forall>f \<in> U. 8 \<le> length (smallest f) \<and> length (smallest f) < 2 ^ 32 \<and> length (largest f) < 2 ^ 32 \<and>
     install f = f) \<and> inj_on number U"

definition edit_within :: "FileMetaData set \<Rightarrow> VersionEdit \<Rightarrow> bool" where
  "edit_within U e \<longleftrightarrow> (\<forall>p \<in> set (new_files e). fst p < kNumLevels \<and> install (snd p) \<in> U) \<and>
     (\<forall>p \<in> set (deleted_files e). fst p < kNumLevels)"

text \<open>A level state whose added files are sorted and come from the universe.\<close>

definition state_ok :: "comparator \<Rightarrow> FileMetaData set \<Rightarrow> LevelState \<Rightarrow> bool" where
  "state_ok c U ls \<longleftrightarrow> sorted_wrt (BySmallestKey c) (ls_added ls) \<and> set (ls_added ls) \<subseteq> U"

text \<open>A version holds the files \<open>S\<close> of each level in order; a builder on an empty base stands for them.\<close>

definition levels_hold :: "comparator \<Rightarrow> FileMetaData set \<Rightarrow> (nat \<Rightarrow> FileMetaData set) \<Rightarrow> Version \<Rightarrow> bool" where
  "levels_hold c U S v \<longleftrightarrow> length (vfiles v) = kNumLevels \<and>
     (\<forall>l < kNumLevels. sorted_wrt (BySmallestKey c) (vfiles v ! l) \<and> set (vfiles v ! l) = S l \<and> S l \<subseteq> U)"

definition builder_holds :: "comparator \<Rightarrow> FileMetaData set \<Rightarrow> (nat \<Rightarrow> FileMetaData set) \<Rightarrow> Builder \<Rightarrow> bool" where
  "builder_holds c U S b \<longleftrightarrow> vfiles (b_base b) = replicate kNumLevels [] \<and> length (b_levels b) = kNumLevels \<and>
     (\<forall>l < kNumLevels. state_ok c U (b_levels b ! l) \<and>
       S l = {f \<in> set (ls_added (b_levels b ! l)). number f \<notin> set (ls_deleted (b_levels b ! l))})"

lemma set_insert_set:
  assumes "\<And>b. b \<in> set s \<Longrightarrow> \<not> lt a b \<Longrightarrow> \<not> lt b a \<Longrightarrow> b = a"
  shows "set (set_insert lt a s) = insert a (set s)"
  using assms by (induction s) auto

lemma set_insert_sorted:
  assumes trans: "\<And>x y z. x \<in> K \<Longrightarrow> y \<in> K \<Longrightarrow> z \<in> K \<Longrightarrow> lt x y \<Longrightarrow> lt y z \<Longrightarrow> lt x z"
    and eq: "\<And>b. b \<in> K \<Longrightarrow> \<not> lt a b \<Longrightarrow> \<not> lt b a \<Longrightarrow> b = a"
    and s: "sorted_wrt lt s" "a \<in> K" "set s \<subseteq> K"
  shows "sorted_wrt lt (set_insert lt a s)"
  using s
proof (induction s)
  case (Cons b s)
  have set: "set (set_insert lt a s) = insert a (set s)"
    using Cons.prems(3) by (intro set_insert_set eq) auto
  have "lt a x" if "lt a b" "x \<in> set s" for x
    using that Cons.prems trans [of a b x] by auto
  with Cons set show ?case
    by auto
qed simp

lemma sorted_wrt_unique:
  assumes "sorted_wrt lt xs" "sorted_wrt lt ys" "set xs = set ys" "\<And>x y. x \<in> set xs \<Longrightarrow> y \<in> set xs \<Longrightarrow> lt x y \<Longrightarrow> \<not> lt y x"
  shows "xs = ys"
  using assms
proof (induction xs arbitrary: ys)
  case (Cons x xs)
  from Cons.prems(3) have "ys \<noteq> []"
    by auto
  then obtain y ys' where ys: "ys = y # ys'"
    by (cases ys) auto
  have "x = y"
  proof (rule ccontr)
    assume "x \<noteq> y"
    then have "x \<in> set ys'" "y \<in> set xs"
      using Cons.prems(3) by (auto simp: ys)
    then have "lt y x" "lt x y"
      using Cons.prems(1,2) by (auto simp: ys)
    then show False
      using Cons.prems(4) [of x y] \<open>y \<in> set xs\<close> by simp
  qed
  have irr: "\<not> lt x x"
    using Cons.prems(4) [of x x] by auto
  have "x \<notin> set xs" "y \<notin> set ys'"
    using Cons.prems(1,2) irr \<open>x = y\<close> by (auto simp: ys)
  then have "set xs = set ys'"
    using Cons.prems(3) \<open>x = y\<close> by (auto simp: ys)
  moreover have "sorted_wrt lt xs" "sorted_wrt lt ys'"
    using Cons.prems(1,2) by (simp_all add: ys)
  moreover have "\<not> lt v u" if "u \<in> set xs" "v \<in> set xs" "lt u v" for u v
    using Cons.prems(4) [of u v] that by simp
  ultimately have "xs = ys'"
    by (intro Cons.IH)
  with ys \<open>x = y\<close> show ?case
    by simp
qed simp

text \<open>The merge of the base files with the added ones.\<close>

fun merge_files :: "comparator \<Rightarrow> FileMetaData list \<Rightarrow> FileMetaData list \<Rightarrow> FileMetaData list" where
  "merge_files c base [] = base"
| "merge_files c base (a # added) =
     takeWhile (\<lambda>b. \<not> BySmallestKey c a b) base @ a # merge_files c (dropWhile (\<lambda>b. \<not> BySmallestKey c a b) base) added"

lemma fold_MaybeAddFile: "fold (MaybeAddFile ls) fs gs = gs @ filter (\<lambda>f. number f \<notin> set (ls_deleted ls)) fs"
  by (induction fs arbitrary: gs) (simp_all add: MaybeAddFile_def)

lemma save_level_merge:
  "save_level c ls base added files = files @ filter (\<lambda>f. number f \<notin> set (ls_deleted ls)) (merge_files c base added)"
  by (induction added arbitrary: base files) (simp_all add: fold_MaybeAddFile MaybeAddFile_def Let_def)

lemma set_merge_files: "set (merge_files c base added) = set base \<union> set added"
proof (induction c base added rule: merge_files.induct)
  case (2 c base a added)
  have "set base = set (takeWhile (\<lambda>b. \<not> BySmallestKey c a b) base) \<union> set (dropWhile (\<lambda>b. \<not> BySmallestKey c a b) base)"
    by (metis set_append takeWhile_dropWhile_id)
  with 2 show ?case
    by auto
qed simp

context user_comparator
begin

lemma By_trans:
  assumes U: "universe U" and "f \<in> U" "g \<in> U" "h \<in> U" "BySmallestKey c f g" "BySmallestKey c g h"
  shows "BySmallestKey c f h"
proof -
  have len: "8 \<le> length (smallest f)" "8 \<le> length (smallest g)" "8 \<le> length (smallest h)"
    using assms(1-4) by (auto simp: universe_def)
  show ?thesis
    using assms(5,6) ikey.cmp_trans [OF len] ikey.cmp_eq [OF len(1,2)] ikey.cmp_eq [OF len(2,3)] ikey.cmp_eq [OF len(1,3)]
    by (auto simp: BySmallestKey_def Let_def split: if_splits)
qed

lemma By_asym:
  assumes U: "universe U" and "f \<in> U" "g \<in> U" "BySmallestKey c f g"
  shows "\<not> BySmallestKey c g f"
proof -
  have len: "8 \<le> length (smallest f)" "8 \<le> length (smallest g)"
    using assms(1-3) by (auto simp: universe_def)
  show ?thesis
    using assms(4) ikey.cmp_anti [OF len] ikey.cmp_eq [OF len] ikey.cmp_eq [OF len(2,1)]
    by (auto simp: BySmallestKey_def Let_def split: if_splits)
qed

lemma By_total:
  assumes U: "universe U" and "f \<in> U" "g \<in> U" "\<not> BySmallestKey c f g" "\<not> BySmallestKey c g f"
  shows "f = g"
proof -
  have len: "8 \<le> length (smallest f)" "8 \<le> length (smallest g)"
    using assms(1-3) by (auto simp: universe_def)
  have "number f = number g"
    using assms(4,5) ikey.cmp_anti [OF len(2,1)] ikey.cmp_eq [OF len] ikey.cmp_eq [OF len(2,1)]
    by (auto simp: BySmallestKey_def Let_def split: if_splits)
  then show ?thesis
    using assms(1-3) by (auto simp: universe_def dest: inj_onD)
qed

lemma sorted_merge_files:
  assumes U: "universe U" and "sorted_wrt (BySmallestKey c) base" "sorted_wrt (BySmallestKey c) added"
    "set base \<subseteq> U" "set added \<subseteq> U" "set base \<inter> set added = {}"
  shows "sorted_wrt (BySmallestKey c) (merge_files c base added)"
  using assms(2-)
proof (induction added arbitrary: base)
  case (Cons a added)
  let ?P = "\<lambda>b. \<not> BySmallestKey c a b"
  let ?T = "takeWhile ?P base" and ?D = "dropWhile ?P base"
  have "sorted_wrt (BySmallestKey c) (?T @ ?D)"
    using Cons.prems(1) by (simp only: takeWhile_dropWhile_id)
  then have sorted: "sorted_wrt (BySmallestKey c) ?T" "sorted_wrt (BySmallestKey c) ?D"
    by (simp_all only: sorted_wrt_append)
  have sub: "set ?T \<subseteq> set base" "set ?D \<subseteq> set base"
    using set_takeWhileD [of _ ?P base] set_dropWhileD [of _ ?P base] by (intro subsetI, blast)+
  have aU: "a \<in> U" and inU: "set base \<subseteq> U" "set added \<subseteq> U"
    using Cons.prems by auto
  have before: "BySmallestKey c b a" if "b \<in> set ?T" for b
    using that By_total [OF U, of b a] set_takeWhileD [OF that] sub inU aU Cons.prems(5) by auto
  have after: "BySmallestKey c a b" if "b \<in> set ?D" for b
  proof (cases ?D)
    case (Cons d ds)
    then have d: "BySmallestKey c a d"
      by (metis hd_dropWhile list.distinct(1) list.sel(1))
    have "d \<in> U" "b \<in> U"
      using that sub inU Cons by auto
    then show ?thesis
      using that sorted(2) Cons d By_trans [OF U aU, of d b] by auto
  next
    case Nil
    with that show ?thesis
      by (metis empty_iff list.set(1))
  qed
  have mset: "set (merge_files c ?D added) = set ?D \<union> set added"
    by (rule set_merge_files)
  let ?M = "merge_files c ?D added"
  have m1: "sorted_wrt (BySmallestKey c) ?M"
    using Cons.prems sorted(2) sub by (intro Cons.IH) auto
  have m2: "BySmallestKey c a x" if "x \<in> set ?M" for x
    using that after [of x] Cons.prems(2) unfolding mset by auto
  have m3: "BySmallestKey c b x" if "b \<in> set ?T" "x \<in> set ?M" for b x
  proof -
    have "b \<in> U" "x \<in> U"
      using that sub inU unfolding mset by blast+
    then show ?thesis
      by (rule By_trans [OF U _ aU _ before [OF that(1)] m2 [OF that(2)]])
  qed
  show ?case
    unfolding merge_files.simps sorted_wrt_append sorted_wrt.simps
  proof (intro conjI ballI)
    fix x y
    assume "x \<in> set ?T" "y \<in> set (a # ?M)"
    then show "BySmallestKey c x y"
      using before m3 set_ConsD by metis
  qed (fact sorted(1) m1 | erule m2)+
qed simp

lemma fold_apply_deleted:
  assumes "length levels = kNumLevels" "\<forall>p \<in> set ds. fst p < kNumLevels" "l < kNumLevels"
  shows "length (fold apply_deleted ds levels) = kNumLevels \<and> ls_added (fold apply_deleted ds levels ! l) = ls_added (levels ! l) \<and>
    set (ls_deleted (fold apply_deleted ds levels ! l)) = set (ls_deleted (levels ! l)) \<union> {n. (l, n) \<in> set ds}"
  using assms(1,2)
proof (induction ds arbitrary: levels)
  case (Cons p ds)
  obtain m n where p: "p = (m, n)"
    by (cases p)
  have "set (set_insert (<) n (ls_deleted (levels ! m))) = insert n (set (ls_deleted (levels ! m)))"
    by (rule set_insert_set) auto
  then have "length (apply_deleted p levels) = kNumLevels" "ls_added (apply_deleted p levels ! l) = ls_added (levels ! l)"
    "set (ls_deleted (apply_deleted p levels ! l)) = set (ls_deleted (levels ! l)) \<union> (if l = m then {n} else {})"
    using Cons.prems assms(3) by (simp_all add: apply_deleted_def p nth_list_update)
  with Cons.IH [of "apply_deleted p levels"] Cons.prems(2) show ?case
    by (auto simp: p)
qed simp

lemma fold_apply_new:
  assumes U: "universe U" and "length levels = kNumLevels" "\<forall>p \<in> set fs. fst p < kNumLevels \<and> install (snd p) \<in> U"
    "l < kNumLevels" "\<forall>l < kNumLevels. state_ok c U (levels ! l)"
  shows "length (fold (apply_new c) fs levels) = kNumLevels \<and> (\<forall>l < kNumLevels. state_ok c U (fold (apply_new c) fs levels ! l)) \<and>
    set (ls_added (fold (apply_new c) fs levels ! l)) = set (ls_added (levels ! l)) \<union> {install f | f. (l, f) \<in> set fs} \<and>
    set (ls_deleted (fold (apply_new c) fs levels ! l)) = set (ls_deleted (levels ! l)) - number ` {install f | f. (l, f) \<in> set fs}"
  using assms(2,3,5)
proof (induction fs arbitrary: levels)
  case (Cons p fs)
  obtain m f where p: "p = (m, f)"
    by (cases p)
  let ?f = "install f" and ?ls = "levels ! m"
  have f: "?f \<in> U" and m: "m < kNumLevels" and ls: "state_ok c U ?ls"
    using Cons.prems by (simp_all add: p)
  have eq: "b = ?f" if "b \<in> U" "\<not> BySmallestKey c ?f b" "\<not> BySmallestKey c b ?f" for b
    using By_total [OF U that(1) f that(3,2)] .
  have set: "set (set_insert (BySmallestKey c) ?f (ls_added ?ls)) = insert ?f (set (ls_added ?ls))"
    using ls by (intro set_insert_set eq) (auto simp: state_ok_def)
  have sorted: "sorted_wrt (BySmallestKey c) (set_insert (BySmallestKey c) ?f (ls_added ?ls))"
    using ls f by (intro set_insert_sorted [of U]) (auto simp: state_ok_def intro: eq By_trans [OF U])
  have new: "apply_new c p levels = levels[m := \<lparr>ls_deleted = filter (\<lambda>n. n \<noteq> number ?f) (ls_deleted ?ls),
      ls_added = set_insert (BySmallestKey c) ?f (ls_added ?ls)\<rparr>]"
    by (simp add: apply_new_def p Let_def)
  let ?L = "apply_new c p levels"
  have L: "length ?L = kNumLevels" "\<forall>l < kNumLevels. state_ok c U (?L ! l)"
    "set (ls_added (?L ! l)) = set (ls_added (levels ! l)) \<union> (if l = m then {?f} else {})"
    "set (ls_deleted (?L ! l)) = set (ls_deleted (levels ! l)) - (if l = m then {number ?f} else {})"
    using Cons.prems assms(4) m f ls set sorted by (auto simp: new nth_list_update state_ok_def)
  have "{install g | g. (l, g) \<in> set (p # fs)} = (if l = m then {?f} else {}) \<union> {install g | g. (l, g) \<in> set fs}"
    by (auto simp: p)
  then show ?case
    using Cons.IH [OF L(1) _ L(2)] Cons.prems(2) L(3,4) by auto
qed auto

lemma levels_hold_unique:
  assumes "universe U" "levels_hold c U S v" "levels_hold c U S w"
  shows "vfiles v = vfiles w"
proof (rule nth_equalityI)
  fix l
  assume "l < length (vfiles v)"
  then have l: "l < kNumLevels"
    using assms(2) by (simp add: levels_hold_def)
  show "vfiles v ! l = vfiles w ! l"
  proof (rule sorted_wrt_unique [of "BySmallestKey c"])
    show "\<not> BySmallestKey c y x" if "x \<in> set (vfiles v ! l)" "y \<in> set (vfiles v ! l)" "BySmallestKey c x y" for x y
      using By_asym [OF assms(1) _ _ that(3)] that(1,2) assms(2) l by (auto simp: levels_hold_def)
  qed (use assms(2,3) l in \<open>auto simp: levels_hold_def\<close>)
qed (use assms in \<open>simp add: levels_hold_def\<close>)

lemma Apply_levels:
  assumes U: "universe U" and e: "edit_within U e" and b: "length (b_levels b) = kNumLevels"
    "\<forall>l < kNumLevels. state_ok c U (b_levels b ! l)" and l: "l < kNumLevels"
    and L0: "L = b_levels (snd (Apply c e (vs, b)))"
  shows "length L = kNumLevels" "state_ok c U (L ! l)" "b_base (snd (Apply c e (vs, b))) = b_base b"
    "set (ls_added (L ! l)) = set (ls_added (b_levels b ! l)) \<union> added_at e l"
    "set (ls_deleted (L ! l)) = (set (ls_deleted (b_levels b ! l)) \<union> deleted_at e l) - number ` added_at e l"
proof -
  let ?D = "fold apply_deleted (deleted_files e) (b_levels b)"
  have D: "length ?D = kNumLevels" "ls_added (?D ! m) = ls_added (b_levels b ! m)"
    "set (ls_deleted (?D ! m)) = set (ls_deleted (b_levels b ! m)) \<union> {n. (m, n) \<in> set (deleted_files e)}" if "m < kNumLevels" for m
    using fold_apply_deleted [OF b(1) _ that, of "deleted_files e"] e by (auto simp: edit_within_def)
  have "\<forall>m < kNumLevels. state_ok c U (?D ! m)"
    using b(2) D(2) by (simp add: state_ok_def)
  note N = fold_apply_new [OF U D(1) [OF l] _ l this, of "new_files e"]
  have L: "L = fold (apply_new c) (new_files e) ?D"
    by (simp add: L0 Apply_def Let_def)
  have w: "\<forall>p \<in> set (new_files e). fst p < kNumLevels \<and> install (snd p) \<in> U"
    using e by (simp add: edit_within_def)
  show "length L = kNumLevels" "state_ok c U (L ! l)"
    using N [OF w] l unfolding L by blast+
  show "set (ls_added (L ! l)) = set (ls_added (b_levels b ! l)) \<union> added_at e l"
    using N [OF w] unfolding L added_at_def D(2) [OF l] by blast
  show "set (ls_deleted (L ! l)) = (set (ls_deleted (b_levels b ! l)) \<union> deleted_at e l) - number ` added_at e l"
    using N [OF w] unfolding L added_at_def deleted_at_def D(3) [OF l] by blast
  show "b_base (snd (Apply c e (vs, b))) = b_base b"
    by (simp add: Apply_def Let_def)
qed

lemma SaveTo_nth:
  "l < kNumLevels \<Longrightarrow> vfiles (Finalize rnd (SaveTo c b new_Version)) ! l =
     filter (\<lambda>f. number f \<notin> set (ls_deleted (b_levels b ! l))) (merge_files c (vfiles (b_base b) ! l) (ls_added (b_levels b ! l)))"
  by (simp add: SaveTo_def Finalize_def save_level_merge new_Version_def split: prod.split)

lemma SaveTo_length: "length (vfiles (Finalize rnd (SaveTo c b new_Version))) = kNumLevels"
  by (simp add: SaveTo_def Finalize_def split: prod.split)

lemma edit_step:
  assumes U: "universe U" and e: "edit_within U e" and v: "levels_hold c U S v"
    and fresh: "\<forall>l < kNumLevels. added_at e l \<inter> S l = {}"
  shows "levels_hold c U (level_after e S) (Finalize rnd (SaveTo c (snd (Apply c e (vs, new_Builder v))) new_Version))"
  unfolding levels_hold_def
proof (intro conjI allI impI)
  let ?b = "snd (Apply c e (vs, new_Builder v))"
  let ?v = "Finalize rnd (SaveTo c ?b new_Version)"
  show "length (vfiles ?v) = kNumLevels"
    by (rule SaveTo_length)
  fix l
  assume l: "l < kNumLevels"
  have nb: "length (b_levels (new_Builder v)) = kNumLevels" "\<forall>l < kNumLevels. state_ok c U (b_levels (new_Builder v) ! l)"
    by (simp_all add: new_Builder_def state_ok_def)
  note A = Apply_levels [OF U e nb l refl, of vs]
  have base: "vfiles (b_base ?b) ! l = vfiles v ! l"
    by (simp add: A(3)) (simp add: new_Builder_def)
  have new: "set (ls_added (b_levels ?b ! l)) = added_at e l"
    "set (ls_deleted (b_levels ?b ! l)) = deleted_at e l - number ` added_at e l"
    using A(4,5) l by (simp_all add: new_Builder_def)
  have vl: "sorted_wrt (BySmallestKey c) (vfiles v ! l)" "set (vfiles v ! l) = S l" "S l \<subseteq> U"
    using v l by (simp_all add: levels_hold_def)
  have added: "sorted_wrt (BySmallestKey c) (ls_added (b_levels ?b ! l))" "added_at e l \<subseteq> U"
    using A(2) new(1) by (simp_all add: state_ok_def)
  have "sorted_wrt (BySmallestKey c) (merge_files c (vfiles v ! l) (ls_added (b_levels ?b ! l)))"
    using vl added new(1) fresh l by (intro sorted_merge_files [OF U]) auto
  then show "sorted_wrt (BySmallestKey c) (vfiles ?v ! l)"
    by (simp add: SaveTo_nth [OF l] base sorted_wrt_filter)
  show "set (vfiles ?v ! l) = level_after e S l"
    unfolding SaveTo_nth [OF l] base set_filter set_merge_files vl(2) new level_after_def by auto
  show "level_after e S l \<subseteq> U"
    using vl(3) added(2) by (auto simp: level_after_def)
qed

lemma builder_step:
  assumes U: "universe U" and e: "edit_within U e" and b: "builder_holds c U S b"
  shows "builder_holds c U (level_after e S) (snd (Apply c e (vs, b)))"
  unfolding builder_holds_def
proof (intro conjI allI impI)
  have bb: "length (b_levels b) = kNumLevels" "\<forall>l < kNumLevels. state_ok c U (b_levels b ! l)"
    using b by (simp_all add: builder_holds_def)
  note A = Apply_levels [OF U e bb _ refl, of _ vs]
  have "0 < kNumLevels"
    by (simp add: kNumLevels_def)
  then show "length (b_levels (snd (Apply c e (vs, b)))) = kNumLevels"
    "vfiles (b_base (snd (Apply c e (vs, b)))) = replicate kNumLevels []"
    using A(1,3) b by (simp_all add: builder_holds_def)
  fix l
  assume l: "l < kNumLevels"
  show "state_ok c U (b_levels (snd (Apply c e (vs, b))) ! l)"
    by (rule A(2) [OF l])
  let ?ls = "b_levels b ! l"
  have S: "S l = {f \<in> set (ls_added ?ls). number f \<notin> set (ls_deleted ?ls)}"
    using b l by (simp add: builder_holds_def)
  have sub: "set (ls_added ?ls) \<subseteq> U" "added_at e l \<subseteq> U"
    using bb(2) l e by (auto simp: state_ok_def edit_within_def added_at_def)
  have same: "f \<in> added_at e l" if f: "f \<in> set (ls_added ?ls)" and n: "number f \<in> number ` added_at e l" for f
  proof -
    obtain g where g: "g \<in> added_at e l" "number f = number g"
      using n by auto
    then have "f = g"
      using U f sub by (auto simp: universe_def dest: inj_onD)
    with g show ?thesis by simp
  qed
  show "level_after e S l = {f \<in> set (ls_added (b_levels (snd (Apply c e (vs, b))) ! l)).
      number f \<notin> set (ls_deleted (b_levels (snd (Apply c e (vs, b))) ! l))}"
    unfolding A(4) [OF l] A(5) [OF l] level_after_def S using same by blast
qed

lemma builder_saves:
  assumes U: "universe U" and b: "builder_holds c U S b"
  shows "levels_hold c U S (Finalize rnd (SaveTo c b new_Version))"
  unfolding levels_hold_def
proof (intro conjI allI impI)
  show "length (vfiles (Finalize rnd (SaveTo c b new_Version))) = kNumLevels"
    by (rule SaveTo_length)
  fix l
  assume l: "l < kNumLevels"
  have S: "S l = {f \<in> set (ls_added (b_levels b ! l)). number f \<notin> set (ls_deleted (b_levels b ! l))}"
    and ok: "state_ok c U (b_levels b ! l)" and base: "vfiles (b_base b) ! l = []"
    using b l by (simp_all add: builder_holds_def)
  have "sorted_wrt (BySmallestKey c) (merge_files c [] (ls_added (b_levels b ! l)))"
    using ok by (intro sorted_merge_files [OF U]) (auto simp: state_ok_def)
  then show "sorted_wrt (BySmallestKey c) (vfiles (Finalize rnd (SaveTo c b new_Version)) ! l)"
    by (simp add: SaveTo_nth [OF l] base sorted_wrt_filter)
  show "set (vfiles (Finalize rnd (SaveTo c b new_Version)) ! l) = S l"
    unfolding SaveTo_nth [OF l] base set_filter set_merge_files S by simp
  show "S l \<subseteq> U"
    using ok by (auto simp: S state_ok_def)
qed

lemma new_holds: "levels_hold c U (\<lambda>l. {}) new_Version" "builder_holds c U (\<lambda>l. {}) (new_Builder new_Version)"
  by (simp_all add: levels_hold_def builder_holds_def new_Version_def new_Builder_def state_ok_def)

end

section \<open>Reading the manifest\<close>

text \<open>A reader that has reported nothing at the end has reported nothing before.\<close>

lemma ReportDrop_reports: "reports (ReportDrop n s r) = [] \<Longrightarrow> reports r = []"
  by (simp add: ReportDrop_def split: if_splits)

lemma ReportCorruption_reports: "reports (ReportCorruption n s r) = [] \<Longrightarrow> reports r = []"
  by (simp add: ReportCorruption_def ReportDrop_reports)

lemma ReadPhysicalRecord_reports:
  assumes "ReadPhysicalRecord sf r = Some y" "reports (snd (snd y)) = []"
  shows "reports r = []"
  using assms(2)
proof (induction rule: ReadPhysicalRecord.raw_induct [OF _ assms(1)])
  case (1 f sf r y)
  have IH: "reports r' = []" if "f sf r' = Some y" for r'
    using 1(1) [OF that] 1(3) by simp
  show ?case
    using 1(2,3) by (auto simp: Let_def split: if_splits prod.splits
        dest!: ReportDrop_reports ReportCorruption_reports IH)
qed

lemma ReadRecord_loop_reports:
  assumes "ReadRecord_loop sf frag scratch offset r = Some y" "reports (snd y) = []"
  shows "reports r = []"
  using assms(2)
proof (induction rule: ReadRecord_loop.raw_induct [OF _ assms(1)])
  case (1 f sf frag scratch offset r y)
  have IH: "reports r' = []" if "f sf frag' scratch' offset' r' = Some y" for frag' scratch' offset' r'
    using 1(1) [OF that] 1(3) by simp
  have rec: "reports r = []" if "ReadPhysicalRecord sf r = Some (t, d, r')" "reports r' = []" for t d r'
    using ReadPhysicalRecord_reports [OF that(1)] that(2) by simp
  obtain t d r' where p: "ReadPhysicalRecord sf r = Some (t, d, r')"
    using 1(2) by (cases "ReadPhysicalRecord sf r") auto
  have "reports r' = []"
    using 1(2,3) by (auto simp: p Let_def split: if_splits dest!: IH ReportDrop_reports ReportCorruption_reports)
  then show ?case
    by (rule rec [OF p])
qed

lemma ReadRecord_reports:
  assumes "ReadRecord sf r = Some (x, r')" "reports r' = []"
  shows "reports r = []"
proof -
  have skip: "reports r = []" if "SkipToInitialBlock sf r = (b, q)" "reports q = []" for b q
    using that by (auto simp: SkipToInitialBlock_def Let_def split: if_splits prod.splits dest!: ReportDrop_reports)
  show ?thesis
    using assms ReadRecord_loop_reports [of sf False "[]" 0 _ "(x, r')"]
    by (auto simp: ReadRecord_def split: if_splits prod.splits dest!: skip)
qed

text \<open>Recovery as a fold over the records of the manifest.\<close>

fun Recover_all :: "comparator \<Rightarrow> bytes \<Rightarrow> bytes list \<Rightarrow> Status \<Rightarrow> recovery \<Rightarrow> Status \<times> recovery" where
  "Recover_all c name [] s st = (s, st)"
| "Recover_all c name (d # ds) s st =
     (if ok s then let (s, st) = Recover_record c name d st in Recover_all c name ds s st else (s, st))"

lemma Recover_all_append:
  "Recover_all c name ds s st = (s', st') \<Longrightarrow> Recover_all c name (ds @ es) s st = Recover_all c name es s' st'"
proof (induction ds arbitrary: s st)
  case (Cons d ds)
  then show ?case
    by (cases es) (auto split: if_splits prod.splits)
qed simp

lemma Recover_loop_all:
  assumes "read_all sf r = Some y" "reports (snd y) = []"
  shows "reports r = [] \<and> Recover_loop c name sf r s st = Some (Recover_all c name (fst y) s st)"
  using assms(2)
proof (induction arbitrary: s st rule: read_all.raw_induct [OF _ assms(1)])
  case (1 f sf r y)
  from 1(2) obtain x r' where x: "ReadRecord sf r = Some (x, r')"
    by (auto simp: bind_eq_Some_conv)
  have none: "reported (drop (length (reports r)) (reports r')) s = s" if "reports r' = []" for s
    using that by (simp add: reported_def)
  show ?case
  proof (cases x)
    case None
    then show ?thesis
      using 1(2,3) x none ReadRecord_reports [OF x] by (subst Recover_loop.simps) auto
  next
    case (Some d)
    then obtain ds q where ds: "f sf r' = Some (ds, q)" "y = (d # ds, q)"
      using 1(2) x by (auto simp: bind_eq_Some_conv)
    have IH: "reports r' = []" "Recover_loop c name sf r' s st = Some (Recover_all c name ds s st)" for s st
      using 1(1) [OF ds(1)] 1(3) ds(2) by auto
    show ?thesis
      using ReadRecord_reports [OF x IH(1)] x Some none [OF IH(1)] IH(2) ds(2)
      by (subst Recover_loop.simps) (auto split: prod.splits)
  qed
qed

section \<open>Logging and recovering edits\<close>

lemma decode_edit: "edit_ok e \<Longrightarrow> DecodeFrom (EncodeTo e []) new_VersionEdit = (OK, e)"
  using DecodeLoop_items [of "edit_items e" "Clear new_VersionEdit"] fold_run_items [of e new_VersionEdit]
  by (simp add: DecodeFrom_def EncodeTo_items edit_ok_def) (simp add: new_VersionEdit_def)

lemma Recover_record_edit:
  assumes "edit_ok e" "has_comparator e \<longrightarrow> ve_comparator e = name"
  shows "Recover_record c name (EncodeTo e []) (rc, vs, b) = (OK, note_numbers e rc, Apply c e (vs, b))"
  using assms by (simp add: Recover_record_def decode_edit Let_def ok_def split: prod.splits)

lemma complete_edit_fields [simp]:
  "new_files (complete_edit vs e) = new_files e" "deleted_files (complete_edit vs e) = deleted_files e"
  "compact_pointers (complete_edit vs e) = compact_pointers e"
  "has_comparator (complete_edit vs e) = has_comparator e" "ve_comparator (complete_edit vs e) = ve_comparator e"
  "has_log_number (complete_edit vs e)" "has_map_number (complete_edit vs e)" "has_prev_log_number (complete_edit vs e)"
  "has_next_file_number (complete_edit vs e)" "has_last_sequence (complete_edit vs e)"
  "ve_next_file_number (complete_edit vs e) = next_file_number vs"
  "ve_last_sequence (complete_edit vs e) = last_sequence vs"
  by (simp_all add: complete_edit_def Let_def SetLogNumber_def SetMapNumber_def SetPrevLogNumber_def SetNextFile_def SetLastSequence_def)

lemma complete_edit_ok: "edit_ok e \<Longrightarrow> edit_ok (complete_edit vs e)"
  by (auto simp: edit_ok_def edit_items_def opt_item_def)

lemma SetNextFile_complete: "SetNextFile (next_file_number vs) (complete_edit vs e) = complete_edit vs e"
  by (simp add: complete_edit_def Let_def SetLogNumber_def SetMapNumber_def SetPrevLogNumber_def SetNextFile_def SetLastSequence_def)

lemma complete_edit_sets [simp]:
  "added_at (complete_edit vs e) = added_at e" "deleted_at (complete_edit vs e) = deleted_at e"
  "level_after (complete_edit vs e) = level_after e" "edit_within U (complete_edit vs e) = edit_within U e"
  by (simp_all add: fun_eq_iff added_at_def deleted_at_def level_after_def edit_within_def)

text \<open>The compaction pointers.\<close>

definition set_pointers :: "(nat \<times> bytes) list \<Rightarrow> bytes list \<Rightarrow> bytes list" where
  "set_pointers ps cp = fold (\<lambda>p cp. cp[fst p := snd p]) ps cp"

definition pointers_of :: "bytes list \<Rightarrow> (nat \<times> bytes) list" where
  "pointers_of cp = map (\<lambda>l. (l, cp ! l)) (filter (\<lambda>l. cp ! l \<noteq> []) [0..<kNumLevels])"

lemma set_pointers_length [simp]: "length (set_pointers ps cp) = length cp"
  unfolding set_pointers_def by (induction ps arbitrary: cp) simp_all

lemma set_pointers_nth:
  "i < length cp \<Longrightarrow> set_pointers ps cp ! i = (case map_of (rev ps) i of None \<Rightarrow> cp ! i | Some k \<Rightarrow> k)"
proof (induction ps arbitrary: cp)
  case (Cons p ps)
  have "set_pointers (p # ps) cp = set_pointers ps (cp[fst p := snd p])"
    by (simp add: set_pointers_def)
  then show ?case
    using Cons.IH [of "cp[fst p := snd p]"] Cons.prems
    by (cases p) (auto simp: map_add_def nth_list_update split: option.splits)
qed (simp add: set_pointers_def)

lemma set_pointers_again: "set_pointers ps (set_pointers ps cp) = set_pointers ps cp"
  by (rule nth_equalityI) (simp_all add: set_pointers_nth split: option.splits)

lemma set_pointers_of: "length cp = kNumLevels \<Longrightarrow> set_pointers (pointers_of cp) (replicate kNumLevels []) = cp"
proof (rule nth_equalityI)
  fix i
  assume cp: "length cp = kNumLevels" and "i < length (set_pointers (pointers_of cp) (replicate kNumLevels []))"
  then have i: "i < kNumLevels"
    by simp
  let ?is = "filter (\<lambda>l. cp ! l \<noteq> []) [0..<kNumLevels]"
  have "map_of (rev (pointers_of cp)) i = map_of (map (\<lambda>l. (l, cp ! l)) (rev ?is)) i"
    by (simp add: pointers_of_def rev_map)
  also have "\<dots> = (if i \<in> set ?is then Some (cp ! i) else None)"
    by (simp add: map_of_map_restrict restrict_map_def)
  finally show "set_pointers (pointers_of cp) (replicate kNumLevels []) ! i = cp ! i"
    using i by (auto simp: set_pointers_nth)
qed simp

lemma Apply_pointers: "fst (Apply c e (vs, b)) = vs\<lparr>compact_pointer := set_pointers (compact_pointers e) (compact_pointer vs)\<rparr>"
  by (simp add: Apply_def set_pointers_def Let_def)

text \<open>The snapshot.\<close>

definition level_files_of :: "Version \<Rightarrow> (nat \<times> FileMetaData) list" where
  "level_files_of v = concat (map (\<lambda>l. map (\<lambda>f. (l, new_FileMetaData (number f) (file_size f) (smallest f) (largest f)))
     (vfiles v ! l)) [0..<kNumLevels])"

lemma snapshot_edit_eq:
  "snapshot_edit name vs = new_VersionEdit\<lparr>has_comparator := True, ve_comparator := name,
     compact_pointers := pointers_of (compact_pointer vs), new_files := level_files_of (current vs)\<rparr>"
proof -
  have 1: "fold (\<lambda>l e. if compact_pointer vs ! l \<noteq> [] then SetCompactPointer l (compact_pointer vs ! l) e else e) ls e =
      e\<lparr>compact_pointers := compact_pointers e @ map (\<lambda>l. (l, compact_pointer vs ! l)) (filter (\<lambda>l. compact_pointer vs ! l \<noteq> []) ls)\<rparr>" for ls e
    by (induction ls arbitrary: e) (simp_all add: SetCompactPointer_def)
  have 2: "fold (\<lambda>f. AddFile l (number f) (file_size f) (smallest f) (largest f)) fs e =
      e\<lparr>new_files := new_files e @ map (\<lambda>f. (l, new_FileMetaData (number f) (file_size f) (smallest f) (largest f))) fs\<rparr>" for l fs e
    by (induction fs arbitrary: e) (simp_all add: AddFile_def)
  have 3: "fold (\<lambda>l e. fold (\<lambda>f. AddFile l (number f) (file_size f) (smallest f) (largest f)) (vfiles (current vs) ! l) e) ls e =
      e\<lparr>new_files := new_files e @ concat (map (\<lambda>l. map (\<lambda>f. (l, new_FileMetaData (number f) (file_size f) (smallest f) (largest f)))
        (vfiles (current vs) ! l)) ls)\<rparr>" for ls e
    by (induction ls arbitrary: e) (simp_all add: 2)
  show ?thesis
    unfolding snapshot_edit_def Let_def 1 3
    by (simp add: new_VersionEdit_def SetComparatorName_def pointers_of_def level_files_of_def)
qed

lemma install_new: "install f = f \<Longrightarrow> install (new_FileMetaData (number f) (file_size f) (smallest f) (largest f)) = f"
  by (cases f) (simp add: install_def new_FileMetaData_def Let_def)

lemma level_files_of_mem:
  "(l, g) \<in> set (level_files_of v) \<longleftrightarrow> l < kNumLevels \<and>
     (\<exists>f \<in> set (vfiles v ! l). g = new_FileMetaData (number f) (file_size f) (smallest f) (largest f))"
  by (auto simp: level_files_of_def)

lemma snapshot_ok:
  assumes U: "universe U" and v: "levels_hold c U S (current vs)" and n: "length name < 2 ^ 32"
    and cp: "\<forall>k \<in> set (compact_pointer vs). length k < 2 ^ 32" "length (compact_pointer vs) = kNumLevels"
  shows "edit_ok (snapshot_edit name vs)" "edit_within U (snapshot_edit name vs)"
    "\<And>l. l < kNumLevels \<Longrightarrow> level_after (snapshot_edit name vs) (\<lambda>l. {}) l = S l"
proof -
  have f: "f \<in> U" "install f = f" if "f \<in> set (vfiles (current vs) ! l)" "l < kNumLevels" for f l
    using U v that by (auto simp: universe_def levels_hold_def)
  have lens: "length (smallest f) < 2 ^ 32" "length (largest f) < 2 ^ 32" if "f \<in> U" for f
    using U that by (auto simp: universe_def)
  have ps: "\<forall>p \<in> set (pointers_of (compact_pointer vs)). fst p < kNumLevels \<and> length (snd p) < 2 ^ 32"
    using cp by (auto simp: pointers_of_def)
  have "item_ok (New (l, g))" if "(l, g) \<in> set (level_files_of (current vs))" for l g
    using that f lens by (auto simp: level_files_of_mem new_FileMetaData_def)
  then have "\<forall>p \<in> set (level_files_of (current vs)). item_ok (New p)"
    by auto
  then show "edit_ok (snapshot_edit name vs)"
    using n ps by (auto simp: snapshot_edit_eq edit_ok_def edit_items_def opt_item_def new_VersionEdit_def)
  show "edit_within U (snapshot_edit name vs)"
    using f install_new by (fastforce simp: edit_within_def snapshot_edit_eq level_files_of_mem new_VersionEdit_def)
  show "level_after (snapshot_edit name vs) (\<lambda>l. {}) l = S l" if l: "l < kNumLevels" for l
  proof -
    have "added_at (snapshot_edit name vs) l = set (vfiles (current vs) ! l)"
      using l f(2) install_new by (force simp: added_at_def snapshot_edit_eq level_files_of_mem new_VersionEdit_def)
    then show ?thesis
      using v l by (auto simp: level_after_def levels_hold_def)
  qed
qed

text \<open>A run of calls of \<^verbatim>\<open>LogAndApply\<close> in an environment without errors; before each call other
  operations have moved the next file number and the last sequence number.\<close>

definition good_io :: "FileState manifest_io" where
  "good_io = \<lparr> io_file = (OK, new_FileState), io_sync = (\<lambda>f. (OK, f)), io_current = OK \<rparr>"

type_synonym call = "VersionEdit \<times> uint64 \<times> uint64"

definition call_state :: "call \<Rightarrow> VersionSet \<Rightarrow> VersionSet" where
  "call_state x vs = vs\<lparr>next_file_number := fst (snd x), last_sequence := snd (snd x)\<rparr>"

fun log_calls ::
    "comparator \<Rightarrow> bytes \<Rightarrow> (rat \<Rightarrow> rat) \<Rightarrow> (nat \<Rightarrow> 8 word) \<Rightarrow> call list \<Rightarrow> VersionSet \<times> FileState Writer option \<Rightarrow>
     (Status \<times> VersionSet \<times> FileState Writer option) list" where
  "log_calls c name rnd raw [] st = []"
| "log_calls c name rnd raw (x # xs) st =
     (let r = LogAndApply c name rnd (mem_writable raw) good_io (fst x) (call_state x (fst st), snd st)
      in r # log_calls c name rnd raw xs (snd r))"

definition call_ok :: "bytes \<Rightarrow> FileMetaData set \<Rightarrow> (nat \<Rightarrow> FileMetaData set) \<Rightarrow> VersionEdit \<Rightarrow> bool" where
  "call_ok name U S e \<longleftrightarrow> edit_ok e \<and> (has_comparator e \<longrightarrow> ve_comparator e = name) \<and> edit_within U e \<and>
     (\<forall>l < kNumLevels. added_at e l \<inter> S l = {})"

fun calls_ok :: "bytes \<Rightarrow> FileMetaData set \<Rightarrow> (nat \<Rightarrow> FileMetaData set) \<Rightarrow> call list \<Rightarrow> bool" where
  "calls_ok name U S [] = True"
| "calls_ok name U S (x # xs) = (call_ok name U S (fst x) \<and> calls_ok name U (level_after (fst x) S) xs)"

text \<open>The version set after a call.\<close>

definition logged :: "comparator \<Rightarrow> (rat \<Rightarrow> rat) \<Rightarrow> VersionEdit \<Rightarrow> VersionSet \<Rightarrow> VersionSet" where
  "logged c rnd e vs =
     (let e = complete_edit vs e; (vs, b) = Apply c e (vs, new_Builder (current vs)) in
      (AppendVersion (Finalize rnd (SaveTo c b new_Version)) vs)\<lparr>log_number := ve_log_number e,
        prev_log_number := ve_prev_log_number e, map_number := ve_map_number e\<rparr>)"

lemma LogAndApply_append:
  assumes "AddRecord (mem_writable raw) (EncodeTo (complete_edit vs e) []) w = (s, w')" "ok s"
  shows "LogAndApply c name rnd (mem_writable raw) good_io e (vs, Some w) = (OK, logged c rnd e vs, Some w')"
  using assms by (simp add: LogAndApply_def open_descriptor_def write_edit_def good_io_def logged_def Let_def ok_def split: prod.splits)

lemma LogAndApply_first:
  assumes "AddRecords (mem_writable raw) [EncodeTo (snapshot_edit name (fst (Apply c (complete_edit vs e) (vs, new_Builder (current vs))))) [],
      EncodeTo (complete_edit vs e) []] (new_Writer new_FileState) = (s, w)" "ok s"
  shows "LogAndApply c name rnd (mem_writable raw) good_io e (vs, None) = (OK, logged c rnd e vs, Some w)"
proof -
  obtain vs' b where A: "Apply c (complete_edit vs e) (vs, new_Builder (current vs)) = (vs', b)"
    by (rule that [OF prod.collapse [symmetric]])
  have nf: "next_file_number vs' = next_file_number vs"
    using Apply_pointers [of c "complete_edit vs e" vs "new_Builder (current vs)"] by (simp add: A)
  obtain s1 w1 where 1: "AddRecord (mem_writable raw) (EncodeTo (snapshot_edit name vs') []) (new_Writer new_FileState) = (s1, w1)"
    by (rule that [OF prod.collapse [symmetric]])
  have "ok s1" "AddRecord (mem_writable raw) (EncodeTo (complete_edit vs e) []) w1 = (s, w)"
    using assms by (auto simp: A 1 ok_def split: if_splits prod.splits)
  with assms(2) show ?thesis
    by (simp add: LogAndApply_def open_descriptor_def write_edit_def WriteSnapshot_def good_io_def logged_def Let_def ok_def
        A 1 nf SetNextFile_complete)
qed

text \<open>The records \<open>ds\<close> recover the levels \<open>S\<close>, the pointers \<open>cp\<close> and the numbers \<open>rc\<close>.\<close>

definition recovers ::
    "comparator \<Rightarrow> bytes \<Rightarrow> FileMetaData set \<Rightarrow> bytes list \<Rightarrow> (nat \<Rightarrow> FileMetaData set) \<Rightarrow> bytes list \<Rightarrow> recovered \<Rightarrow> bool" where
  "recovers c name U ds S cp rc \<longleftrightarrow>
     (\<exists>b. Recover_all c name ds OK (no_numbers, new_VersionSet, new_Builder new_Version) =
            (OK, rc, new_VersionSet\<lparr>compact_pointer := cp\<rparr>, b) \<and> builder_holds c U S b)"

definition numbers_of :: "VersionSet \<Rightarrow> recovered" where
  "numbers_of vs = \<lparr> rc_log = Some (log_number vs), rc_map = Some (map_number vs), rc_prev_log = Some (prev_log_number vs),
     rc_next_file = Some (next_file_number vs), rc_last_sequence = Some (last_sequence vs) \<rparr>"

text \<open>The version set \<open>r\<close> is what a restart makes of \<open>vs\<close>: only a new manifest number was taken.\<close>

definition restored :: "VersionSet \<Rightarrow> VersionSet \<Rightarrow> bool" where
  "restored vs r \<longleftrightarrow> current r = current vs \<and> compact_pointer r = compact_pointer vs \<and> log_number r = log_number vs \<and>
     map_number r = map_number vs \<and> prev_log_number r = prev_log_number vs \<and> last_sequence r = last_sequence vs \<and>
     next_file_number r = next_file_number vs + 1"

lemma edit_ok_pointer:
  assumes "edit_ok e" "(i, j) \<in> set (compact_pointers e)"
  shows "length j < 2 ^ 32"
proof -
  have "Pointer (i, j) \<in> set (edit_items e)"
    using assms(2) by (simp add: edit_items_def)
  then show ?thesis
    using assms(1) by (fastforce simp: edit_ok_def)
qed

lemma logged_fields:
  "compact_pointer (logged c rnd e vs) = set_pointers (compact_pointers e) (compact_pointer vs)"
  "note_numbers (complete_edit vs e) rc = numbers_of (logged c rnd e vs)"
  "current (logged c rnd e vs) = Finalize rnd (SaveTo c (snd (Apply c (complete_edit vs e) (vs, new_Builder (current vs)))) new_Version)"
proof -
  obtain vs' b where A: "Apply c (complete_edit vs e) (vs, new_Builder (current vs)) = (vs', b)"
    by (rule that [OF prod.collapse [symmetric]])
  have vs': "vs' = vs\<lparr>compact_pointer := set_pointers (compact_pointers e) (compact_pointer vs)\<rparr>"
    using Apply_pointers [of c "complete_edit vs e" vs "new_Builder (current vs)"] by (simp add: A)
  show "compact_pointer (logged c rnd e vs) = set_pointers (compact_pointers e) (compact_pointer vs)"
    "note_numbers (complete_edit vs e) rc = numbers_of (logged c rnd e vs)"
    "current (logged c rnd e vs) = Finalize rnd (SaveTo c (snd (Apply c (complete_edit vs e) (vs, new_Builder (current vs)))) new_Version)"
    by (simp_all add: logged_def Let_def A vs' AppendVersion_def note_numbers_def numbers_of_def)
qed

context user_comparator
begin

lemma recovers_nil: "recovers c name U [] (\<lambda>l. {}) (replicate kNumLevels []) no_numbers"
  using new_holds(2) by (simp add: recovers_def new_VersionSet_def AppendVersion_def)

lemma recovers_edit:
  assumes U: "universe U" and ds: "recovers c name U ds S cp rc"
    and e: "edit_ok e" "has_comparator e \<longrightarrow> ve_comparator e = name" "edit_within U e"
  shows "recovers c name U (ds @ [EncodeTo e []]) (level_after e S) (set_pointers (compact_pointers e) cp) (note_numbers e rc)"
proof -
  let ?vs = "new_VersionSet\<lparr>compact_pointer := cp\<rparr>"
  obtain b where b: "Recover_all c name ds OK (no_numbers, new_VersionSet, new_Builder new_Version) = (OK, rc, ?vs, b)"
    "builder_holds c U S b"
    using ds by (auto simp: recovers_def)
  obtain vs' b' where A: "Apply c e (?vs, b) = (vs', b')"
    by (rule that [OF prod.collapse [symmetric]])
  have "vs' = new_VersionSet\<lparr>compact_pointer := set_pointers (compact_pointers e) cp\<rparr>" "builder_holds c U (level_after e S) b'"
    using Apply_pointers [of c e ?vs b] builder_step [OF U e(3) b(2), of ?vs] by (simp_all add: A)
  then show ?thesis
    using Recover_all_append [OF b(1), of "[EncodeTo e []]"] Recover_record_edit [OF e(1,2), of c rc ?vs b]
    by (simp add: recovers_def A ok_def)
qed

lemma recovers_cong:
  assumes "recovers c name U ds S cp rc" "\<And>l. l < kNumLevels \<Longrightarrow> S l = S' l"
  shows "recovers c name U ds S' cp rc"
  using assms by (force simp: recovers_def builder_holds_def)

lemma logged_holds:
  assumes U: "universe U" and v: "levels_hold c U S (current vs)" and e: "call_ok name U S e"
  shows "levels_hold c U (level_after e S) (current (logged c rnd e vs))"
  using edit_step [OF U _ v, of "complete_edit vs e"] e by (simp add: call_ok_def logged_fields)

lemma first_records:
  assumes U: "universe U" and v: "levels_hold c U S (current vs)" and e: "call_ok name U S e" and n: "length name < 2 ^ 32"
    and cp: "\<forall>k \<in> set (compact_pointer vs). length k < 2 ^ 32" "length (compact_pointer vs) = kNumLevels"
    and vs': "vs' = fst (Apply c (complete_edit vs e) (vs, new_Builder (current vs)))"
  shows "recovers c name U [EncodeTo (snapshot_edit name vs') [], EncodeTo (complete_edit vs e) []] (level_after e S)
    (compact_pointer (logged c rnd e vs)) (numbers_of (logged c rnd e vs))"
proof -
  have vs'_eq: "vs' = vs\<lparr>compact_pointer := set_pointers (compact_pointers e) (compact_pointer vs)\<rparr>"
    by (simp add: vs' Apply_pointers)
  have "length k < 2 ^ 32" if k: "k \<in> set (compact_pointer vs')" for k
  proof -
    obtain i where "i < length (compact_pointer vs)" "k = set_pointers (compact_pointers e) (compact_pointer vs) ! i"
      using k by (auto simp: vs'_eq in_set_conv_nth)
    moreover have "length j < 2 ^ 32" if "(i, j) \<in> set (compact_pointers e)" for i j
      using e edit_ok_pointer [OF _ that] by (simp add: call_ok_def)
    ultimately show ?thesis
      using cp(1) by (auto simp: set_pointers_nth dest!: map_of_SomeD split: option.splits)
  qed
  then have cp': "\<forall>k \<in> set (compact_pointer vs'). length k < 2 ^ 32" "length (compact_pointer vs') = kNumLevels"
    using cp(2) by (auto simp: vs'_eq)
  have v': "levels_hold c U S (current vs')"
    using v by (simp add: vs'_eq)
  note snap = snapshot_ok [OF U v' n cp']
  let ?s = "snapshot_edit name vs'"
  have "recovers c name U [EncodeTo ?s []] (level_after ?s (\<lambda>l. {})) (set_pointers (compact_pointers ?s) (replicate kNumLevels []))
      (note_numbers ?s no_numbers)"
    using recovers_edit [OF U recovers_nil snap(1) _ snap(2)] by (simp add: snapshot_edit_eq)
  then have 1: "recovers c name U [EncodeTo ?s []] S (compact_pointer vs') (note_numbers ?s no_numbers)"
    using recovers_cong [OF _ snap(3)] set_pointers_of [OF cp'(2)] by (simp add: snapshot_edit_eq)
  have "set_pointers (compact_pointers e) (compact_pointer vs') = compact_pointer (logged c rnd e vs)"
    by (simp add: vs'_eq set_pointers_again logged_fields(1))
  then show ?thesis
    using recovers_edit [OF U 1, of "complete_edit vs e"] e
    by (simp add: call_ok_def complete_edit_ok logged_fields(2) [where c = c and rnd = rnd])
qed

lemma run_recovers:
  assumes U: "universe U" and w: "mem_sink.wstate w" and v: "levels_hold c U S (current vs)"
    and ds: "recovers c name U ds S (compact_pointer vs) rc" and ok: "calls_ok name U S calls"
  shows "\<exists>es w'. length es = length calls \<and> AddRecords (mem_writable raw) es w = (OK, w') \<and>
    (calls \<noteq> [] \<longrightarrow> snd (snd (last (log_calls c name rnd raw calls (vs, Some w)))) = Some w') \<and>
    (\<forall>i < length calls. \<exists>vs' w'. log_calls c name rnd raw calls (vs, Some w) ! i = (OK, vs', Some w') \<and>
       (\<exists>S'. levels_hold c U S' (current vs') \<and>
         recovers c name U (ds @ take (Suc i) es) S' (compact_pointer vs') (numbers_of vs')) \<and>
       (\<exists>b. current vs' = Finalize rnd (SaveTo c b new_Version)))"
  using w v ds ok
proof (induction calls arbitrary: w vs S ds rc)
  case Nil
  then show ?case
    by simp
next
  case (Cons x xs)
  let ?vs = "call_state x vs" and ?e = "fst x"
  let ?d = "EncodeTo (complete_edit ?vs ?e) []" and ?vs1 = "logged c rnd ?e ?vs"
  obtain s w1 where 1: "AddRecord (mem_writable raw) ?d w = (s, w1)"
    by (rule that [OF prod.collapse [symmetric]])
  have "AddRecords (mem_writable raw) [?d] w = (s, w1)"
    using 1 by (simp add: ok_def)
  from mem_sink.AddRecords_cuts [OF Cons.prems(1) this] have s: "s = OK" "mem_sink.wstate w1"
    unfolding ok_def by blast+
  have call: "call_ok name U S ?e" "calls_ok name U (level_after ?e S) xs"
    using Cons.prems(4) by simp_all
  have v: "levels_hold c U S (current ?vs)" "compact_pointer ?vs = compact_pointer vs"
    using Cons.prems(2) by (simp_all add: call_state_def)
  have v1: "levels_hold c U (level_after ?e S) (current ?vs1)"
    by (rule logged_holds [OF U v(1) call(1)])
  have r1: "recovers c name U (ds @ [?d]) (level_after ?e S) (compact_pointer ?vs1) (numbers_of ?vs1)"
    using recovers_edit [OF U Cons.prems(3), of "complete_edit ?vs ?e"] call(1) v(2)
    by (simp add: call_ok_def complete_edit_ok logged_fields(1) logged_fields(2) [where c = c and rnd = rnd])
  have L: "log_calls c name rnd raw (x # xs) (vs, Some w) = (OK, ?vs1, Some w1) # log_calls c name rnd raw xs (?vs1, Some w1)"
    using LogAndApply_append [OF 1, of c name rnd] s by (simp add: Let_def ok_def)
  obtain es w' where es: "length es = length xs" "AddRecords (mem_writable raw) es w1 = (OK, w')"
    "xs \<noteq> [] \<longrightarrow> snd (snd (last (log_calls c name rnd raw xs (?vs1, Some w1)))) = Some w'"
    "\<forall>i < length xs. \<exists>vs' w'. log_calls c name rnd raw xs (?vs1, Some w1) ! i = (OK, vs', Some w') \<and>
       (\<exists>S'. levels_hold c U S' (current vs') \<and>
         recovers c name U ((ds @ [?d]) @ take (Suc i) es) S' (compact_pointer vs') (numbers_of vs')) \<and>
       (\<exists>b. current vs' = Finalize rnd (SaveTo c b new_Version))"
    using Cons.IH [OF s(2) v1 r1 call(2)] by blast
  have nonempty: "log_calls c name rnd raw xs st = [] \<longleftrightarrow> xs = []" for st
    by (cases xs) (simp_all add: Let_def)
  show ?case
  proof (intro exI [of _ "?d # es"] exI [of _ w'] conjI allI impI)
    show "AddRecords (mem_writable raw) (?d # es) w = (OK, w')"
      using 1 s es(2) by (simp add: ok_def)
    show "snd (snd (last (log_calls c name rnd raw (x # xs) (vs, Some w)))) = Some w'"
      unfolding L using es(1-3) by (cases "xs = []") (simp_all add: nonempty)
    fix i
    assume i: "i < length (x # xs)"
    show "\<exists>vs' w'. log_calls c name rnd raw (x # xs) (vs, Some w) ! i = (OK, vs', Some w') \<and>
       (\<exists>S'. levels_hold c U S' (current vs') \<and>
         recovers c name U (ds @ take (Suc i) (?d # es)) S' (compact_pointer vs') (numbers_of vs')) \<and>
       (\<exists>b. current vs' = Finalize rnd (SaveTo c b new_Version))"
    proof (cases i)
      case 0
      then show ?thesis
        unfolding L using v1 r1 logged_fields(3) [of c rnd ?e ?vs] by auto
    next
      case (Suc j)
      then show ?thesis
        unfolding L using es(4) i by simp
    qed
  qed (simp add: es(1))
qed

lemma saved_unique:
  assumes "universe U" "levels_hold c U S (Finalize rnd (SaveTo c b new_Version))" "levels_hold c U S (Finalize rnd (SaveTo c b' new_Version))"
  shows "Finalize rnd (SaveTo c b new_Version) = Finalize rnd (SaveTo c b' new_Version)"
proof -
  have "vfiles (SaveTo c b new_Version) = vfiles (SaveTo c b' new_Version)"
    using levels_hold_unique [OF assms] by (simp add: Finalize_def split: prod.splits)
  then have "SaveTo c b new_Version = SaveTo c b' new_Version"
    by (simp add: SaveTo_def)
  then show ?thesis
    by simp
qed

lemma Recover_restores:
  assumes U: "universe U" and f: "read_all sf (new_Reader f True 0) = Some (ds, r)" "reports r = []"
    and ds: "recovers c name U ds S (compact_pointer vs) (numbers_of vs)"
    and vs: "levels_hold c U S (current vs)" "current vs = Finalize rnd (SaveTo c b new_Version)"
    and io: "ri_current io = (OK, dscbase @ [10])" "ri_file io = (OK, f)"
  shows "\<exists>vs' d save. Recover c name rnd sf io new_VersionSet = Some (OK, vs', d, save) \<and> restored vs vs'"
proof -
  let ?vs = "new_VersionSet\<lparr>compact_pointer := compact_pointer vs\<rparr>"
  obtain b' where b': "Recover_all c name ds OK (no_numbers, new_VersionSet, new_Builder new_Version) = (OK, numbers_of vs, ?vs, b')"
    "builder_holds c U S b'"
    using ds by (auto simp: recovers_def)
  have cur: "current new_VersionSet = new_Version"
    by (simp add: new_VersionSet_def AppendVersion_def)
  have m: "missing_number (numbers_of vs) = OK"
    by (simp add: missing_number_def numbers_of_def)
  have loop: "Recover_loop c name sf (new_Reader f True 0) OK (no_numbers, new_VersionSet, new_Builder new_Version) =
      Some (OK, numbers_of vs, ?vs, b')"
    using Recover_loop_all [OF f(1), of c name OK] f(2) b'(1) by simp
  have "Finalize rnd (SaveTo c b' new_Version) = current vs"
    using saved_unique [OF U builder_saves [OF U b'(2)], of rnd b] vs by simp
  moreover define vs1 where "vs1 = install_recovered c rnd (numbers_of vs, mark_recovered (numbers_of vs) ?vs, b')"
  ultimately have r: "restored vs vs1"
    by (simp add: restored_def install_recovered_def numbers_of_def number_or_0_def AppendVersion_def mark_recovered_def
        MarkFileNumberUsed_def Let_def)
  have "Recover c name rnd sf io new_VersionSet =
      (case ReuseManifest io dscbase vs1 of Some (w, vs2) \<Rightarrow> Some (OK, vs2, Some w, False) | None \<Rightarrow> Some (OK, vs1, None, True))"
    by (simp add: Recover_def io loop cur ok_def m Let_def vs1_def split: option.splits)
  moreover have "restored vs vs2" if "ReuseManifest io dscbase vs1 = Some (w, vs2)" for w vs2
    using that r by (auto simp: ReuseManifest_def restored_def split: if_splits option.splits)
  ultimately show ?thesis
    using r by (cases "ReuseManifest io dscbase vs1") auto
qed

lemma manifest_prefix:
  assumes U: "universe U" and n: "length name < 2 ^ 32" and v: "levels_hold c U S (current vs)"
    and cp: "length (compact_pointer vs) = kNumLevels" "\<forall>k \<in> set (compact_pointer vs). length k < 2 ^ 32"
    and calls: "calls_ok name U S (x # xs)" and rs: "rs = log_calls c name rnd raw (x # xs) (vs, None)"
  shows "list_all (\<lambda>r. ok (fst r)) rs \<and> (\<exists>w1 w2. snd (snd (hd rs)) = Some w1 \<and> snd (snd (last rs)) = Some w2 \<and> fs_ok (dest w2) \<and>
    (\<forall>f k (io :: (FileState \<times> nat, 'g) recover_io) dscbase. fs_ok f \<longrightarrow> contents f = take k (contents (dest w2)) \<longrightarrow> length (contents (dest w1)) \<le> k \<longrightarrow>
      ri_current io = (OK, dscbase @ [10]) \<longrightarrow> ri_file io = (OK, (f, 0)) \<longrightarrow>
      (\<exists>i < length rs. (\<exists>vs' d save. Recover c name rnd mem_sequential io new_VersionSet = Some (OK, vs', d, save) \<and>
          restored (fst (snd (rs ! i))) vs') \<and> (length (contents (dest w2)) \<le> k \<longrightarrow> i = length xs))))"
proof -
  let ?vs = "call_state x vs" and ?e = "fst x"
  let ?va = "fst (Apply c (complete_edit ?vs ?e) (?vs, new_Builder (current ?vs)))" and ?vs1 = "logged c rnd ?e ?vs"
  let ?ds = "[EncodeTo (snapshot_edit name ?va) [], EncodeTo (complete_edit ?vs ?e) []]"
  have v': "levels_hold c U S (current ?vs)" "length (compact_pointer ?vs) = kNumLevels" "\<forall>k \<in> set (compact_pointer ?vs). length k < 2 ^ 32"
    using v cp by (simp_all add: call_state_def)
  have call: "call_ok name U S ?e" "calls_ok name U (level_after ?e S) xs"
    using calls by simp_all
  obtain s w1 where 1: "AddRecords (mem_writable raw) ?ds (new_Writer new_FileState) = (s, w1)"
    by (rule that [OF prod.collapse [symmetric]])
  from mem_sink.AddRecords_cuts [OF new_Writer_ok 1] have s: "ok s" "mem_sink.wstate w1"
    by blast+
  have first: "recovers c name U ?ds (level_after ?e S) (compact_pointer ?vs1) (numbers_of ?vs1)"
    by (rule first_records [OF U v'(1) call(1) n v'(3,2) refl])
  have v1: "levels_hold c U (level_after ?e S) (current ?vs1)"
    by (rule logged_holds [OF U v'(1) call(1)])
  have rs': "rs = (OK, ?vs1, Some w1) # log_calls c name rnd raw xs (?vs1, Some w1)"
    using LogAndApply_first [OF 1 s(1), of rnd] by (simp add: rs Let_def)
  let ?tl = "log_calls c name rnd raw xs (?vs1, Some w1)"
  obtain es w2 where es: "length es = length xs" "AddRecords (mem_writable raw) es w1 = (OK, w2)"
    "xs \<noteq> [] \<longrightarrow> snd (snd (last ?tl)) = Some w2"
    "\<forall>i < length xs. \<exists>vs' w'. ?tl ! i = (OK, vs', Some w') \<and>
       (\<exists>S'. levels_hold c U S' (current vs') \<and>
         recovers c name U (?ds @ take (Suc i) es) S' (compact_pointer vs') (numbers_of vs')) \<and>
       (\<exists>b. current vs' = Finalize rnd (SaveTo c b new_Version))"
    using run_recovers [OF U s(2) v1 first call(2), of raw rnd] by blast
  have len: "length (log_calls c name rnd raw ys st) = length ys" for ys st
    by (induction ys arbitrary: st) (simp_all add: Let_def)
  have hold: "\<exists>S' b. levels_hold c U S' (current (fst (snd (rs ! i)))) \<and> fst (rs ! i) = OK \<and>
      recovers c name U (?ds @ take i es) S' (compact_pointer (fst (snd (rs ! i)))) (numbers_of (fst (snd (rs ! i)))) \<and>
      current (fst (snd (rs ! i))) = Finalize rnd (SaveTo c b new_Version)" if i: "i < length rs" for i
  proof (cases i)
    case 0
    then show ?thesis
      using v1 first logged_fields(3) [of c rnd ?e ?vs] by (auto simp: rs')
  next
    case (Suc j)
    then have "j < length xs"
      using i by (simp add: rs' len)
    with es(4) obtain vs' w' S' b where "?tl ! j = (OK, vs', Some w')" "levels_hold c U S' (current vs')"
        "recovers c name U (?ds @ take (Suc j) es) S' (compact_pointer vs') (numbers_of vs')"
        "current vs' = Finalize rnd (SaveTo c b new_Version)"
      by blast
    with Suc show ?thesis
      by (auto simp: rs')
  qed
  note lrb = log_read_back [OF 1 es(2)]
  have all: "list_all (\<lambda>r. ok (fst r)) rs"
    using hold by (auto simp: list_all_length ok_def)
  show ?thesis
  proof (rule conjI [OF all], rule exI [of _ w1], rule exI [of _ w2], intro conjI allI impI)
    show "snd (snd (hd rs)) = Some w1" "fs_ok (dest w2)"
      using lrb(3) by (simp_all add: rs')
    show "snd (snd (last rs)) = Some w2"
      using es(1-3) len [of xs "(?vs1, Some w1)"] by (cases "xs = []") (auto simp: rs')
    fix f k dscbase and io :: "(FileState \<times> nat, 'g) recover_io"
    assume f: "fs_ok f" "contents f = take k (contents (dest w2))" "length (contents (dest w1)) \<le> k"
      and io: "ri_current io = (OK, dscbase @ [10])" "ri_file io = (OK, (f, 0))"
    obtain j r where j: "read_all mem_sequential (new_Reader (f, 0) True 0) = Some (?ds @ take j es, r)" "reports r = []"
        "length (contents (dest w2)) \<le> k \<longrightarrow> length es \<le> j"
      using lrb(4) [OF f] by blast
    define i where "i = min j (length xs)"
    have i: "i < length rs" "take j es = take i es" "length (contents (dest w2)) \<le> k \<longrightarrow> i = length xs"
      using j(3) es(1) by (auto simp: i_def rs' len min_def)
    obtain S' b where "levels_hold c U S' (current (fst (snd (rs ! i))))"
      "recovers c name U (?ds @ take i es) S' (compact_pointer (fst (snd (rs ! i)))) (numbers_of (fst (snd (rs ! i))))"
      "current (fst (snd (rs ! i))) = Finalize rnd (SaveTo c b new_Version)"
      using hold [OF i(1)] by blast
    with Recover_restores [OF U j(1) [unfolded i(2)] j(2) _ _ _ io] i(1,3)
    show "\<exists>i < length rs. (\<exists>vs' d save. Recover c name rnd mem_sequential io new_VersionSet = Some (OK, vs', d, save) \<and>
        restored (fst (snd (rs ! i))) vs') \<and> (length (contents (dest w2)) \<le> k \<longrightarrow> i = length xs)"
      by blast
  qed
qed

end

section \<open>Trivial moves\<close>

text \<open>A call that reports success has installed the edit, whatever the file does.\<close>

lemma LogAndApply_installs:
  assumes "LogAndApply c name rnd wfile io e (vs, d) = (s, vs', d')" "ok s"
  shows "vs' = logged c rnd e vs"
proof -
  obtain va b where A: "Apply c (complete_edit vs e) (vs, new_Builder (current vs)) = (va, b)"
    by (rule that [OF prod.collapse [symmetric]])
  have "next_file_number va = next_file_number vs"
    using Apply_pointers [of c "complete_edit vs e" vs "new_Builder (current vs)"] by (simp add: A)
  with assms show ?thesis
    by (auto simp: LogAndApply_def logged_def Let_def A SetNextFile_complete split: prod.splits if_splits option.splits)
qed

text \<open>The edit of a compaction that was picked holds its compaction pointer only.\<close>

lemma SetupOtherInputs_edit:
  "SetupOtherInputs c k vs = Some (k', vs') \<Longrightarrow>
     c_level k' = c_level k \<and> c_level k + 1 < kNumLevels \<and> current vs' = current vs \<and>
     c_edit k' = SetCompactPointer (c_level k) (snd (GetRange c (inputs0 k'))) (c_edit k)"
  by (auto simp: SetupOtherInputs_def Let_def split: if_splits bind_splits)

lemma start_compaction_edit:
  "start_compaction c level f vs = Some (k, vs') \<Longrightarrow>
     c_level k = level \<and> level + 1 < kNumLevels \<and> current vs' = current vs \<and>
     c_edit k = SetCompactPointer level (snd (GetRange c (inputs0 k))) new_VersionEdit"
  by (auto simp: start_compaction_def new_Compaction_def Let_def dest!: SetupOtherInputs_edit split: if_splits bind_splits)

lemma PickCompaction_edit:
  assumes "PickCompaction c vs = Some (Some k, vs')"
  shows "c_level k + 1 < kNumLevels" "current vs' = current vs"
    "c_edit k = SetCompactPointer (c_level k) (snd (GetRange c (inputs0 k))) new_VersionEdit"
  using assms
  by (auto simp: PickCompaction_def Let_def dest!: start_compaction_edit split: if_splits option.splits bind_splits)

text \<open>The levels after the only input was moved down.\<close>

lemma trivial_move_levels:
  assumes U: "universe U" and S: "\<forall>l < kNumLevels. S l \<subseteq> U" and f: "f \<in> S l" "f \<notin> S (l + 1)"
    and k: "c_level k = l" "l + 1 < kNumLevels" "inputs0 k = [f]" "c_edit k = SetCompactPointer l key new_VersionEdit"
  shows "edit_within U (trivial_move k)" "\<And>j. j < kNumLevels \<Longrightarrow> added_at (trivial_move k) j \<inter> S j = {}"
    "level_after (trivial_move k) S l = S l - {f}" "\<And>j. j < l \<Longrightarrow> level_after (trivial_move k) S j = S j"
    "level_after (trivial_move k) S (l + 1) = insert f (S (l + 1))"
proof -
  have fU: "f \<in> U" "install f = f"
    using f(1) S [rule_format, of l] k(2) U by (auto simp: universe_def)
  have new: "install (new_FileMetaData (number f) (file_size f) (smallest f) (largest f)) = f"
    by (rule install_new [OF fU(2)])
  have edit: "new_files (trivial_move k) = [(l + 1, new_FileMetaData (number f) (file_size f) (smallest f) (largest f))]"
    "deleted_files (trivial_move k) = [(l, number f)]"
    by (simp_all add: trivial_move_def k AddFile_def ve_DeleteFile_def SetCompactPointer_def new_VersionEdit_def Let_def)
  have added: "added_at (trivial_move k) j = (if j = l + 1 then {f} else {})" for j
    using new by (auto simp: added_at_def edit)
  have deleted: "deleted_at (trivial_move k) j = (if j = l then {number f} else {})" for j
    by (auto simp: deleted_at_def edit)
  show "edit_within U (trivial_move k)"
    using k(2) fU(1) new by (simp add: edit_within_def edit)
  show "added_at (trivial_move k) j \<inter> S j = {}" if "j < kNumLevels" for j
    using f(2) by (simp add: added)
  have inj: "number g = number f \<longleftrightarrow> g = f" if "g \<in> S l" for g
    using that S [rule_format, of l] k(2) fU(1) U by (auto simp: universe_def dest: inj_onD)
  show "level_after (trivial_move k) S l = S l - {f}"
    using inj by (auto simp: level_after_def added deleted)
  show "level_after (trivial_move k) S j = S j" if "j < l" for j
    using that by (auto simp: level_after_def added deleted)
  show "level_after (trivial_move k) S (l + 1) = insert f (S (l + 1))"
    by (auto simp: level_after_def added deleted)
qed

text \<open>A file of one level is in no other.\<close>

lemma version_ok_disjoint:
  assumes ok: "version_ok content v" and l: "l < m" "m < kNumLevels" and f: "f \<in> set (vfiles v ! l)"
  shows "f \<notin> set (vfiles v ! m)"
proof
  assume "f \<in> set (vfiles v ! m)"
  then have "newer_entries (content (number f)) (content (number f))"
    using ok l f unfolding version_ok_def sorted_wrt_iff_nth_less list_all_iff by metis
  moreover have "content (number f) \<noteq> []"
    using version_ok_level(1) [OF ok _ f] l by (simp add: file_holds_def Let_def)
  ultimately show False
    by (cases "content (number f)") (auto simp: newer_entries_def)
qed

text \<open>Where the newest version is in one level, the levels before have no visible one.\<close>

lemma newest_above_none:
  assumes ok: "version_ok content v" and l: "j < l" "l < kNumLevels"
    and e: "newest_visible (version_entries content v) u s e" "e \<in> set (content (number f))" "f \<in> set (vfiles v ! l)"
    and g: "g \<in> set (vfiles v ! j)" "x \<in> set (content (number g))"
  shows "\<not> visible u s x"
proof
  assume vis: "visible u s x"
  have len: "length (vfiles v) = kNumLevels"
    using ok by (simp add: version_ok_def)
  have "newer_entries (content (number g)) (content (number f))"
    using ok l g(1) e(3) unfolding version_ok_def sorted_wrt_iff_nth_less list_all_iff by metis
  moreover have "fst x = u" "fst e = u"
    using vis e(1) by (cases x, cases e, simp add: newest_visible_def)+
  ultimately have "entry_seq e < entry_seq x"
    using g(2) e(2) by (auto simp: newer_entries_def list_all_iff)
  moreover have "vfiles v ! j \<in> set (vfiles v)"
    using l len by simp
  then have "x \<in> set (version_entries content v)"
    using g by (auto simp: version_entries_def)
  then have "newer_or_same e x"
    using e(1) vis by (simp add: newest_visible_def)
  ultimately show False
    by (cases x, cases e) auto
qed

text \<open>In two files of a sorted level the newest visible version comes strictly first.\<close>

lemma newest_strictly_first:
  assumes lv: "level_sorted BytewiseComparator fs" "f \<in> set fs" "g \<in> set fs" "f \<noteq> g"
    and holds: "file_holds content f" "file_holds content g"
    and e: "e \<in> set (content (number f))" "x \<in> set (content (number g))" "fst e = fst x" "newer_or_same e x"
  shows "ikey_cmp (entry_key e) (entry_key x) < 0"
proof -
  have ok: "entry_ok e" "entry_ok x"
    using holds e(1,2) by (auto simp: file_holds_def entries_sorted_def Let_def)
  obtain s t v s' t' v' u where fields: "e = (u, s, t, v)" "x = (u, s', t', v')"
    using e(3) by (cases e, cases x) auto
  have lens: "8 \<le> length (smallest h)" "8 \<le> length (largest h)" if "file_holds content h" for h
    using that by (auto simp: file_holds_def Let_def)
  have less: "ikey_cmp (entry_key a) (entry_key b) < 0"
    if "ikey_cmp (largest h) (smallest h') < 0" "file_holds content h" "file_holds content h'"
      "a \<in> set (content (number h))" "b \<in> set (content (number h'))" for a b h h'
  proof -
    have "ikey_cmp (entry_key a) (smallest h') < 0"
      using bytewise_keys.ikey.cmp_le_less_trans [OF length_entry_key lens(2) [OF that(2)] lens(1) [OF that(3)]
          file_covers(2) [OF that(2,4)] that(1)] .
    then show ?thesis
      using bytewise_keys.ikey.cmp_less_le_trans [OF length_entry_key lens(1) [OF that(3)] length_entry_key _
          file_covers(1) [OF that(3,5)]] by blast
  qed
  have "ikey_cmp (largest f) (smallest g) < 0 \<or> ikey_cmp (largest g) (smallest f) < 0"
    using lv by (auto simp: level_sorted_def sorted_wrt_iff_nth_less in_set_conv_nth) (metis linorder_neq_iff)
  then show ?thesis
  proof
    assume "ikey_cmp (largest g) (smallest f) < 0"
    from less [OF this holds(2,1) e(2,1)] have "ikey_cmp (entry_key x) (entry_key e) < 0" .
    then show ?thesis
      using e(4) ok slice_compare_eq [of u u] by (auto simp: fields ikey_cmp_less)
  qed (use less holds e in blast)
qed

text \<open>A lookup answers from the first level that has a visible version.\<close>

lemma Version_Get_level:
  assumes s: "s \<le> kMaxSequenceNumber" and live: "\<not> stop_search v" and l: "0 < l" "l < kNumLevels"
    and files: "\<forall>j \<le> l. \<forall>f \<in> set (vfiles v ! j). reads_file tget content f u s \<and> file_holds content f"
    and none: "\<forall>j < l. \<forall>f \<in> set (vfiles v ! j). \<forall>e \<in> set (content (number f)). \<not> visible u s e"
    and lv: "level_sorted BytewiseComparator (vfiles v ! l)"
    and g: "g \<in> set (vfiles v ! l)" "x \<in> set (content (number g))" "visible u s x"
  shows "\<exists>f e. f \<in> set (vfiles v ! l) \<and> newest_visible (content (number f)) u s e \<and>
    get_answer e val (Version_Get BytewiseComparator tget v (new_LookupKey u s) val)"
proof -
  let ?k = "InternalKey u s kValueTypeForSeek"
  let ?at = "\<lambda>j. map (Pair j) (if j = 0 then level0_files BytewiseComparator u (vfiles v ! 0)
    else level_files BytewiseComparator u ?k (vfiles v ! j))"
  obtain f where f: "f \<in> set (level_files BytewiseComparator u ?k (vfiles v ! l))" "\<exists>e \<in> set (content (number f)). visible u s e"
    using level_files_complete [where content = content, OF lv _ s g] files by blast
  then have single: "?at l = [(l, f)]" "f \<in> set (vfiles v ! l)"
    using l(1) set_level_files(1) [of BytewiseComparator u ?k "vfiles v ! l"]
    by (auto simp: level_files_def Let_def split: if_splits)
  have "[0..<kNumLevels] = [0..<l] @ l # [Suc l..<kNumLevels]"
    using l(2) by (metis le_add_same_cancel1 less_imp_le upt_add_eq_append upt_conv_Cons zero_le le_add_diff_inverse add_0)
  then have search: "search_files BytewiseComparator u ?k v =
      concat (map ?at [0..<l]) @ (l, f) # concat (map ?at [Suc l..<kNumLevels])"
    using single(1) by (simp add: search_files_def)
  have sub: "j < l \<and> h \<in> set (vfiles v ! j)" if "(j, h) \<in> set (concat (map ?at [0..<l]))" for j h
    using that by (auto split: if_splits dest: subsetD [OF set_level_files(1)] subsetD [OF set_level_files(2)])
  have "\<exists>e. newest_visible (content (number (snd (l, f)))) u s e \<and> get_answer e val
      (Get_loop BytewiseComparator tget u ?k (concat (map ?at [0..<l]) @ (l, f) # concat (map ?at [Suc l..<kNumLevels])) None None val)"
  proof (rule Get_loop_first [OF s])
    fix j h
    assume "(j, h) \<in> set (concat (map ?at [0..<l]) @ [(l, f)])"
    then have "j \<le> l \<and> h \<in> set (vfiles v ! j)"
      using sub [of j h] single(2) by (auto simp del: set_concat)
    then show "reads_file tget content h u s \<and> entries_sorted (content (number h))"
      using files by (auto simp: file_holds_def Let_def)
  next
    fix j h e
    assume "(j, h) \<in> set (concat (map ?at [0..<l]))" "e \<in> set (content (number h))"
    then show "\<not> visible u s e"
      using sub none by blast
  qed (use f(2) in simp)
  then obtain e where e: "newest_visible (content (number f)) u s e" "get_answer e val (Get_loop BytewiseComparator tget u ?k
      (concat (map ?at [0..<l]) @ (l, f) # concat (map ?at [Suc l..<kNumLevels])) None None val)"
    unfolding snd_conv by blast
  have "Version_Get BytewiseComparator tget v (new_LookupKey u s) val =
      Get_loop BytewiseComparator tget u ?k (search_files BytewiseComparator u ?k v) None None val"
    using live by (simp add: Version_Get_def Let_def)
  with e single(2) show ?thesis
    unfolding search by metis
qed

text \<open>The level a file was moved from is the old one without it.\<close>

lemma moved_level:
  assumes U: "universe U" and v: "levels_hold BytewiseComparator U S v" and w: "levels_hold BytewiseComparator U S' w"
    and l: "l < kNumLevels" "S' l = S l - {f}"
  shows "vfiles w ! l = filter (\<lambda>h. h \<noteq> f) (vfiles v ! l)"
proof (rule sorted_wrt_unique [of "BySmallestKey BytewiseComparator"])
  show "\<not> BySmallestKey BytewiseComparator y x"
    if "x \<in> set (vfiles w ! l)" "y \<in> set (vfiles w ! l)" "BySmallestKey BytewiseComparator x y" for x y
    using bytewise_keys.By_asym [OF U _ _ that(3)] that(1,2) w l(1) by (auto simp: levels_hold_def)
qed (use v w l in \<open>auto simp: levels_hold_def sorted_wrt_filter\<close>)

section \<open>Properties\<close>

text \<open>(C3) The manifest makes version edits durable in order.  A run of calls of \<^verbatim>\<open>LogAndApply\<close>
  starts a new manifest with a snapshot of any well-formed state; every call succeeds.  When the manifest
  is then cut anywhere after the first call's records, \<^verbatim>\<open>Recover\<close> succeeds and restores the
  state after one of the calls: the files of every level in their order, the compaction
  score and pointers, the log, map and sequence numbers.  Only the next file number is one
  more.  An uncut manifest restores the state after the last call.\<close>

theorem manifest_recovers_prefix:
  assumes U: "universe U" and n: "length name < 2 ^ 32" and v: "levels_hold BytewiseComparator U S (current vs)"
    and cp: "length (compact_pointer vs) = kNumLevels" "list_all (\<lambda>k. length k < 2 ^ 32) (compact_pointer vs)"
    and calls: "calls_ok name U S (x # xs)" and rs: "rs = log_calls BytewiseComparator name rnd raw (x # xs) (vs, None)"
  shows "list_all (\<lambda>r. ok (fst r)) rs \<and> (\<exists>w1 w2. snd (snd (hd rs)) = Some w1 \<and> snd (snd (last rs)) = Some w2 \<and> fs_ok (dest w2) \<and>
    (\<forall>f k (io :: (FileState \<times> nat, 'g) recover_io) dscbase. fs_ok f \<longrightarrow> contents f = take k (contents (dest w2)) \<longrightarrow> length (contents (dest w1)) \<le> k \<longrightarrow>
      ri_current io = (OK, dscbase @ [10]) \<longrightarrow> ri_file io = (OK, (f, 0)) \<longrightarrow>
      (\<exists>i < length rs. (\<exists>vs' d save. Recover BytewiseComparator name rnd mem_sequential io new_VersionSet = Some (OK, vs', d, save) \<and>
          restored (fst (snd (rs ! i))) vs') \<and> (length (contents (dest w2)) \<le> k \<longrightarrow> i = length xs))))"
  using bytewise_keys.manifest_prefix [OF U n v cp(1) _ calls rs] cp(2) by (simp only: list_all_iff)

theorem manifest_recovers_prefix_witness:
  "let name = lit ''leveldb.BytewiseComparator''; key = [97, 1, 5, 0, 0, 0, 0, 0, 0];
       calls = [(AddFile 0 5 100 key key new_VersionEdit, 6, 10), (AddFile 1 5 100 key key (ve_DeleteFile 0 5 new_VersionEdit), 7, 12)];
       rs = log_calls BytewiseComparator name id (\<lambda>i. 0) calls (new_VersionSet, None)
   in \<exists>w f vs'. snd (snd (last rs)) = Some w \<and> f = dest w \<and>
        (\<exists>d save. Recover BytewiseComparator name id mem_sequential
           \<lparr> ri_current = (OK, lit ''MANIFEST-000002'' @ [10]), ri_file = (OK, (f, 0)), ri_reuse_logs = False,
             ri_size = (OK, 0), ri_append = (OK, f) \<rparr> new_VersionSet = Some (OK, vs', d, save)) \<and>
        restored (fst (snd (rs ! 1))) vs'"
proof -
  let ?name = "lit ''leveldb.BytewiseComparator''" and ?key = "[97, 1, 5, 0, 0, 0, 0, 0, 0] :: bytes"
  let ?x = "(AddFile 0 5 100 ?key ?key new_VersionEdit, 6, 10) :: call"
  let ?y = "(AddFile 1 5 100 ?key ?key (ve_DeleteFile 0 5 new_VersionEdit), 7, 12) :: call"
  let ?rs = "log_calls BytewiseComparator ?name id (\<lambda>i. 0) [?x, ?y] (new_VersionSet, None)"
  let ?f = "install (new_FileMetaData 5 100 ?key ?key)"
  have U: "universe {?f}"
    by (simp add: universe_def install_def new_FileMetaData_def)
  have v: "levels_hold BytewiseComparator {?f} (\<lambda>l. {}) (current new_VersionSet)"
    using bytewise_keys.new_holds(1) by (simp add: new_VersionSet_def AppendVersion_def)
  have calls: "calls_ok ?name {?f} (\<lambda>l. {}) [?x, ?y]"
    by (auto simp: call_ok_def edit_ok_def edit_items_def opt_item_def edit_within_def added_at_def level_after_def deleted_at_def
        AddFile_def ve_DeleteFile_def new_VersionEdit_def new_FileMetaData_def kNumLevels_def install_def)
  have len: "length ?rs = 2"
    by (simp add: Let_def)
  have n: "length ?name < 2 ^ 32"
    by (simp add: lit_def)
  have cp: "length (compact_pointer new_VersionSet) = kNumLevels" "list_all (\<lambda>k. length k < 2 ^ 32) (compact_pointer new_VersionSet)"
    by (simp_all add: new_VersionSet_def AppendVersion_def list_all_iff)
  obtain w1 w2 where w: "snd (snd (hd ?rs)) = Some w1" "snd (snd (last ?rs)) = Some w2" "fs_ok (dest w2)"
    and r: "\<And>f k (io :: (FileState \<times> nat, FileState) recover_io) dscbase. fs_ok f \<Longrightarrow> contents f = take k (contents (dest w2)) \<Longrightarrow> length (contents (dest w1)) \<le> k \<Longrightarrow>
      ri_current io = (OK, dscbase @ [10]) \<Longrightarrow> ri_file io = (OK, (f, 0)) \<Longrightarrow>
      (\<exists>i < length ?rs. (\<exists>vs' d save. Recover BytewiseComparator ?name id mem_sequential io new_VersionSet = Some (OK, vs', d, save) \<and>
          restored (fst (snd (?rs ! i))) vs') \<and> (length (contents (dest w2)) \<le> k \<longrightarrow> i = length [?y]))"
    using manifest_recovers_prefix [where 'g = FileState, OF U n v cp calls refl, of id "\<lambda>i. 0"] by blast
  let ?io = "\<lparr> ri_current = (OK, lit ''MANIFEST-000002'' @ [10]), ri_file = (OK, (dest w2, 0)), ri_reuse_logs = False,
    ri_size = (OK, 0), ri_append = (OK, dest w2) \<rparr>"
  have "contents (dest w2) = take (length (contents (dest w1)) + length (contents (dest w2))) (contents (dest w2))"
    by simp
  from r [OF w(3) this, of ?io "lit ''MANIFEST-000002''"] obtain i vs' d save where
    "Recover BytewiseComparator ?name id mem_sequential ?io new_VersionSet = Some (OK, vs', d, save)"
    "restored (fst (snd (?rs ! i))) vs'" "i = 1"
    by auto
  with w(2) show ?thesis
    unfolding Let_def by blast
qed

text \<open>(C37) Above level 0 the inputs of a compaction are chosen file by file, although the versions
  of one user key may be in two files of a level.  Take any well-formed state in which the
  newest version of a key that a reader sees is in a file of a level above 0, and an older
  visible version in another file of the same level.  When the next compaction that is
  picked is a trivial move of the first file, and \<^verbatim>\<open>LogAndApply\<close> of it succeeds, the file with
  the newest version is one level further down, and a lookup, which answered with the newest
  version before, answers with a strictly older one.\<close>

theorem split_key_compaction_loses_newest:
  assumes ok: "version_ok content (current vs)" and s: "s \<le> kMaxSequenceNumber"
    and U: "universe U" "levels_hold BytewiseComparator U S (current vs)"
    and reads: "list_all (list_all (\<lambda>f. reads_file tget content f u s)) (vfiles (current vs))"
    and pick: "PickCompaction BytewiseComparator vs = Some (Some k, vs1)" "IsTrivialMove k" "0 < c_level k"
      "f = hd (inputs0 k)" "f \<in> set (vfiles (current vs) ! c_level k)"
    and newest: "newest_visible (version_entries content (current vs)) u s e" "e \<in> set (content (number f))"
    and split: "g \<in> set (vfiles (current vs) ! c_level k)" "g \<noteq> f" "x \<in> set (content (number g))" "visible u s x"
    and log: "LogAndApply BytewiseComparator name rnd wfile io (trivial_move k) (vs1, d) = (OK, vs2, d')"
  shows "f \<in> set (vfiles (current vs2) ! (c_level k + 1)) \<and>
    (\<exists>e'. e' \<in> set (version_entries content (current vs)) \<and> visible u s e' \<and> ikey_cmp (entry_key e) (entry_key e') < 0 \<and>
      get_answer e' val (Version_Get BytewiseComparator tget (current vs2) (new_LookupKey u s) val))"
proof -
  let ?l = "c_level k" and ?v = "current vs" and ?w = "current vs2"
  note P = PickCompaction_edit [OF pick(1)]
  have l: "?l < kNumLevels" "length (vfiles ?v) = kNumLevels"
    using P(1) ok by (simp_all add: version_ok_def)
  have S: "S j = set (vfiles ?v ! j)" "S j \<subseteq> U" if "j < kNumLevels" for j
    using U(2) that by (auto simp: levels_hold_def)
  have in0: "inputs0 k = [f]"
    using pick(2,4) by (cases "inputs0 k") (auto simp: IsTrivialMove_def)
  have f: "f \<in> S ?l" "f \<notin> S (?l + 1)"
    using pick(5) version_ok_disjoint [OF ok _ P(1) pick(5)] S(1) P(1) by auto
  have sub: "\<forall>j < kNumLevels. S j \<subseteq> U"
    using S(2) by blast
  note T = trivial_move_levels [OF U(1) sub f refl P(1) in0 P(3)]
  have vs2: "vs2 = logged BytewiseComparator rnd (trivial_move k) vs1"
    using LogAndApply_installs [OF log] by (simp add: ok_def)
  have W: "levels_hold BytewiseComparator U (level_after (trivial_move k) S) ?w"
    using bytewise_keys.edit_step [OF U(1) _ U(2), of "complete_edit vs1 (trivial_move k)"] T(1,2) P(2)
    by (simp add: vs2 logged_fields)
  have wl: "vfiles ?w ! ?l = filter (\<lambda>h. h \<noteq> f) (vfiles ?v ! ?l)"
    by (rule moved_level [OF U W l(1) T(3)])
  have wj: "set (vfiles ?w ! j) = set (vfiles ?v ! j)" if "j < ?l" for j
    using W T(4) [OF that] S(1) that l(1) by (simp add: levels_hold_def)
  have files: "\<forall>j \<le> ?l. \<forall>h \<in> set (vfiles ?w ! j). reads_file tget content h u s \<and> file_holds content h"
  proof (intro allI impI ballI)
    fix j h
    assume that: "j \<le> ?l" "h \<in> set (vfiles ?w ! j)"
    have "h \<in> set (vfiles ?v ! j)" "j < kNumLevels"
      using that wl wj [of j] l(1) by (cases "j = ?l"; auto)+
    then show "reads_file tget content h u s \<and> file_holds content h"
      using reads version_ok_level(1) [OF ok] l(2) by (auto simp: list_all_length in_set_conv_nth)
  qed
  have lv: "level_sorted BytewiseComparator (vfiles ?v ! ?l)" "level_sorted BytewiseComparator (vfiles ?w ! ?l)"
    using version_ok_level(2) [OF ok l(1) pick(3)] by (auto simp: wl level_sorted_def list_all_iff sorted_wrt_filter)
  have live: "\<not> stop_search ?w"
    by (simp add: vs2 logged_fields Finalize_def SaveTo_def new_Version_def split: prod.split)
  have gw: "g \<in> set (vfiles ?w ! ?l)"
    using split(1,2) by (simp add: wl)
  have none: "\<forall>j < ?l. \<forall>h \<in> set (vfiles ?w ! j). \<forall>y \<in> set (content (number h)). \<not> visible u s y"
    using newest_above_none [OF ok _ l(1) newest pick(5)] wj by blast
  obtain h e' where h: "h \<in> set (vfiles ?w ! ?l)" "newest_visible (content (number h)) u s e'"
    "get_answer e' val (Version_Get BytewiseComparator tget ?w (new_LookupKey u s) val)"
    using Version_Get_level [OF s live pick(3) l(1) files none lv(2) gw split(3,4), of val] by blast
  have hv: "h \<in> set (vfiles ?v ! ?l)" "f \<noteq> h" and vis: "visible u s e'" "e' \<in> set (content (number h))" "visible u s e"
    using h(1,2) newest(1) by (auto simp: wl newest_visible_def)
  have mem: "e' \<in> set (version_entries content ?v)"
    using hv(1) vis(2) l by (auto simp: version_entries_def intro!: bexI [of _ "vfiles ?v ! ?l"])
  have "ikey_cmp (entry_key e) (entry_key e') < 0"
  proof (rule newest_strictly_first [OF lv(1) pick(5) hv])
    show "file_holds content f" "file_holds content h"
      using version_ok_level(1) [OF ok l(1)] pick(5) hv(1) by blast+
    show "fst e = fst e'"
      using vis(1,3) by (cases e; cases e') simp
    show "newer_or_same e e'"
      using vis(1) newest(1) mem unfolding newest_visible_def by blast
  qed (use newest(2) vis(2) in simp_all)
  moreover have "f \<in> set (vfiles ?w ! (?l + 1))"
    using W T(5) P(1) by (simp add: levels_hold_def)
  ultimately show ?thesis
    using mem vis(1) h(3) by blast
qed

text \<open>Two files of level 1 with one user key; the first has used up its seeks.\<close>

definition split_content :: "uint64 \<Rightarrow> entry list" where
  "split_content n = (if n = 10 then [([97], 5, kTypeValue, [50])] else [([97], 3, kTypeValue, [30])])"

definition content_get :: "(uint64 \<Rightarrow> entry list) \<Rightarrow> table_get" where
  "content_get content n sz k =
     (OK, case seek_entries k (content n) of [] \<Rightarrow> None | e # _ \<Rightarrow> Some (entry_key e, entry_value e))"

definition split_file :: "uint64 \<Rightarrow> SequenceNumber \<Rightarrow> FileMetaData" where
  "split_file n s = install (new_FileMetaData n 100 (InternalKey [97] s kTypeValue) (InternalKey [97] s kTypeValue))"

definition split_state :: VersionSet where
  "split_state = new_VersionSet\<lparr>current := new_Version\<lparr>
     vfiles := [[], [split_file 10 5, split_file 11 3], [], [], [], [], []],
     file_to_compact := Some (split_file 10 5), file_to_compact_level := 1\<rparr>\<rparr>"

lemma split_file_simps [simp]:
  "number (split_file n s) = n" "smallest (split_file n s) = InternalKey [97] s kTypeValue"
  "largest (split_file n s) = InternalKey [97] s kTypeValue" "install (split_file n s) = split_file n s"
  by (simp_all add: split_file_def install_def new_FileMetaData_def)

lemma split_files:
  "vfiles (current split_state) = [[], [split_file 10 5, split_file 11 3], [], [], [], [], []]"
  by (simp add: split_state_def)

lemma split_key_order: "ikey_cmp (InternalKey [97] 5 kTypeValue) (InternalKey [97] 3 kTypeValue) < 0"
  by (simp add: ikey_cmp_less kMaxSequenceNumber_eq word_le_nat_alt)

lemma split_version_ok: "version_ok split_content (current split_state)"
proof -
  have max: "(n :: uint64) \<le> kMaxSequenceNumber" if "n \<in> {3, 5}" for n
    using that by (auto simp: kMaxSequenceNumber_eq word_le_nat_alt)
  have "file_ok BytewiseComparator (split_file n s)" if "s \<in> {3, 5}" for n s
    using single_key_file_ok [OF max [OF that], of n 100 "[97]" kTypeValue] by (simp add: file_ok_def new_FileMetaData_def)
  then have "level_sorted BytewiseComparator [split_file 10 5, split_file 11 3]" "level_sorted BytewiseComparator []"
    using split_key_order by (simp_all add: level_sorted_def)
  then show ?thesis
    using max by (simp add: version_ok_def split_files kNumLevels_def file_holds_def split_content_def entries_sorted_def)
qed

lemma split_holds:
  "universe {split_file 10 5, split_file 11 3}"
  "levels_hold BytewiseComparator {split_file 10 5, split_file 11 3}
     (\<lambda>l. if l = 1 then {split_file 10 5, split_file 11 3} else {}) (current split_state)"
proof -
  show "universe {split_file 10 5, split_file 11 3}"
    by (auto simp: universe_def)
  have "BySmallestKey BytewiseComparator (split_file 10 5) (split_file 11 3)"
    using split_key_order by (simp add: BySmallestKey_def Let_def)
  then show "levels_hold BytewiseComparator {split_file 10 5, split_file 11 3}
     (\<lambda>l. if l = 1 then {split_file 10 5, split_file 11 3} else {}) (current split_state)"
    by (auto simp: levels_hold_def split_files kNumLevels_def less_Suc_eq numeral_eq_Suc)
qed

theorem split_key_compaction_loses_newest_witness:
  "fst (snd (Version_Get BytewiseComparator (content_get split_content) (current split_state) (new_LookupKey [97] 9) [])) = [50] \<and>
   (\<exists>k vs1 vs2 w. PickCompaction BytewiseComparator split_state = Some (Some k, vs1) \<and> IsTrivialMove k \<and>
      LogAndApply BytewiseComparator [] id (mem_writable (\<lambda>_. 0)) good_io (trivial_move k) (vs1, None) = (OK, vs2, Some w) \<and>
      fst (snd (Version_Get BytewiseComparator (content_get split_content) (current vs2) (new_LookupKey [97] 9) [])) = [30])"
proof
  show "fst (snd (Version_Get BytewiseComparator (content_get split_content) (current split_state) (new_LookupKey [97] 9) [])) = [50]"
    by code_simp
  have "case PickCompaction BytewiseComparator split_state of
      Some (Some k, vs1) \<Rightarrow> IsTrivialMove k \<and> c_level k = 1 \<and> hd (inputs0 k) = split_file 10 5 | _ \<Rightarrow> False"
    by code_simp
  then obtain k vs1 where k: "PickCompaction BytewiseComparator split_state = Some (Some k, vs1)" "IsTrivialMove k" "c_level k = 1"
      "hd (inputs0 k) = split_file 10 5"
    by (auto split: option.splits prod.splits)
  let ?ds = "[EncodeTo (snapshot_edit [] (fst (Apply BytewiseComparator (complete_edit vs1 (trivial_move k)) (vs1, new_Builder (current vs1))))) [],
      EncodeTo (complete_edit vs1 (trivial_move k)) []]"
  obtain st w where w: "AddRecords (mem_writable (\<lambda>_. 0)) ?ds (new_Writer new_FileState) = (st, w)"
    by (rule that [OF prod.collapse [symmetric]])
  then have "ok st"
    using mem_sink.AddRecords_cuts [OF new_Writer_ok w] by blast
  then obtain vs2 where log:
    "LogAndApply BytewiseComparator [] id (mem_writable (\<lambda>_. 0)) good_io (trivial_move k) (vs1, None) = (OK, vs2, Some w)"
    using LogAndApply_first [OF w] by blast
  have nine: "(9 :: uint64) \<le> kMaxSequenceNumber"
    by (simp add: kMaxSequenceNumber_eq word_le_nat_alt)
  have reads: "list_all (list_all (\<lambda>f. reads_file (content_get split_content) split_content f [97] 9)) (vfiles (current split_state))"
    by code_simp
  have entries: "version_entries split_content (current split_state) = [([97], 5, kTypeValue, [50]), ([97], 3, kTypeValue, [30])]"
    by (simp add: version_entries_def split_files split_content_def)
  have newest: "newest_visible (version_entries split_content (current split_state)) [97] 9 ([97], 5, kTypeValue, [50])"
    by (simp add: entries newest_visible_def word_le_nat_alt word_less_nat_alt)
  let ?r = "Version_Get BytewiseComparator (content_get split_content) (current vs2) (new_LookupKey [97] 9) []"
  have files: "split_file 10 5 \<in> set (vfiles (current split_state) ! c_level k)"
      "split_file 11 3 \<in> set (vfiles (current split_state) ! c_level k)" "0 < c_level k"
    by (simp_all add: k(3) split_files)
  have ne: "split_file 11 3 \<noteq> split_file 10 5"
    by (rule notI, drule arg_cong [of _ _ number]) simp
  have mem: "([97], 5, kTypeValue, [50]) \<in> set (split_content (number (split_file 10 5)))"
      "([97], 3, kTypeValue, [30]) \<in> set (split_content (number (split_file 11 3)))" "visible [97] 9 ([97], 3, kTypeValue, [30])"
    by (simp_all add: split_content_def word_le_nat_alt)
  have "\<exists>e'. e' \<in> set (version_entries split_content (current split_state)) \<and> visible [97] 9 e' \<and>
      ikey_cmp (entry_key ([97], 5, kTypeValue, [50])) (entry_key e') < 0 \<and> get_answer e' [] ?r"
    using split_key_compaction_loses_newest [OF split_version_ok nine split_holds reads k(1,2) files(3) k(4) [symmetric] files(1)
        newest mem(1) files(2) ne mem(2,3) log, of "[]"] by (rule conjunct2)
  then obtain e' where e': "e' \<in> {([97], 5, kTypeValue, [50]), ([97], 3, kTypeValue, [30])}"
      "ikey_cmp (entry_key ([97], 5, kTypeValue, [50])) (entry_key e') < 0" "get_answer e' [] ?r"
    unfolding entries list.set by blast
  then have "e' = ([97], 3, kTypeValue, [30])"
    using bytewise_keys.ikey.cmp_refl [of "InternalKey [97] 5 kTypeValue"] by auto
  with e'(3) have "fst (snd ?r) = [30]"
    by (simp add: get_answer_def)
  with k(1,2) log show "\<exists>k vs1 vs2 w. PickCompaction BytewiseComparator split_state = Some (Some k, vs1) \<and> IsTrivialMove k \<and>
      LogAndApply BytewiseComparator [] id (mem_writable (\<lambda>_. 0)) good_io (trivial_move k) (vs1, None) = (OK, vs2, Some w) \<and>
      fst (snd (Version_Get BytewiseComparator (content_get split_content) (current vs2) (new_LookupKey [97] 9) [])) = [30]"
    by blast
qed

end
